(* ===== verification/LS_Prelude.thy ===== *)
theory LS_Prelude
  imports Main "HOL-Library.Word"
begin

text \<open>
  The vocabulary every component of the development shares.

  \<^item> Machine integers: \<open>u8\<close>, \<open>u32\<close>, \<open>u64\<close> are words; a \<open>Vec<u8>\<close> or \<open>&[u8]\<close> is a list of
    bytes.
  \<^item> Text: a Rust \<open>str\<close> or \<open>String\<close> is the sequence of its UTF-8 bytes, one \<open>char\<close> of HOL per
    byte, so \<open>len()\<close> is \<open>length\<close>. Operations that go character by character (\<open>chars\<close>, \<open>trim\<close>)
    first group the bytes into characters.
  \<^item> \<open>Result<T, E>\<close> is \<open>E + T\<close> with \<open>Inl\<close> for \<open>Err\<close>; \<open>?\<close> and \<open>and_then\<close> are
    \<open>and_then\<close>, \<open>ok_or\<close> and \<open>map_err\<close> are what the standard library calls them.
  \<^item> The standard library's slices and numbers: \<open>chunks\<close>, \<open>split\<close>, \<open>split_once\<close>, the decimal
    printing of unsigned and signed integers and \<open>str::parse\<close> for them.
\<close>

unbundle bit_operations_syntax

type_synonym u8 = "8 word"
type_synonym u32 = "32 word"
type_synonym u64 = "64 word"
type_synonym byte = u8
type_synonym bytes = "byte list"
type_synonym str = string

named_theorems res_simps \<open>rewriting of results\<close>
named_theorems codec_simps \<open>decoders applied to what the encoders wrote\<close>

section \<open>Results\<close>

definition and_then :: "'e + 'a \<Rightarrow> ('a \<Rightarrow> 'e + 'b) \<Rightarrow> 'e + 'b" where
  "and_then r f = (case r of Inl e \<Rightarrow> Inl e | Inr x \<Rightarrow> f x)"

definition ok_or :: "'e \<Rightarrow> 'a option \<Rightarrow> 'e + 'a" where
  "ok_or e r = (case r of None \<Rightarrow> Inl e | Some x \<Rightarrow> Inr x)"

definition map_err :: "('e \<Rightarrow> 'f) \<Rightarrow> 'e + 'a \<Rightarrow> 'f + 'a" where
  "map_err h r = (case r of Inl e \<Rightarrow> Inl (h e) | Inr x \<Rightarrow> Inr x)"

text \<open>A loop that pushes one result per element and leaves at the first error.\<close>

primrec traverse :: "('a \<Rightarrow> 'e + 'b) \<Rightarrow> 'a list \<Rightarrow> 'e + 'b list" where
  "traverse f [] = Inr []"
| "traverse f (x # xs) = and_then (f x) (\<lambda>y. and_then (traverse f xs) (\<lambda>ys. Inr (y # ys)))"

text \<open>The same with \<open>Option\<close>.\<close>

primrec traverse_opt :: "('a \<Rightarrow> 'b option) \<Rightarrow> 'a list \<Rightarrow> 'b list option" where
  "traverse_opt f [] = Some []"
| "traverse_opt f (x # xs) =
     Option.bind (f x) (\<lambda>y. Option.bind (traverse_opt f xs) (\<lambda>ys. Some (y # ys)))"

lemma and_then_simps [simp, res_simps]:
  "and_then (Inr x) f = f x"
  "and_then (Inl e) f = Inl e"
  by (simp_all add: and_then_def)

lemma ok_or_simps [simp, res_simps]:
  "ok_or e (Some x) = Inr x"
  "ok_or e None = Inl e"
  by (simp_all add: ok_or_def)

lemma map_err_simps [simp, res_simps]:
  "map_err h (Inr x) = Inr x"
  "map_err h (Inl e) = Inl (h e)"
  by (simp_all add: map_err_def)

lemma and_then_eq_Inr [simp]:
  "and_then r f = Inr y \<longleftrightarrow> (\<exists>x. r = Inr x \<and> f x = Inr y)"
  by (cases r) auto

lemma and_then_eq_Inl:
  "and_then r f = Inl e \<longleftrightarrow> r = Inl e \<or> (\<exists>x. r = Inr x \<and> f x = Inl e)"
  by (cases r) auto

lemma ok_or_eq_Inr [simp]: "ok_or e r = Inr x \<longleftrightarrow> r = Some x"
  by (cases r) auto

lemma map_err_eq_Inr [simp]: "map_err h r = Inr x \<longleftrightarrow> r = Inr x"
  by (cases r) auto

lemma traverse_map_Inr:
  "(\<And>x. x \<in> set xs \<Longrightarrow> f (g x) = Inr (h x)) \<Longrightarrow> traverse f (map g xs) = Inr (map h xs)"
  by (induction xs) auto

lemma traverse_eq_Inr_iff:
  "traverse f xs = Inr ys \<longleftrightarrow> list_all2 (\<lambda>x y. f x = Inr y) xs ys"
  by (induction xs arbitrary: ys) (auto simp: list_all2_Cons1)

lemma traverse_append:
  "traverse f (xs @ ys) =
     and_then (traverse f xs) (\<lambda>us. and_then (traverse f ys) (\<lambda>vs. Inr (us @ vs)))"
proof (induction xs)
  case Nil
  show ?case by (cases "traverse f ys") auto
next
  case (Cons x xs)
  then show ?case
    by (cases "f x"; cases "traverse f xs"; cases "traverse f ys") auto
qed

lemma traverse_opt_map_Some:
  "(\<And>x. x \<in> set xs \<Longrightarrow> f (g x) = Some (h x)) \<Longrightarrow> traverse_opt f (map g xs) = Some (map h xs)"
  by (induction xs) auto

lemma traverse_opt_eq_Some_iff:
  "traverse_opt f xs = Some ys \<longleftrightarrow> list_all2 (\<lambda>x y. f x = Some y) xs ys"
  by (induction xs arbitrary: ys) (auto simp: list_all2_Cons1 bind_eq_Some_conv)

section \<open>Slices\<close>

text \<open>\<open>slice::chunks(n)\<close>, for \<open>n > 0\<close>: pieces of \<open>n\<close> elements, the last one possibly shorter.\<close>

fun chunks :: "nat \<Rightarrow> 'a list \<Rightarrow> 'a list list" where
  "chunks n xs = (if n = 0 \<or> xs = [] then [] else take n xs # chunks n (drop n xs))"

declare chunks.simps [simp del]

lemma chunks_Nil [simp]: "chunks n [] = []"
  by (simp add: chunks.simps)

lemma chunks_append:
  "length xs = n \<Longrightarrow> 0 < n \<Longrightarrow> chunks n (xs @ ys) = xs # chunks n ys"
  by (subst chunks.simps) auto

lemma chunks_short:
  "xs \<noteq> [] \<Longrightarrow> length xs \<le> n \<Longrightarrow> chunks n xs = [xs]"
  by (subst chunks.simps) (cases xs, auto)

lemma concat_chunks: "0 < n \<Longrightarrow> concat (chunks n xs) = xs"
proof (induction n xs rule: chunks.induct)
  case (1 n xs)
  then show ?case by (subst chunks.simps) auto
qed

lemma chunks_concat:
  assumes "0 < n" and "\<And>x. x \<in> set xss \<Longrightarrow> length x = n"
  shows "chunks n (concat xss) = xss"
  using assms by (induction xss) (auto simp: chunks_append)

lemma chunks_sizes:
  "0 < n \<Longrightarrow> c \<in> set (chunks n xs) \<Longrightarrow> c \<noteq> [] \<and> length c \<le> n"
proof (induction n xs rule: chunks.induct)
  case (1 n xs)
  then show ?case
    by (subst (asm) chunks.simps) (auto split: if_splits)
qed

section \<open>Text\<close>

text \<open>The numeric value of a byte of text.\<close>

abbreviation code :: "char \<Rightarrow> nat" where
  "code c \<equiv> of_char c"

definition as_bytes :: "str \<Rightarrow> bytes" where
  "as_bytes s = map of_char s"

definition of_bytes :: "bytes \<Rightarrow> str" where
  "of_bytes bs = map (\<lambda>b. char_of (unat b)) bs"

lemma code_bound [simp]: "code c < 256"
  by simp

lemma code_eq_iff [simp]: "code c = code d \<longleftrightarrow> c = d"
  by (metis char_of_char)

text \<open>A Rust \<open>char\<close> is represented by its UTF-8 bytes: a lead byte and continuation bytes.\<close>

definition is_continuation :: "char \<Rightarrow> bool" where
  "is_continuation c \<longleftrightarrow> 128 \<le> code c \<and> code c < 192"

function chars :: "str \<Rightarrow> str list" where
  "chars [] = []"
| "chars (c # cs) = (c # takeWhile is_continuation cs) # chars (dropWhile is_continuation cs)"
  by pat_completeness auto
termination
  by (relation "measure length") (auto simp: length_dropWhile_le le_imp_less_Suc)

lemma concat_chars [simp]: "concat (chars s) = s"
  by (induction s rule: chars.induct) auto

lemma chars_nonempty: "ch \<in> set (chars s) \<Longrightarrow> ch \<noteq> []"
  by (induction s rule: chars.induct) auto

text \<open>One well-formed UTF-8 character (no overlong form, no surrogate, at most U+10FFFF).\<close>

fun utf8_char :: "str \<Rightarrow> bool" where
  "utf8_char [a] = (code a < 0x80)"
| "utf8_char [a, b] = (0xC2 \<le> code a \<and> code a \<le> 0xDF \<and> is_continuation b)"
| "utf8_char [a, b, c] =
     (is_continuation b \<and> is_continuation c \<and>
      (code a = 0xE0 \<and> 0xA0 \<le> code b \<or>
       0xE1 \<le> code a \<and> code a \<le> 0xEC \<or>
       code a = 0xED \<and> code b \<le> 0x9F \<or>
       0xEE \<le> code a \<and> code a \<le> 0xEF))"
| "utf8_char [a, b, c, d] =
     (is_continuation b \<and> is_continuation c \<and> is_continuation d \<and>
      (code a = 0xF0 \<and> 0x90 \<le> code b \<or>
       0xF1 \<le> code a \<and> code a \<le> 0xF3 \<or>
       code a = 0xF4 \<and> code b \<le> 0x8F))"
| "utf8_char _ = False"

definition utf8_valid :: "str \<Rightarrow> bool" where
  "utf8_valid s \<longleftrightarrow> list_all utf8_char (chars s)"

text \<open>\<open>std::str::from_utf8\<close> and \<open>String::from_utf8\<close>.\<close>

definition from_utf8 :: "bytes \<Rightarrow> str option" where
  "from_utf8 bs = (let s = of_bytes bs in if utf8_valid s then Some s else None)"

lemma unat_of_char [simp]: "unat (of_char c :: byte) = code c"
proof -
  have "unat (of_char c :: byte) = unat (of_nat (code c) :: byte)"
    by (simp add: of_nat_of_char)
  also have "\<dots> = code c"
    by (simp add: unat_of_nat)
  finally show ?thesis .
qed

lemma unat_u8_less: "unat (b :: u8) < 256"
  using unsigned_less [of b] by simp

lemma of_char_of_unat [simp]: "of_char (char_of (unat b)) = (b :: byte)"
proof -
  have "unat b < 2 ^ LENGTH(8)" by (rule unsigned_less)
  then show ?thesis by (simp add: word_unat_eq_iff)
qed

lemma of_bytes_as_bytes [simp]: "of_bytes (as_bytes s) = s"
  by (simp add: of_bytes_def as_bytes_def o_def)

lemma as_bytes_of_bytes [simp]: "as_bytes (of_bytes bs) = bs"
  by (simp add: of_bytes_def as_bytes_def o_def)

lemma length_as_bytes [simp]: "length (as_bytes s) = length s"
  by (simp add: as_bytes_def)

lemma as_bytes_append [simp]: "as_bytes (s @ t) = as_bytes s @ as_bytes t"
  by (simp add: as_bytes_def)

lemma as_bytes_inj [simp]: "as_bytes s = as_bytes t \<longleftrightarrow> s = t"
  by (metis of_bytes_as_bytes)

lemma from_utf8_as_bytes [simp, codec_simps]:
  "utf8_valid s \<Longrightarrow> from_utf8 (as_bytes s) = Some s"
  by (simp add: from_utf8_def)

lemma from_utf8_Some: "from_utf8 bs = Some s \<longleftrightarrow> utf8_valid s \<and> bs = as_bytes s"
  by (auto simp: from_utf8_def Let_def)

text \<open>Characters of a concatenation, and validity of one.\<close>

definition starts_char :: "str \<Rightarrow> bool" where
  "starts_char s \<longleftrightarrow> s = [] \<or> \<not> is_continuation (hd s)"

lemma takeWhile_starts_char:
  "starts_char t \<Longrightarrow> takeWhile is_continuation (s @ t) = takeWhile is_continuation s"
  by (induction s) (auto simp: starts_char_def takeWhile_eq_Nil_iff)

lemma dropWhile_starts_char:
  "starts_char t \<Longrightarrow> dropWhile is_continuation (s @ t) = dropWhile is_continuation s @ t"
  by (induction s) (auto simp: starts_char_def dropWhile_eq_self_iff)

lemma chars_append: "starts_char t \<Longrightarrow> chars (s @ t) = chars s @ chars t"
  by (induction s rule: chars.induct) (auto simp: takeWhile_starts_char dropWhile_starts_char)

lemma utf8_char_lead: "utf8_char ch \<Longrightarrow> ch \<noteq> [] \<and> \<not> is_continuation (hd ch)"
  by (induction ch rule: utf8_char.induct) (auto simp: is_continuation_def)

lemma utf8_char_tail: "utf8_char (c # cs) \<Longrightarrow> list_all is_continuation cs"
  by (induction "c # cs" rule: utf8_char.induct) auto

lemma utf8_char_ascii: "utf8_char (c # cs) \<Longrightarrow> code c < 128 \<Longrightarrow> cs = []"
  by (induction "c # cs" rule: utf8_char.induct) auto

lemma utf8_valid_Nil [simp]: "utf8_valid []"
  by (simp add: utf8_valid_def)

lemma utf8_valid_starts_char: "utf8_valid s \<Longrightarrow> starts_char s"
  by (cases s) (auto simp: utf8_valid_def starts_char_def dest: utf8_char_lead)

lemma utf8_valid_append [simp]:
  "utf8_valid s \<Longrightarrow> utf8_valid t \<Longrightarrow> utf8_valid (s @ t)"
  by (simp add: utf8_valid_def chars_append utf8_valid_starts_char [unfolded utf8_valid_def])

lemma chars_single: "utf8_char ch \<Longrightarrow> chars ch = [ch]"
proof (cases ch)
  case Nil
  assume "utf8_char ch"
  with Nil show ?thesis by simp
next
  case (Cons c cs)
  assume "utf8_char ch"
  with Cons have "list_all is_continuation cs"
    by (simp add: utf8_char_tail)
  with Cons show ?thesis
    by (auto simp: list_all_iff takeWhile_eq_all_conv [THEN iffD2]
        dropWhile_eq_Nil_conv [THEN iffD2])
qed

lemma utf8_valid_char: "utf8_char ch \<Longrightarrow> utf8_valid ch"
  by (simp add: utf8_valid_def chars_single)

text \<open>Induction over valid text, one character at a time.\<close>

lemma utf8_induct [consumes 1, case_names Nil Char]:
  assumes "utf8_valid s"
    and "P []"
    and "\<And>ch s. utf8_char ch \<Longrightarrow> utf8_valid s \<Longrightarrow> P s \<Longrightarrow> P (ch @ s)"
  shows "P s"
  using assms(1)
proof (induction s rule: chars.induct)
  case 1
  show ?case by (rule assms(2))
next
  case (2 c cs)
  let ?ch = "c # takeWhile is_continuation cs" and ?r = "dropWhile is_continuation cs"
  from 2 have "utf8_char ?ch" "utf8_valid ?r"
    by (auto simp: utf8_valid_def)
  with 2 have "P (?ch @ ?r)"
    by (intro assms(3)) auto
  then show ?case by simp
qed

lemma chars_ascii: "(\<And>c. c \<in> set s \<Longrightarrow> code c < 128) \<Longrightarrow> chars s = map (\<lambda>c. [c]) s"
proof (induction s)
  case Nil
  show ?case by simp
next
  case (Cons c s)
  from Cons.prems have "\<not> is_continuation x" if "x \<in> set s" for x
    using that by (fastforce simp: is_continuation_def)
  then have "takeWhile is_continuation s = []" "dropWhile is_continuation s = s"
    by (cases s; simp)+
  with Cons show ?case by simp
qed

lemma utf8_valid_ascii: "(\<And>c. c \<in> set s \<Longrightarrow> code c < 128) \<Longrightarrow> utf8_valid s"
  by (simp add: utf8_valid_def chars_ascii list_all_iff)

section \<open>Operations on text\<close>

definition is_ascii_digit :: "char \<Rightarrow> bool" where
  "is_ascii_digit c \<longleftrightarrow> 48 \<le> code c \<and> code c \<le> 57"

definition is_ascii_lowercase :: "char \<Rightarrow> bool" where
  "is_ascii_lowercase c \<longleftrightarrow> 97 \<le> code c \<and> code c \<le> 122"

definition is_ascii_uppercase :: "char \<Rightarrow> bool" where
  "is_ascii_uppercase c \<longleftrightarrow> 65 \<le> code c \<and> code c \<le> 90"

definition is_ascii_alphanumeric :: "char \<Rightarrow> bool" where
  "is_ascii_alphanumeric c \<longleftrightarrow>
     is_ascii_digit c \<or> is_ascii_lowercase c \<or> is_ascii_uppercase c"

definition to_ascii_lowercase :: "str \<Rightarrow> str" where
  "to_ascii_lowercase s = map (\<lambda>c. if is_ascii_uppercase c then char_of (code c + 32) else c) s"

text \<open>
  Unicode \<open>White_Space\<close>, on a character given by its UTF-8 bytes: U+0009 to U+000D, U+0020,
  U+0085, U+00A0, U+1680, U+2000 to U+200A, U+2028, U+2029, U+202F, U+205F, U+3000.
\<close>

definition is_whitespace :: "str \<Rightarrow> bool" where
  "is_whitespace ch = (case map code ch of
       [a] \<Rightarrow> 9 \<le> a \<and> a \<le> 13 \<or> a = 32
     | [a, b] \<Rightarrow> a = 0xC2 \<and> (b = 0x85 \<or> b = 0xA0)
     | [a, b, c] \<Rightarrow>
         a = 0xE1 \<and> b = 0x9A \<and> c = 0x80 \<or>
         a = 0xE2 \<and> b = 0x80 \<and> (0x80 \<le> c \<and> c \<le> 0x8A \<or> c = 0xA8 \<or> c = 0xA9 \<or> c = 0xAF) \<or>
         a = 0xE2 \<and> b = 0x81 \<and> c = 0x9F \<or>
         a = 0xE3 \<and> b = 0x80 \<and> c = 0x80
     | _ \<Rightarrow> False)"

definition trim_start_matches :: "(str \<Rightarrow> bool) \<Rightarrow> str list \<Rightarrow> str list" where
  "trim_start_matches p chs = dropWhile p chs"

definition trim_end_matches :: "(str \<Rightarrow> bool) \<Rightarrow> str list \<Rightarrow> str list" where
  "trim_end_matches p chs = rev (dropWhile p (rev chs))"

definition trim_matches :: "(str \<Rightarrow> bool) \<Rightarrow> str \<Rightarrow> str" where
  "trim_matches p s = concat (trim_end_matches p (trim_start_matches p (chars s)))"

definition trim :: "str \<Rightarrow> str" where
  "trim s = trim_matches is_whitespace s"

lemma trim_matches_id:
  assumes "\<And>c. c \<in> set s \<Longrightarrow> code c < 128" and "s \<noteq> []" and "\<not> p [hd s]" and "\<not> p [last s]"
  shows "trim_matches p s = s"
proof -
  from assms(2-4) have "dropWhile p (map (\<lambda>c. [c]) s) = map (\<lambda>c. [c]) s"
    by (cases s) auto
  moreover from assms(2-4) have "dropWhile p (rev (map (\<lambda>c. [c]) s)) = rev (map (\<lambda>c. [c]) s)"
    by (cases s rule: rev_cases) auto
  moreover have "concat (map (\<lambda>c. [c]) s) = s"
    by (induction s) auto
  ultimately show ?thesis
    by (simp add: trim_matches_def trim_start_matches_def trim_end_matches_def chars_ascii [OF assms(1)])
qed

text \<open>\<open>str::split(c)\<close> and \<open>str::split_once(c)\<close> for an ASCII character \<open>c\<close>.\<close>

fun split_on :: "'a \<Rightarrow> 'a list \<Rightarrow> 'a list list" where
  "split_on c [] = [[]]"
| "split_on c (x # xs) =
     (if x = c then [] # split_on c xs
      else (case split_on c xs of [] \<Rightarrow> [[x]] | y # ys \<Rightarrow> (x # y) # ys))"

fun split_once :: "'a \<Rightarrow> 'a list \<Rightarrow> ('a list \<times> 'a list) option" where
  "split_once c [] = None"
| "split_once c (x # xs) =
     (if x = c then Some ([], xs)
      else map_option (\<lambda>(a, b). (x # a, b)) (split_once c xs))"

fun strip_prefix :: "'a list \<Rightarrow> 'a list \<Rightarrow> 'a list option" where
  "strip_prefix [] s = Some s"
| "strip_prefix (p # ps) [] = None"
| "strip_prefix (p # ps) (x # xs) = (if p = x then strip_prefix ps xs else None)"

lemma split_on_nonempty [simp]: "split_on c xs \<noteq> []"
  by (cases xs) (auto split: list.splits)

lemma split_on_plain: "c \<notin> set xs \<Longrightarrow> split_on c xs = [xs]"
  by (induction xs) auto

lemma split_on_append:
  "c \<notin> set xs \<Longrightarrow> split_on c (xs @ c # ys) = xs # split_on c ys"
  by (induction xs) auto

lemma strip_prefix_append [simp]: "strip_prefix p (p @ s) = Some s"
  by (induction p) auto

lemma strip_prefix_Some: "strip_prefix p s = Some r \<longleftrightarrow> s = p @ r"
  by (induction p s rule: strip_prefix.induct) auto

lemma split_once_Some:
  "split_once c s = Some (a, b) \<longleftrightarrow> s = a @ c # b \<and> c \<notin> set a"
proof (induction s arbitrary: a)
  case Nil
  then show ?case by auto
next
  case (Cons x s)
  show ?case
    by (cases a) (auto simp: Cons.IH)
qed

lemma split_once_None: "split_once c s = None \<longleftrightarrow> c \<notin> set s"
  by (induction s) auto

section \<open>Decimal numbers\<close>

definition digit_char :: "nat \<Rightarrow> char" where
  "digit_char d = char_of (48 + d)"

fun show_nat :: "nat \<Rightarrow> str" where
  "show_nat n = (if n < 10 then [digit_char n] else show_nat (n div 10) @ [digit_char (n mod 10)])"

declare show_nat.simps [simp del]

definition show_int :: "int \<Rightarrow> str" where
  "show_int i = (if i < 0 then CHR ''-'' # show_nat (nat (- i)) else show_nat (nat i))"

text \<open>The value of a run of ASCII digits, \<open>None\<close> at the first other byte.\<close>

fun dec_digits :: "nat \<Rightarrow> str \<Rightarrow> nat option" where
  "dec_digits acc [] = Some acc"
| "dec_digits acc (c # cs) =
     (if is_ascii_digit c then dec_digits (acc * 10 + (code c - 48)) cs else None)"

text \<open>
  \<open>str::parse\<close> for an unsigned type with largest value \<open>m\<close>: a leading \<open>+\<close> is accepted, an
  empty run of digits and a value above \<open>m\<close> are refused.
\<close>

definition parse_unsigned :: "nat \<Rightarrow> str \<Rightarrow> nat option" where
  "parse_unsigned m s =
     (let ds = (case s of c # cs \<Rightarrow> if c = CHR ''+'' then cs else s | [] \<Rightarrow> [])
      in if ds = [] then None
         else Option.bind (dec_digits 0 ds) (\<lambda>n. if n \<le> m then Some n else None))"

text \<open>\<open>str::parse::<i64>\<close>.\<close>

definition i64_min :: int where "i64_min = - (2 ^ 63)"
definition i64_max :: int where "i64_max = 2 ^ 63 - 1"

definition parse_i64 :: "str \<Rightarrow> int option" where
  "parse_i64 s =
     (let (negative, ds) = (case s of
          c # cs \<Rightarrow> if c = CHR ''-'' then (True, cs)
                     else if c = CHR ''+'' then (False, cs) else (False, s)
        | [] \<Rightarrow> (False, []))
      in if ds = [] then None
         else Option.bind (dec_digits 0 ds) (\<lambda>n.
           let i = (if negative then - int n else int n)
           in if i64_min \<le> i \<and> i \<le> i64_max then Some i else None))"

lemma code_digit_char [simp]: "d < 10 \<Longrightarrow> code (digit_char d) = 48 + d"
  by (simp add: digit_char_def)

lemma is_ascii_digit_digit_char [simp]: "d < 10 \<Longrightarrow> is_ascii_digit (digit_char d)"
  by (simp add: is_ascii_digit_def)

lemma digit_char_inj: "d < 10 \<Longrightarrow> e < 10 \<Longrightarrow> digit_char d = digit_char e \<longleftrightarrow> d = e"
  by (metis add_left_cancel code_digit_char)

lemma digit_char_of_digit:
  "is_ascii_digit c \<Longrightarrow> digit_char (code c - 48) = c"
  by (simp add: is_ascii_digit_def digit_char_def)

lemma show_nat_nonempty [simp]: "show_nat n \<noteq> []"
  by (subst show_nat.simps) simp

lemma dec_digits_append:
  "dec_digits acc (s @ t) = Option.bind (dec_digits acc s) (\<lambda>n. dec_digits n t)"
  by (induction acc s rule: dec_digits.induct) auto

lemma show_nat_digits: "c \<in> set (show_nat n) \<Longrightarrow> is_ascii_digit c"
proof (induction n rule: show_nat.induct)
  case (1 n)
  then show ?case
    by (subst (asm) show_nat.simps) (auto split: if_splits)
qed

lemma dec_digits_show_nat [simp, codec_simps]: "dec_digits 0 (show_nat n) = Some n"
proof (induction n rule: show_nat.induct)
  case (1 n)
  show ?case
    by (subst show_nat.simps) (use 1 in \<open>auto simp: dec_digits_append\<close>)
qed

lemma show_nat_inj [simp]: "show_nat m = show_nat n \<longleftrightarrow> m = n"
  by (metis dec_digits_show_nat option.inject)

lemma show_nat_no_sign:
  "show_nat n = c # cs \<Longrightarrow> c \<noteq> CHR ''+'' \<and> c \<noteq> CHR ''-''"
  using show_nat_digits [of c n] by (auto simp: is_ascii_digit_def)

lemma parse_unsigned_show_nat [simp, codec_simps]:
  assumes "n \<le> m"
  shows "parse_unsigned m (show_nat n) = Some n"
proof -
  from show_nat_no_sign [of n] obtain c cs where
    "show_nat n = c # cs" "c \<noteq> CHR ''+''"
    by (cases "show_nat n") auto
  moreover have "dec_digits 0 (show_nat n) = Some n"
    by simp
  ultimately show ?thesis
    using assms by (simp add: parse_unsigned_def)
qed

lemma parse_i64_show_int [simp, codec_simps]:
  assumes "i64_min \<le> i" and "i \<le> i64_max"
  shows "parse_i64 (show_int i) = Some i"
proof (cases "i < 0")
  case True
  with assms show ?thesis
    by (simp add: parse_i64_def show_int_def)
next
  case False
  from show_nat_no_sign [of "nat i"] obtain c cs where
    "show_nat (nat i) = c # cs" "c \<noteq> CHR ''+''" "c \<noteq> CHR ''-''"
    by (cases "show_nat (nat i)") auto
  moreover have "dec_digits 0 (show_nat (nat i)) = Some (nat i)"
    by simp
  ultimately show ?thesis
    using assms False by (simp add: parse_i64_def show_int_def)
qed

end
