(* ===== verification/Codec.thy ===== *)
theory Codec
  imports LS_Prelude
begin

text \<open>
  The contract of an encoder and its decoder, as the components that write text or bytes and
  read them back rely on it: base64, hexadecimal, timestamps, printed shares, JSON, events and
  the barrier record. A codec reads back whatever it wrote; a canonical one also has a single
  spelling per value.
\<close>

locale codec =
  fixes enc :: "'a \<Rightarrow> 'b"
    and dec :: "'b \<Rightarrow> 'a option"
    and ok :: "'a \<Rightarrow> bool"
  assumes dec_enc: "ok x \<Longrightarrow> dec (enc x) = Some x"
begin

lemma enc_inj: "ok x \<Longrightarrow> ok y \<Longrightarrow> enc x = enc y \<Longrightarrow> x = y"
  by (metis dec_enc option.inject)

lemma dec_all: "(\<And>x. x \<in> set xs \<Longrightarrow> ok x) \<Longrightarrow> traverse_opt dec (map enc xs) = Some xs"
  using traverse_opt_map_Some [of xs dec enc "\<lambda>x. x"] by (simp add: dec_enc)

end

locale canonical_codec = codec +
  assumes dec_canonical: "dec y = Some x \<Longrightarrow> ok x \<and> enc x = y"
begin

lemma dec_iff: "dec y = Some x \<longleftrightarrow> ok x \<and> y = enc x"
  using dec_canonical dec_enc by blast

lemma one_spelling: "dec y = Some x \<Longrightarrow> dec z = Some x \<Longrightarrow> y = z"
  using dec_canonical by blast

end

end
