(* ===== verification/Float64.thy ===== *)
theory Float64
  imports LS_Prelude
begin

text \<open>
  The \<open>f64\<close> of Rust as far as the JSON crate uses it: \<open>str::parse::<f64>\<close>, \<open>is_finite\<close> and
  \<open>Display\<close>. A finite float is a sign, a significand and a binary exponent; parsing rounds the
  decimal to the nearest float, ties to even, and overflows to an infinity; \<open>Display\<close> writes the
  shortest decimal that reads back as the same float, without an exponent.
\<close>

section \<open>Floats\<close>

datatype f64 =
    Finite bool nat int  \<comment> \<open>negative?, significand, exponent of two\<close>
  | Infinite bool
  | NaN

definition is_finite :: "f64 \<Rightarrow> bool" where
  "is_finite x = (case x of Finite _ _ _ \<Rightarrow> True | _ \<Rightarrow> False)"

fun bit_len :: "nat \<Rightarrow> nat" where
  "bit_len n = (if n = 0 then 0 else Suc (bit_len (n div 2)))"

declare bit_len.simps [simp del]

text \<open>The quotient \<open>num / (den * 2 ^ e)\<close> as a fraction.\<close>

definition scaled_by_two :: "nat \<Rightarrow> nat \<Rightarrow> int \<Rightarrow> nat \<times> nat" where
  "scaled_by_two num den e =
     (if e \<ge> 0 then (num, den * 2 ^ nat e) else (num * 2 ^ nat (- e), den))"

definition round_half_even :: "nat \<Rightarrow> nat \<Rightarrow> nat" where
  "round_half_even num den =
     (let q = num div den; r = num mod den
      in if 2 * r > den \<or> 2 * r = den \<and> odd q then Suc q else q)"

text \<open>The float nearest to the positive fraction \<open>num / den\<close>.\<close>

definition nearest_f64 :: "bool \<Rightarrow> nat \<Rightarrow> nat \<Rightarrow> f64" where
  "nearest_f64 neg num den =
     (if num = 0 then Finite neg 0 (- 1074)
      else
        (let e0 = int (bit_len num) - int (bit_len den) - 53;
             (n0, d0) = scaled_by_two num den e0;
             e1 = max (- 1074) (if n0 \<ge> d0 * 2 ^ 53 then e0 + 1 else e0);
             (n, d) = scaled_by_two num den e1;
             m = round_half_even n d;
             (m', e') = (if m = 2 ^ 53 then (2 ^ 52, e1 + 1) else (m, e1))
         in if e' > 971 then Infinite neg else Finite neg m' e'))"

text \<open>The nearest float to \<open>digits * 10 ^ e\<close>.\<close>

definition f64_of_decimal :: "bool \<Rightarrow> nat \<Rightarrow> int \<Rightarrow> f64" where
  "f64_of_decimal neg digits e =
     (if e \<ge> 0 then nearest_f64 neg (digits * 10 ^ nat e) 1
      else nearest_f64 neg digits (10 ^ nat (- e)))"

section \<open>Reading\<close>

text \<open>
  A decimal literal: sign, digits, optional fraction, optional exponent. The words \<open>inf\<close>, \<open>nan\<close>
  and the like that Rust also accepts never reach this from the JSON grammar.
\<close>

definition split_exponent :: "str \<Rightarrow> str \<times> str option" where
  "split_exponent s =
     (let m = takeWhile (\<lambda>c. c \<noteq> CHR ''e'' \<and> c \<noteq> CHR ''E'') s
      in (m, case drop (length m) s of [] \<Rightarrow> None | _ # e \<Rightarrow> Some e))"

definition parse_exponent :: "str \<Rightarrow> int option" where
  "parse_exponent s =
     (let (neg, ds) = (case s of
          c # cs \<Rightarrow> if c = CHR ''-'' then (True, cs) else if c = CHR ''+'' then (False, cs) else (False, s)
        | [] \<Rightarrow> (False, []))
      in if ds = [] then None
         else map_option (\<lambda>n. if neg then - int n else int n) (dec_digits 0 ds))"

definition parse_f64 :: "str \<Rightarrow> f64 option" where
  "parse_f64 s =
     (let (neg, body) = (case s of
          c # cs \<Rightarrow> if c = CHR ''-'' then (True, cs) else if c = CHR ''+'' then (False, cs) else (False, s)
        | [] \<Rightarrow> (False, []));
          (mant, ex) = split_exponent body;
          (whole, frac) = (case split_once (CHR ''.'') mant of None \<Rightarrow> (mant, []) | Some (a, b) \<Rightarrow> (a, b))
      in if whole @ frac = [] then None
         else Option.bind (dec_digits 0 (whole @ frac)) (\<lambda>digits.
              map_option (\<lambda>e. f64_of_decimal neg digits (e - int (length frac)))
                (case ex of None \<Rightarrow> Some 0 | Some x \<Rightarrow> parse_exponent x)))"

section \<open>Writing\<close>

text \<open>The number of decimal digits before the point of \<open>num / den\<close> (possibly not positive).\<close>

fun digits_of :: "nat \<Rightarrow> nat" where
  "digits_of n = (if n < 10 then 1 else Suc (digits_of (n div 10)))"

declare digits_of.simps [simp del]

definition point_position :: "nat \<Rightarrow> nat \<Rightarrow> int" where
  "point_position num den =
     (if num \<ge> den then int (digits_of (num div den))
      else 1 - int (digits_of ((den - 1) div num)))"

text \<open>
  For a number of digits, the neighbouring decimals below and above the value that read back as
  the same float; of two, the closer one.
\<close>

definition decimal_with :: "nat \<Rightarrow> f64 \<Rightarrow> nat \<Rightarrow> nat \<Rightarrow> (nat \<times> int) option" where
  "decimal_with k x num den =
     (let p = point_position num den - int k;
          (n, d) = (if p \<ge> 0 then (num, den * 10 ^ nat p) else (num * 10 ^ nat (- p), den));
          lo = n div d; hi = Suc lo;
          lo_ok = (f64_of_decimal False lo p = x); hi_ok = (f64_of_decimal False hi p = x)
      in if lo_ok \<and> (\<not> hi_ok \<or> 2 * (n mod d) \<le> d) then Some (lo, p)
         else if hi_ok then Some (hi, p) else None)"

definition shortest_decimal :: "f64 \<Rightarrow> nat \<Rightarrow> nat \<Rightarrow> nat \<times> int" where
  "shortest_decimal x num den =
     (case List.find (\<lambda>k. decimal_with k x num den \<noteq> None) [1..<18] of
        Some k \<Rightarrow> the (decimal_with k x num den)
      | None \<Rightarrow> (num div den, 0))"

fun strip_zeros :: "nat \<Rightarrow> int \<Rightarrow> nat \<times> int" where
  "strip_zeros n e = (if n \<noteq> 0 \<and> n mod 10 = 0 then strip_zeros (n div 10) (e + 1) else (n, e))"

declare strip_zeros.simps [simp del]

definition plain_decimal :: "nat \<Rightarrow> int \<Rightarrow> str" where
  "plain_decimal digits e =
     (let ds = show_nat digits in
      if e \<ge> 0 then ds @ replicate (nat e) (CHR ''0'')
      else let k = nat (- e) in
        if length ds > k then take (length ds - k) ds @ ''.'' @ drop (length ds - k) ds
        else ''0.'' @ replicate (k - length ds) (CHR ''0'') @ ds)"

definition show_f64 :: "f64 \<Rightarrow> str" where
  "show_f64 x = (case x of
       NaN \<Rightarrow> ''NaN''
     | Infinite neg \<Rightarrow> (if neg then ''-inf'' else ''inf'')
     | Finite neg m e \<Rightarrow>
         (if neg then ''-'' else []) @
         (if m = 0 then ''0''
          else let (num, den) = (if e \<ge> 0 then (m * 2 ^ nat e, 1) else (m, 2 ^ nat (- e)));
                   (digits, p) = shortest_decimal (Finite False m e) num den;
                   (digits', p') = strip_zeros digits p
               in plain_decimal digits' p'))"

end
