(* ===== verification/Json.thy ===== *)
theory Json
  imports Codec Float64
begin

text \<open>
  \<open>ls-json\<close>: the value type with its accessors and renderer (\<open>value.rs\<close>) and the strict
  recursive-descent parser (\<open>parser.rs\<close>). The parser's state holds the bytes from the current
  position on (\<open>bytes[position..]\<close>), the position itself, which only errors report, and the
  nesting depth. Its mutually recursive functions terminate because a value always consumes input;
  no fuel is involved.
\<close>

section \<open>Values\<close>

datatype json =
    JNull
  | JBool bool
  | JInt int
  | JFloat f64
  | JString str
  | JArray "json list"
  | JObject "(str \<times> json) list"

definition json_object :: "(str \<times> json) list \<Rightarrow> json" where
  "json_object fs = JObject fs"

definition json_get :: "str \<Rightarrow> json \<Rightarrow> json option" where
  "json_get name v = (case v of JObject fs \<Rightarrow> map_option snd (List.find (\<lambda>(f, _). f = name) fs) | _ \<Rightarrow> None)"

definition as_str :: "json \<Rightarrow> str option" where
  "as_str v = (case v of JString s \<Rightarrow> Some s | _ \<Rightarrow> None)"

definition as_i64 :: "json \<Rightarrow> int option" where
  "as_i64 v = (case v of JInt i \<Rightarrow> Some i | _ \<Rightarrow> None)"

definition as_bool :: "json \<Rightarrow> bool option" where
  "as_bool v = (case v of JBool b \<Rightarrow> Some b | _ \<Rightarrow> None)"

definition as_array :: "json \<Rightarrow> json list option" where
  "as_array v = (case v of JArray xs \<Rightarrow> Some xs | _ \<Rightarrow> None)"

text \<open>\<open>From<usize>\<close>\<close>

definition json_of_usize :: "nat \<Rightarrow> json" where
  "json_of_usize n = JInt (if int n \<le> i64_max then int n else i64_max)"

section \<open>Rendering\<close>

definition hex4_digits :: str where
  "hex4_digits = ''0123456789abcdef''"

text \<open>\<open>{:04x}\<close> of a control character.\<close>

definition show_04x :: "nat \<Rightarrow> str" where
  "show_04x n = map (\<lambda>i. hex4_digits ! (n div 16 ^ i mod 16)) [3, 2, 1, 0]"

text \<open>One character of a string, given by its UTF-8 bytes.\<close>

definition write_char :: "str \<Rightarrow> str" where
  "write_char ch = (case ch of
       [c] \<Rightarrow>
         (if c = CHR 0x22 then [CHR 0x5C, CHR 0x22]
          else if c = CHR 0x5C then [CHR 0x5C, CHR 0x5C]
          else if c = CHR 0x0A then [CHR 0x5C, CHR ''n'']
          else if c = CHR 0x0D then [CHR 0x5C, CHR ''r'']
          else if c = CHR 0x09 then [CHR 0x5C, CHR ''t'']
          else if c = CHR 0x08 then [CHR 0x5C, CHR ''b'']
          else if c = CHR 0x0C then [CHR 0x5C, CHR ''f'']
          else if code c < 0x20 then [CHR 0x5C, CHR ''u''] @ show_04x (code c)
          else [c])
     | _ \<Rightarrow> ch)"

definition write_string :: "str \<Rightarrow> str" where
  "write_string s = CHR 0x22 # concat (map write_char (chars s)) @ [CHR 0x22]"

definition separated :: "str list \<Rightarrow> str" where
  "separated xs = (case xs of [] \<Rightarrow> [] | y # ys \<Rightarrow> y @ concat (map (\<lambda>z. CHR '','' # z) ys))"

fun render :: "json \<Rightarrow> str" where
  "render JNull = ''null''"
| "render (JBool b) = (if b then ''true'' else ''false'')"
| "render (JInt i) = show_int i"
| "render (JFloat x) = (if \<not> is_finite x then ''null'' else show_f64 x)"
| "render (JString s) = write_string s"
| "render (JArray xs) = ''['' @ separated (map render xs) @ '']''"
| "render (JObject fs) =
     CHR ''{'' # separated (map (\<lambda>(n, v). write_string n @ '':'' @ render v) fs) @ [CHR ''}'']"

section \<open>The parser\<close>

datatype json_error =
    UnexpectedEnd
  | Unexpected nat
  | TrailingContent
  | DuplicateKey str
  | TooDeep

definition max_depth :: nat where "max_depth = 64"

record jparser =
  jp_rest :: str
  jp_position :: nat
  jp_depth :: nat

type_synonym 'a jresult = "json_error + ('a \<times> jparser)"

definition peek :: "jparser \<Rightarrow> char option" where
  "peek p = (case jp_rest p of [] \<Rightarrow> None | c # _ \<Rightarrow> Some c)"

text \<open>\<open>position += n\<close>\<close>

definition advance :: "nat \<Rightarrow> jparser \<Rightarrow> jparser" where
  "advance n p = p\<lparr>jp_rest := drop n (jp_rest p), jp_position := jp_position p + n\<rparr>"

definition bump :: "jparser \<Rightarrow> char option \<times> jparser" where
  "bump p = (case peek p of None \<Rightarrow> (None, p) | Some c \<Rightarrow> (Some c, advance 1 p))"

definition expect :: "char \<Rightarrow> jparser \<Rightarrow> unit jresult" where
  "expect c p = (case bump p of
       (Some found, p') \<Rightarrow> if found = c then Inr ((), p') else Inl (Unexpected (jp_position p' - 1))
     | (None, _) \<Rightarrow> Inl UnexpectedEnd)"

definition is_json_space :: "char \<Rightarrow> bool" where
  "is_json_space c \<longleftrightarrow> c = CHR '' '' \<or> c = CHR 0x09 \<or> c = CHR 0x0A \<or> c = CHR 0x0D"

definition skip_while :: "(char \<Rightarrow> bool) \<Rightarrow> jparser \<Rightarrow> jparser" where
  "skip_while f p = advance (length (takeWhile f (jp_rest p))) p"

definition skip_whitespace :: "jparser \<Rightarrow> jparser" where
  "skip_whitespace p = skip_while is_json_space p"

definition json_literal :: "str \<Rightarrow> json \<Rightarrow> jparser \<Rightarrow> json jresult" where
  "json_literal word v p =
     (if strip_prefix word (jp_rest p) \<noteq> None then Inr (v, advance (length word) p)
      else Inl (Unexpected (jp_position p)))"

definition hex4_digit :: "char \<Rightarrow> nat option" where
  "hex4_digit c =
     (if 48 \<le> code c \<and> code c \<le> 57 then Some (code c - 48)
      else if 97 \<le> code c \<and> code c \<le> 102 then Some (code c - 97 + 10)
      else if 65 \<le> code c \<and> code c \<le> 70 then Some (code c - 65 + 10)
      else None)"

primrec hex4_loop :: "nat \<Rightarrow> nat \<Rightarrow> nat \<Rightarrow> jparser \<Rightarrow> nat jresult" where
  "hex4_loop 0 start v p = Inr (v, p)"
| "hex4_loop (Suc n) start v p = (case bump p of
       (None, _) \<Rightarrow> Inl UnexpectedEnd
     | (Some c, p') \<Rightarrow>
         (case hex4_digit c of
            None \<Rightarrow> Inl (Unexpected start)
          | Some d \<Rightarrow> hex4_loop n start (v * 16 + d) p'))"

definition hex4 :: "jparser \<Rightarrow> nat jresult" where
  "hex4 p = hex4_loop 4 (jp_position p) 0 p"

text \<open>\<open>char::from_u32\<close>, giving the character's UTF-8 bytes.\<close>

definition char_from_u32 :: "nat \<Rightarrow> str option" where
  "char_from_u32 n =
     (if n < 0x80 then Some [char_of n]
      else if n < 0x800 then Some [char_of (0xC0 + n div 64), char_of (0x80 + n mod 64)]
      else if 0xD800 \<le> n \<and> n \<le> 0xDFFF then None
      else if n < 0x10000 then
        Some [char_of (0xE0 + n div 4096), char_of (0x80 + n div 64 mod 64), char_of (0x80 + n mod 64)]
      else if n \<le> 0x10FFFF then
        Some [char_of (0xF0 + n div 262144), char_of (0x80 + n div 4096 mod 64),
              char_of (0x80 + n div 64 mod 64), char_of (0x80 + n mod 64)]
      else None)"

text \<open>
  \<open>unicode_escape\<close>. The test for the two bytes of the second escape reads them one after the other
  and stops at the first that is wrong; the state it leaves is not used on the error path.
\<close>

definition unicode_escape :: "jparser \<Rightarrow> str jresult" where
  "unicode_escape p =
     and_then (hex4 p) (\<lambda>(first, p1).
       if 0xDC00 \<le> first \<and> first \<le> 0xDFFF then Inl (Unexpected (jp_position p1))
       else if 0xD800 \<le> first \<and> first \<le> 0xDBFF then
         (let start = jp_position p1; (b1, p2) = bump p1 in
          if b1 \<noteq> Some (CHR 0x5C) then Inl (Unexpected start)
          else let (b2, p3) = bump p2 in
          if b2 \<noteq> Some (CHR ''u'') then Inl (Unexpected start)
          else and_then (hex4 p3) (\<lambda>(second, p4).
            if \<not> (0xDC00 \<le> second \<and> second \<le> 0xDFFF) then Inl (Unexpected start)
            else let combined = 0x10000 + (first - 0xD800) * 1024 + (second - 0xDC00)
              in and_then (ok_or (Unexpected start) (char_from_u32 combined)) (\<lambda>ch. Inr (ch, p4))))
       else and_then (ok_or (Unexpected (jp_position p1)) (char_from_u32 first)) (\<lambda>ch. Inr (ch, p1)))"

definition escape :: "jparser \<Rightarrow> str jresult" where
  "escape p = (case bump p of
       (None, _) \<Rightarrow> Inl UnexpectedEnd
     | (Some c, p') \<Rightarrow>
         if c = CHR 0x22 then Inr ([CHR 0x22], p')
         else if c = CHR 0x5C then Inr ([CHR 0x5C], p')
         else if c = CHR ''/'' then Inr (''/'', p')
         else if c = CHR ''b'' then Inr ([CHR 0x08], p')
         else if c = CHR ''f'' then Inr ([CHR 0x0C], p')
         else if c = CHR ''n'' then Inr ([CHR 0x0A], p')
         else if c = CHR ''r'' then Inr ([CHR 0x0D], p')
         else if c = CHR ''t'' then Inr ([CHR 0x09], p')
         else if c = CHR ''u'' then unicode_escape p'
         else Inl (Unexpected (jp_position p)))"

lemma and_then_cong [fundef_cong]:
  "r = s \<Longrightarrow> (\<And>x. s = Inr x \<Longrightarrow> f x = g x) \<Longrightarrow> and_then r f = and_then s g"
  by (cases s) auto

text \<open>How much input is left, the measure of everything below.\<close>

abbreviation left :: "jparser \<Rightarrow> nat" where
  "left p \<equiv> length (jp_rest p)"

lemma jp_advance [simp]:
  "jp_rest (advance n p) = drop n (jp_rest p)" "jp_position (advance n p) = jp_position p + n"
  "jp_depth (advance n p) = jp_depth p"
  by (simp_all add: advance_def)

lemma bump_Some: "bump p = (Some c, p') \<Longrightarrow> left p' < left p"
  by (cases "jp_rest p") (auto simp: bump_def peek_def)

lemmas bump_Some_sym = bump_Some [OF sym]

lemma bump_None: "bump p = (None, p') \<Longrightarrow> jp_rest p = [] \<and> p' = p"
  by (cases "jp_rest p") (auto simp: bump_def peek_def)

lemma skip_whitespace_left: "left (skip_whitespace p) \<le> left p"
  by (simp add: skip_whitespace_def skip_while_def)

lemma expect_left: "expect c p = Inr (u, p') \<Longrightarrow> left p' < left p"
  by (auto simp: expect_def dest: bump_Some split: prod.splits option.splits if_splits)

lemma hex4_loop_left: "hex4_loop n start v p = Inr (x, p') \<Longrightarrow> left p' \<le> left p"
  by (induction n arbitrary: v p) (auto dest!: bump_Some split: prod.splits option.splits, fastforce)

lemma unicode_escape_left: "unicode_escape p = Inr (ch, p') \<Longrightarrow> left p' \<le> left p"
  unfolding unicode_escape_def hex4_def Let_def
  by (auto split: if_splits prod.splits dest!: hex4_loop_left) (metis (no_types, lifting) bump_Some le_trans less_imp_le)+

lemma escape_left: "escape p = Inr (ch, p') \<Longrightarrow> left p' < left p"
  unfolding escape_def
  by (auto dest!: unicode_escape_left bump_Some split: prod.splits option.splits if_splits)

text \<open>The loop of \<open>string\<close>, after the opening quote.\<close>

function string_loop :: "str \<Rightarrow> jparser \<Rightarrow> str jresult" where
  "string_loop out p =
     (case bump p of
        (None, _) \<Rightarrow> Inl UnexpectedEnd
      | (Some c, p1) \<Rightarrow>
          if c = CHR 0x22 then Inr (out, p1)
          else if c = CHR 0x5C then and_then (escape p1) (\<lambda>(ch, p2). string_loop (out @ ch) p2)
          else if code c < 0x20 then Inl (Unexpected (jp_position p))
          else if code c < 0x80 then string_loop (out @ [c]) p1
          else
            (let tail = takeWhile is_continuation (jp_rest p1)
             in if utf8_valid (c # tail) then string_loop (out @ c # tail) (advance (length tail) p1)
                else Inl (Unexpected (jp_position p))))"
  by pat_completeness auto
termination
  by (relation "measure (\<lambda>(_, p). left p)") (auto dest!: bump_Some_sym escape_left)

declare string_loop.simps [simp del]

definition json_string :: "jparser \<Rightarrow> str jresult" where
  "json_string p = and_then (expect (CHR 0x22) p) (\<lambda>(_, p1). string_loop [] p1)"

lemma string_loop_left: "string_loop out p = Inr (s, p') \<Longrightarrow> left p' < left p"
proof (induction "left p" arbitrary: out p rule: less_induct)
  case less
  from less.prems obtain c p1 where b: "bump p = (Some c, p1)"
    by (subst (asm) string_loop.simps) (auto split: prod.splits option.splits)
  have IH: "string_loop out' q = Inr (s, p') \<Longrightarrow> left q \<le> left p1 \<Longrightarrow> left p' < left p" for out' q
    using less.hyps [of q out'] bump_Some [OF b] by linarith
  from less.prems b show ?case
    by (subst (asm) string_loop.simps)
      (auto split: if_splits simp: Let_def bump_Some dest!: escape_left elim!: IH)
qed

lemma json_string_left: "json_string p = Inr (s, p') \<Longrightarrow> left p' < left p"
  by (auto simp: json_string_def dest!: string_loop_left expect_left)

text \<open>Numbers: the scan of the grammar, then the value of the text scanned.\<close>

definition next_is :: "(char \<Rightarrow> bool) \<Rightarrow> jparser \<Rightarrow> bool" where
  "next_is f p = (case peek p of None \<Rightarrow> False | Some c \<Rightarrow> f c)"

definition number_whole :: "jparser \<Rightarrow> unit jresult" where
  "number_whole p =
     (if next_is (\<lambda>c. c = CHR ''0'') p then Inr ((), advance 1 p)
      else if next_is (\<lambda>c. 49 \<le> code c \<and> code c \<le> 57) p then Inr ((), skip_while is_ascii_digit p)
      else Inl (Unexpected (jp_position p)))"

definition number_fraction :: "jparser \<Rightarrow> bool jresult" where
  "number_fraction p =
     (if next_is (\<lambda>c. c = CHR ''.'') p then
        (let p1 = advance 1 p in
         if \<not> next_is is_ascii_digit p1 then Inl (Unexpected (jp_position p1))
         else Inr (True, skip_while is_ascii_digit p1))
      else Inr (False, p))"

definition number_exponent :: "jparser \<Rightarrow> bool jresult" where
  "number_exponent p =
     (if next_is (\<lambda>c. c = CHR ''e'' \<or> c = CHR ''E'') p then
        (let p1 = advance 1 p;
             p2 = (if next_is (\<lambda>c. c = CHR ''+'' \<or> c = CHR ''-'') p1 then advance 1 p1 else p1) in
         if \<not> next_is is_ascii_digit p2 then Inl (Unexpected (jp_position p2))
         else Inr (True, skip_while is_ascii_digit p2))
      else Inr (False, p))"

definition number_value :: "nat \<Rightarrow> str \<Rightarrow> bool \<Rightarrow> json_error + json" where
  "number_value start s is_float =
     (if \<not> utf8_valid s then Inl (Unexpected start)
      else if is_float then map_err (\<lambda>_. Unexpected start) (and_then (ok_or () (parse_f64 s)) (\<lambda>x. Inr (JFloat x)))
      else (case parse_i64 s of
              Some i \<Rightarrow> Inr (JInt i)
            | None \<Rightarrow> map_err (\<lambda>_. Unexpected start) (and_then (ok_or () (parse_f64 s)) (\<lambda>x. Inr (JFloat x)))))"

definition json_number :: "jparser \<Rightarrow> json jresult" where
  "json_number p =
     (let start = jp_position p;
          p1 = (if next_is (\<lambda>c. c = CHR ''-'') p then advance 1 p else p)
      in and_then (number_whole p1) (\<lambda>(_, p2).
         and_then (number_fraction p2) (\<lambda>(f1, p3).
         and_then (number_exponent p3) (\<lambda>(f2, p4).
         and_then (number_value start (take (jp_position p4 - start) (jp_rest p)) (f1 \<or> f2)) (\<lambda>v.
           Inr (v, p4))))))"

lemma skip_while_left: "left (skip_while f p) \<le> left p"
  by (simp add: skip_while_def)

lemma skip_while_less: "next_is f p \<Longrightarrow> left (skip_while f p) < left p"
  by (cases "jp_rest p") (auto simp: skip_while_def next_is_def peek_def)

lemma advance_less: "next_is f p \<Longrightarrow> left (advance 1 p) < left p"
  by (cases "jp_rest p") (auto simp: next_is_def peek_def)

lemma number_whole_left: "number_whole p = Inr (u, p') \<Longrightarrow> left p' < left p"
proof -
  have "next_is (\<lambda>c. 49 \<le> code c \<and> code c \<le> 57) p \<Longrightarrow> next_is is_ascii_digit p"
    by (auto simp: next_is_def is_ascii_digit_def split: option.splits)
  then show "number_whole p = Inr (u, p') \<Longrightarrow> left p' < left p"
    using advance_less skip_while_less by (auto simp: number_whole_def split: if_splits)
qed

lemma number_fraction_left: "number_fraction p = Inr (u, p') \<Longrightarrow> left p' \<le> left p"
  using skip_while_left [of is_ascii_digit "advance 1 p"]
  by (auto simp: number_fraction_def Let_def split: if_splits)

lemma number_exponent_left: "number_exponent p = Inr (u, p') \<Longrightarrow> left p' \<le> left p"
  using skip_while_left [of is_ascii_digit "advance 1 p"] skip_while_left [of is_ascii_digit "advance 1 (advance 1 p)"]
  by (auto simp: number_exponent_def Let_def split: if_splits)

lemma json_number_left: "json_number p = Inr (v, p') \<Longrightarrow> left p' < left p"
proof -
  have "left (if next_is (\<lambda>c. c = CHR ''-'') p then advance 1 p else p) \<le> left p" by simp
  then show "json_number p = Inr (v, p') \<Longrightarrow> left p' < left p"
    unfolding json_number_def Let_def
    by (auto dest!: number_whole_left number_fraction_left number_exponent_left simp del: jp_advance)
qed

definition enter :: "jparser \<Rightarrow> unit jresult" where
  "enter p =
     (let p' = p\<lparr>jp_depth := jp_depth p + 1\<rparr>
      in if jp_depth p' > max_depth then Inl TooDeep else Inr ((), p'))"

definition leave :: "jparser \<Rightarrow> jparser" where
  "leave p = p\<lparr>jp_depth := jp_depth p - 1\<rparr>"

lemma enter_left: "enter p = Inr (u, p') \<Longrightarrow> left p' = left p"
  by (auto simp: enter_def Let_def split: if_splits)

function (sequential, domintros)
  json_value :: "jparser \<Rightarrow> json jresult" and
  json_array :: "jparser \<Rightarrow> json jresult" and
  json_items :: "json list \<Rightarrow> jparser \<Rightarrow> json jresult" and
  json_object_at :: "jparser \<Rightarrow> json jresult" and
  json_fields :: "(str \<times> json) list \<Rightarrow> jparser \<Rightarrow> json jresult" where
  "json_value p =
     (case peek p of
        None \<Rightarrow> Inl UnexpectedEnd
      | Some c \<Rightarrow>
          if c = CHR ''n'' then json_literal ''null'' JNull p
          else if c = CHR ''t'' then json_literal ''true'' (JBool True) p
          else if c = CHR ''f'' then json_literal ''false'' (JBool False) p
          else if c = CHR 0x22 then and_then (json_string p) (\<lambda>(s, p1). Inr (JString s, p1))
          else if c = CHR ''['' then json_array p
          else if c = CHR ''{'' then json_object_at p
          else if c = CHR ''-'' \<or> is_ascii_digit c then json_number p
          else Inl (Unexpected (jp_position p)))"
| "json_array p =
     and_then (enter p) (\<lambda>(_, p1).
     and_then (expect (CHR ''['') p1) (\<lambda>(_, p2).
       let p3 = skip_whitespace p2 in
       if peek p3 = Some (CHR '']'') then Inr (JArray [], leave (advance 1 p3))
       else json_items [] p3))"
| "json_items items p =
     and_then (json_value (skip_whitespace p)) (\<lambda>(v, p2).
       (case bump (skip_whitespace p2) of
          (None, _) \<Rightarrow> Inl UnexpectedEnd
        | (Some c, p4) \<Rightarrow>
            if c = CHR '','' then json_items (items @ [v]) p4
            else if c = CHR '']'' then Inr (JArray (items @ [v]), leave p4)
            else Inl (Unexpected (jp_position p4 - 1))))"
| "json_object_at p =
     and_then (enter p) (\<lambda>(_, p1).
     and_then (expect (CHR ''{'') p1) (\<lambda>(_, p2).
       let p3 = skip_whitespace p2 in
       if peek p3 = Some (CHR ''}'') then Inr (JObject [], leave (advance 1 p3))
       else json_fields [] p3))"
| "json_fields fs p =
     (let p1 = skip_whitespace p in
      if peek p1 \<noteq> Some (CHR 0x22) then Inl (Unexpected (jp_position p1))
      else and_then (json_string p1) (\<lambda>(name, p2).
        if list_ex (\<lambda>(existing, _). existing = name) fs then Inl (DuplicateKey name)
        else and_then (expect (CHR '':'') (skip_whitespace p2)) (\<lambda>(_, p3).
          and_then (json_value (skip_whitespace p3)) (\<lambda>(v, p4).
            (case bump (skip_whitespace p4) of
               (None, _) \<Rightarrow> Inl UnexpectedEnd
             | (Some c, p6) \<Rightarrow>
                 if c = CHR '','' then json_fields (fs @ [(name, v)]) p6
                 else if c = CHR ''}'' then Inr (JObject (fs @ [(name, v)]), leave p6)
                 else Inl (Unexpected (jp_position p6 - 1)))))))"
  by pat_completeness auto

text \<open>A value consumes input. Shown for calls in the domain first, which termination then uses.\<close>

lemma json_literal_left: "json_literal w v p = Inr (x, p') \<Longrightarrow> w \<noteq> [] \<Longrightarrow> left p' < left p"
  by (cases w; cases "jp_rest p") (auto simp: json_literal_def split: if_splits)

lemma leave_rest [simp]: "jp_rest (leave p) = jp_rest p"
  by (simp add: leave_def)

lemma consumes:
  "json_value_json_array_json_items_json_object_at_json_fields_dom (Inl (Inl p)) \<Longrightarrow>
     json_value p = Inr (v, p') \<Longrightarrow> left p' < left p"
  "json_value_json_array_json_items_json_object_at_json_fields_dom (Inl (Inr p)) \<Longrightarrow>
     json_array p = Inr (v, p') \<Longrightarrow> left p' < left p"
  "json_value_json_array_json_items_json_object_at_json_fields_dom (Inr (Inl (items, p))) \<Longrightarrow>
     json_items items p = Inr (v, p') \<Longrightarrow> left p' < left p"
  "json_value_json_array_json_items_json_object_at_json_fields_dom (Inr (Inr (Inl p))) \<Longrightarrow>
     json_object_at p = Inr (v, p') \<Longrightarrow> left p' < left p"
  "json_value_json_array_json_items_json_object_at_json_fields_dom (Inr (Inr (Inr (fs, p)))) \<Longrightarrow>
     json_fields fs p = Inr (v, p') \<Longrightarrow> left p' < left p"
proof (induction p and p and items p and p and fs p arbitrary: v p' and v p' and v p' and v p' and v p'
    rule: json_value_json_array_json_items_json_object_at_json_fields.pinduct)
  case (1 p)
  from "1.prems" "1.hyps" show ?case
    by (auto simp: json_value.psimps dest!: json_literal_left json_string_left json_number_left
        split: option.splits if_splits intro: "1.IH")
next
  case (2 p)
  from "2.prems" obtain p1 p2 where e: "enter p = Inr ((), p1)" "expect (CHR ''['') p1 = Inr ((), p2)"
    by (subst (asm) json_array.psimps [OF "2.hyps"]) auto
  have *: "left (skip_whitespace p2) < left p"
    using expect_left [OF e(2)] enter_left [OF e(1)] skip_whitespace_left [of p2] by linarith
  show ?case
  proof (cases "peek (skip_whitespace p2) = Some (CHR '']'')")
    case True
    with "2.prems" e have "p' = leave (advance 1 (skip_whitespace p2))"
      by (subst (asm) json_array.psimps [OF "2.hyps"]) (simp add: Let_def)
    with * show ?thesis by simp
  next
    case False
    with "2.prems" e have "json_items [] (skip_whitespace p2) = Inr (v, p')"
      by (subst (asm) json_array.psimps [OF "2.hyps"]) (simp add: Let_def)
    from "2.IH" [OF e(1) refl e(2) refl refl False this] * show ?thesis by simp
  qed
next
  case (3 items p)
  from "3.prems" obtain v2 p2 where e1: "json_value (skip_whitespace p) = Inr (v2, p2)"
    by (subst (asm) json_items.psimps [OF "3.hyps"]) auto
  obtain r p4 where b: "bump (skip_whitespace p2) = (r, p4)" by fastforce
  with "3.prems" e1 obtain c where "r = Some c"
    by (subst (asm) json_items.psimps [OF "3.hyps"]) (auto split: option.splits)
  with e1 b have e: "json_value (skip_whitespace p) = Inr (v2, p2)" "bump (skip_whitespace p2) = (Some c, p4)"
    by simp_all
  have *: "left p4 < left p"
    using "3.IH"(1) [OF e(1)] bump_Some [OF e(2)] skip_whitespace_left [of p2] skip_whitespace_left [of p] by linarith
  show ?case
  proof (cases "c = CHR '',''")
    case True
    with "3.prems" e have "json_items (items @ [v2]) p4 = Inr (v, p')"
      by (subst (asm) json_items.psimps [OF "3.hyps"]) simp
    from "3.IH"(2) [OF e(1) refl e(2) [symmetric] refl True this] * show ?thesis by simp
  next
    case False
    with "3.prems" e have "p' = leave p4"
      by (subst (asm) json_items.psimps [OF "3.hyps"]) (simp split: if_splits)
    with * show ?thesis by simp
  qed
next
  case (4 p)
  from "4.prems" obtain p1 p2 where e: "enter p = Inr ((), p1)" "expect (CHR ''{'') p1 = Inr ((), p2)"
    by (subst (asm) json_object_at.psimps [OF "4.hyps"]) auto
  have *: "left (skip_whitespace p2) < left p"
    using expect_left [OF e(2)] enter_left [OF e(1)] skip_whitespace_left [of p2] by linarith
  show ?case
  proof (cases "peek (skip_whitespace p2) = Some (CHR ''}'')")
    case True
    with "4.prems" e have "p' = leave (advance 1 (skip_whitespace p2))"
      by (subst (asm) json_object_at.psimps [OF "4.hyps"]) (simp add: Let_def)
    with * show ?thesis by simp
  next
    case False
    with "4.prems" e have "json_fields [] (skip_whitespace p2) = Inr (v, p')"
      by (subst (asm) json_object_at.psimps [OF "4.hyps"]) (simp add: Let_def)
    from "4.IH" [OF e(1) refl e(2) refl refl False this] * show ?thesis by simp
  qed
next
  case (5 fs p)
  let ?p1 = "skip_whitespace p"
  from "5.prems" obtain name p2 p3 v4 p4 where q: "\<not> peek ?p1 \<noteq> Some (CHR 0x22)"
    and e: "json_string ?p1 = Inr (name, p2)" and d: "\<not> list_ex (\<lambda>(existing, _). existing = name) fs"
    and e1: "expect (CHR '':'') (skip_whitespace p2) = Inr ((), p3)" "json_value (skip_whitespace p3) = Inr (v4, p4)"
    by (subst (asm) json_fields.psimps [OF "5.hyps"]) (auto simp: Let_def split: if_splits)
  obtain r p6 where b: "bump (skip_whitespace p4) = (r, p6)" by fastforce
  with "5.prems" q e d e1 obtain c where "r = Some c"
    by (subst (asm) json_fields.psimps [OF "5.hyps"]) (auto simp: Let_def split: option.splits)
  with e1 b have e2: "expect (CHR '':'') (skip_whitespace p2) = Inr ((), p3)"
    "json_value (skip_whitespace p3) = Inr (v4, p4)" "bump (skip_whitespace p4) = (Some c, p6)"
    by simp_all
  have *: "left p6 < left p"
    using "5.IH"(1) [OF refl q e refl d e2(1) refl e2(2)] bump_Some [OF e2(3)] expect_left [OF e2(1)] json_string_left [OF e]
      skip_whitespace_left [of p4] skip_whitespace_left [of p3] skip_whitespace_left [of p2] skip_whitespace_left [of p]
    by linarith
  show ?case
  proof (cases "c = CHR '',''")
    case True
    with "5.prems" q e d e2 have "json_fields (fs @ [(name, v4)]) p6 = Inr (v, p')"
      by (subst (asm) json_fields.psimps [OF "5.hyps"]) (simp add: Let_def)
    from "5.IH"(2) [OF refl q e refl d e2(1) refl e2(2) refl e2(3) [symmetric] refl True this] * show ?thesis by simp
  next
    case False
    with "5.prems" q e d e2 have "p' = leave p6"
      by (subst (asm) json_fields.psimps [OF "5.hyps"]) (simp add: Let_def split: if_splits)
    with * show ?thesis by simp
  qed
qed

lemma opened_left:
  "enter p = Inr ((), p1) \<Longrightarrow> expect c p1 = Inr ((), p2) \<Longrightarrow> left (skip_whitespace p2) < left p"
  using enter_left [of p "()" p1] expect_left [of c p1 "()" p2] skip_whitespace_left [of p2] by linarith

lemma separated_left:
  "left q < left p \<Longrightarrow> (Some c, q') = bump (skip_whitespace q) \<Longrightarrow> left q' < left p"
  using bump_Some_sym [of c q' "skip_whitespace q"] skip_whitespace_left [of q] by linarith

lemma named_left:
  "json_string (skip_whitespace p) = Inr (n, p1) \<Longrightarrow> expect c (skip_whitespace p1) = Inr ((), p2) \<Longrightarrow>
   left (skip_whitespace p2) < left p"
  using json_string_left [of "skip_whitespace p" n p1] expect_left [of c "skip_whitespace p1" "()" p2]
    skip_whitespace_left [of p] skip_whitespace_left [of p1] skip_whitespace_left [of p2] by linarith

lemma json_parser_total: "All json_value_json_array_json_items_json_object_at_json_fields_dom"
proof (rule "json_value_json_array_json_items_json_object_at_json_fields.termination" [where R = "measure (\<lambda>x. case x of Inl (Inl p) \<Rightarrow> 4 * left p + 1 | Inl (Inr p) \<Rightarrow> 4 * left p
    | Inr (Inl (_, p)) \<Rightarrow> 4 * left p + 2 | Inr (Inr (Inl p)) \<Rightarrow> 4 * left p | Inr (Inr (Inr (_, p))) \<Rightarrow> 4 * left p + 2)"],
    goal_cases)
  case 4
  then show ?case by (auto dest: opened_left)
next
  case (5 items p)
  then show ?case using skip_whitespace_left [of p] by simp
next
  case (6 items p x v q r q' c)
  then have "json_value (skip_whitespace p) = Inr (v, q)" "(Some c, q') = bump (skip_whitespace q)" by simp_all
  with consumes(1) [OF 6(6), of v q] separated_left [of q p c q'] skip_whitespace_left [of p]
  have "left q' < left p" by linarith
  then show ?case by simp
next
  case 7
  then show ?case by (auto dest: opened_left)
next
  case 8
  then show ?case by (auto dest: named_left)
next
  case (9 fs p p1 x name p2 y u p3 z v q r q' c)
  then have "json_string (skip_whitespace p) = Inr (name, p2)" "expect (CHR '':'') (skip_whitespace p2) = Inr ((), p3)"
    "json_value (skip_whitespace p3) = Inr (v, q)" "(Some c, q') = bump (skip_whitespace q)" by simp_all
  with consumes(1) [OF 9(13), of v q] separated_left [of q p c q'] named_left [of p name p2 "CHR '':''" p3]
  have "left q' < left p" by linarith
  then show ?case by simp
qed simp_all

termination json_value
  by (rule json_parser_total)

declare json_value.simps [simp del] json_array.simps [simp del] json_items.simps [simp del]
  json_object_at.simps [simp del] json_fields.simps [simp del]

lemma json_value_left: "json_value p = Inr (v, p') \<Longrightarrow> left p' < left p"
  by (rule consumes(1)) (simp add: json_parser_total [THEN spec])

definition json_parse :: "str \<Rightarrow> json_error + json" where
  "json_parse input =
     (let p1 = skip_whitespace \<lparr>jp_rest = input, jp_position = 0, jp_depth = 0\<rparr> in
      if jp_rest p1 = [] then Inl UnexpectedEnd
      else and_then (json_value p1) (\<lambda>(v, p2).
        if jp_rest (skip_whitespace p2) \<noteq> [] then Inl TrailingContent else Inr v))"

end
