(* ===== verification/Json_Roundtrip.thy ===== *)
theory Json_Roundtrip
  imports Json
begin

text \<open>
  What the renderer writes, the parser reads back: for every value without floats whose strings are
  valid UTF-8, whose integers fit 64 bits, whose objects have distinct names and whose nesting is
  within the limit. And the other way: whatever the parser accepts is such a value (floats apart).
\<close>

section \<open>Values that survive\<close>

fun nest :: "json \<Rightarrow> nat" where
  "nest (JArray xs) = Suc (Max (insert 0 (nest ` set xs)))"
| "nest (JObject fs) = Suc (Max (insert 0 ((\<lambda>(n, v). nest v) ` set fs)))"
| "nest _ = 0"

fun json_wf :: "json \<Rightarrow> bool" where
  "json_wf (JInt i) \<longleftrightarrow> i64_min \<le> i \<and> i \<le> i64_max"
| "json_wf (JString s) \<longleftrightarrow> utf8_valid s"
| "json_wf (JArray xs) \<longleftrightarrow> (\<forall>x\<in>set xs. json_wf x)"
| "json_wf (JObject fs) \<longleftrightarrow> distinct (map fst fs) \<and> (\<forall>(n, v)\<in>set fs. utf8_valid n \<and> json_wf v)"
| "json_wf _ \<longleftrightarrow> True"

fun no_float :: "json \<Rightarrow> bool" where
  "no_float (JFloat x) \<longleftrightarrow> False"
| "no_float (JArray xs) \<longleftrightarrow> (\<forall>x\<in>set xs. no_float x)"
| "no_float (JObject fs) \<longleftrightarrow> (\<forall>(n, v)\<in>set fs. no_float v)"
| "no_float _ \<longleftrightarrow> True"

abbreviation jp :: "str \<Rightarrow> nat \<Rightarrow> nat \<Rightarrow> jparser" where
  "jp r k d \<equiv> \<lparr>jp_rest = r, jp_position = k, jp_depth = d\<rparr>"

lemma advance_jp [simp]: "advance n (jp r k d) = jp (drop n r) (k + n) d"
  by (simp add: advance_def)

lemma peek_jp [simp]: "peek (jp (c # r) k d) = Some c" "peek (jp [] k d) = None"
  by (simp_all add: peek_def)

lemma bump_jp [simp]: "bump (jp (c # r) k d) = (Some c, jp r (Suc k) d)"
  by (simp add: bump_def)

lemma expect_jp [simp]: "expect c (jp (c # r) k d) = Inr ((), jp r (Suc k) d)"
  by (simp add: expect_def)

lemma skip_whitespace_none [simp]: "\<not> is_json_space c \<Longrightarrow> skip_whitespace (jp (c # r) k d) = jp (c # r) k d"
  by (simp add: skip_whitespace_def skip_while_def)

lemma skip_whitespace_end [simp]: "skip_whitespace (jp [] k d) = jp [] k d"
  by (simp add: skip_whitespace_def skip_while_def)

lemma next_is_jp [simp]: "next_is f (jp (c # r) k d) = f c" "next_is f (jp [] k d) = False"
  by (simp_all add: next_is_def)

section \<open>Strings\<close>

lemma hex4_digit_nth: "n < 16 \<Longrightarrow> hex4_digit (hex4_digits ! n) = Some n"
proof -
  have "\<forall>n \<in> set [0..<16]. hex4_digit (hex4_digits ! n) = Some n"
    by (simp add: upt_rec hex4_digits_def hex4_digit_def)
  then show "n < 16 \<Longrightarrow> hex4_digit (hex4_digits ! n) = Some n"
    by simp
qed

lemma hex4_loop_digit:
  "x < 16 \<Longrightarrow> hex4_loop (Suc n) start v (jp (hex4_digits ! x # r) k d) = hex4_loop n start (v * 16 + x) (jp r (Suc k) d)"
  by (simp add: hex4_digit_nth)

lemma show_04x_eq:
  "show_04x n = [hex4_digits ! (n div 4096 mod 16), hex4_digits ! (n div 256 mod 16), hex4_digits ! (n div 16 mod 16),
     hex4_digits ! (n mod 16)]"
  by (simp add: show_04x_def)

lemma hex4_show:
  assumes "n < 65536"
  shows "hex4 (jp (show_04x n @ r) k d) = Inr (n, jp r (k + 4) d)"
proof -
  have "((n div 4096 mod 16 * 16 + n div 256 mod 16) * 16 + n div 16 mod 16) * 16 + n mod 16 = n"
  proof -
    have a: "n div 4096 mod 16 = n div 4096" using assms by (intro mod_less) (simp add: less_mult_imp_div_less)
    have d: "n div 16 div 16 = n div 256" "n div 256 div 16 = n div 4096"
      by (simp_all flip: div_mult2_eq)
    have b: "n div 4096 * 16 + n div 256 mod 16 = n div 256" "n div 256 * 16 + n div 16 mod 16 = n div 16"
      "n div 16 * 16 + n mod 16 = n"
      using div_mult_mod_eq [of "n div 256" 16] div_mult_mod_eq [of "n div 16" 16] div_mult_mod_eq [of n 16]
      unfolding d by blast+
    show ?thesis unfolding a b ..
  qed
  moreover have "hex4_loop 4 k 0 (jp (show_04x n @ r) k d) =
      Inr (((n div 4096 mod 16 * 16 + n div 256 mod 16) * 16 + n div 16 mod 16) * 16 + n mod 16, jp r (k + 4) d)"
  proof -
    have m: "x mod 16 < 16" for x :: nat by simp
    have "hex4_loop (Suc (Suc (Suc (Suc 0)))) k 0 (jp (show_04x n @ r) k d) =
        Inr (((n div 4096 mod 16 * 16 + n div 256 mod 16) * 16 + n div 16 mod 16) * 16 + n mod 16, jp r (Suc (Suc (Suc (Suc k)))) d)"
      unfolding show_04x_eq append_Cons append_Nil hex4_loop_digit [OF m] hex4_loop.simps(1) mult_zero_left add_0 ..
    moreover have "(4 :: nat) = Suc (Suc (Suc (Suc 0)))" "k + Suc (Suc (Suc (Suc 0))) = Suc (Suc (Suc (Suc k)))" by simp_all
    ultimately show ?thesis by (simp only:)
  qed
  ultimately show ?thesis
    unfolding hex4_def jparser.simps by (simp only:)
qed

lemma write_char_nonascii: "\<not> (\<exists>c. ch = [c]) \<Longrightarrow> write_char ch = ch"
  by (auto simp: write_char_def split: list.splits)

lemma write_char_lead:
  assumes "utf8_char ch"
  shows "write_char ch \<noteq> [] \<and> \<not> is_continuation (hd (write_char ch))"
proof (cases "\<exists>c. ch = [c]")
  case True
  with assms show ?thesis by (auto simp: write_char_def is_continuation_def split: if_splits)
next
  case False
  with assms show ?thesis by (simp add: write_char_nonascii utf8_char_lead)
qed

lemma string_loop_char:
  assumes "utf8_char ch" and "starts_char t"
  shows "string_loop out (jp (write_char ch @ t) k d) = string_loop (out @ ch) (jp t (k + length (write_char ch)) d)"
proof (cases "\<exists>c. ch = [c]")
  case False
  with assms(1) obtain c cs where ch: "ch = c # cs" "cs \<noteq> []" by (cases ch) auto
  have "\<not> code c < 128" using utf8_char_ascii [of c cs] assms(1) ch by auto
  moreover have "takeWhile is_continuation (cs @ t) = cs"
    using utf8_char_tail [of c cs] assms ch
    by (simp add: takeWhile_starts_char [OF assms(2)] list_all_iff takeWhile_eq_all_conv)
  moreover have "utf8_valid (c # cs)" using utf8_valid_char assms(1) ch by simp
  moreover have "write_char ch = c # cs" using write_char_nonascii [OF False] ch by simp
  ultimately show ?thesis
    using ch by (subst string_loop.simps) (auto simp: Let_def)
next
  case True
  then obtain c where ch: "ch = [c]" by blast
  with assms(1) have c: "code c < 128" by simp
  consider "write_char [c] = [c]" "c \<noteq> CHR 0x22" "c \<noteq> CHR 0x5C" "\<not> code c < 0x20"
    | x where "write_char [c] = [CHR 0x5C, x]" "\<And>p. escape (jp (x # t) p d) = Inr ([c], jp t (Suc p) d)"
    | "write_char [c] = CHR 0x5C # CHR ''u'' # show_04x (code c)" "code c < 0x20"
    by (cases "c = CHR 0x22"; cases "c = CHR 0x5C"; cases "c = CHR 0x0A"; cases "c = CHR 0x0D"; cases "c = CHR 0x09";
        cases "c = CHR 0x08"; cases "c = CHR 0x0C"; cases "code c < 0x20")
      (auto simp: write_char_def escape_def)
  then show ?thesis
  proof cases
    case 1
    with c show ?thesis by (subst string_loop.simps) (simp add: ch)
  next
    case (2 x)
    then show ?thesis by (subst string_loop.simps) (simp add: ch)
  next
    case 3
    then have "unicode_escape (jp (show_04x (code c) @ t) p d) = Inr ([c], jp t (p + 4) d)" for p
      by (simp add: unicode_escape_def hex4_show char_from_u32_def)
    moreover have "length (show_04x n) = 4" for n
      by (simp add: show_04x_def)
    ultimately show ?thesis
      by (subst string_loop.simps) (simp add: ch 3 escape_def eval_nat_numeral)
  qed
qed

lemma chars_char_append: "utf8_char ch \<Longrightarrow> utf8_valid s \<Longrightarrow> chars (ch @ s) = ch # chars s"
  by (simp add: chars_append utf8_valid_starts_char chars_single)

lemma written_starts_char: "utf8_valid s \<Longrightarrow> starts_char (concat (map write_char (chars s)) @ CHR 0x22 # r)"
proof (induction s rule: utf8_induct)
  case Nil
  then show ?case by (simp add: starts_char_def is_continuation_def)
next
  case (Char ch s)
  with write_char_lead [of ch] show ?case
    by (cases "write_char ch") (auto simp: chars_char_append starts_char_def)
qed

lemma string_loop_written:
  "utf8_valid s \<Longrightarrow> string_loop out (jp (concat (map write_char (chars s)) @ CHR 0x22 # r) k d) =
     Inr (out @ s, jp r (k + length (concat (map write_char (chars s))) + 1) d)"
proof (induction s arbitrary: out k rule: utf8_induct)
  case Nil
  show ?case by (subst string_loop.simps) simp
next
  case (Char ch s)
  then show ?case
    by (simp add: chars_char_append string_loop_char written_starts_char add.assoc)
qed

lemma json_string_written:
  "utf8_valid s \<Longrightarrow> json_string (jp (write_string s @ r) k d) = Inr (s, jp r (k + length (write_string s)) d)"
  by (simp add: json_string_def write_string_def string_loop_written)

section \<open>Numbers\<close>

text \<open>What may follow a number without becoming part of it.\<close>

definition number_ends :: "str \<Rightarrow> bool" where
  "number_ends r \<longleftrightarrow> (case r of [] \<Rightarrow> True
     | c # _ \<Rightarrow> \<not> is_ascii_digit c \<and> c \<noteq> CHR ''.'' \<and> c \<noteq> CHR ''e'' \<and> c \<noteq> CHR ''E'')"

lemma show_nat_lead: "n \<noteq> 0 \<Longrightarrow> 49 \<le> code (hd (show_nat n)) \<and> code (hd (show_nat n)) \<le> 57"
proof (induction n rule: show_nat.induct)
  case (1 n)
  then show ?case
    by (cases "n < 10") (subst (1 2) show_nat.simps; simp)+
qed

lemma show_nat_0: "show_nat 0 = ''0''"
proof -
  have "char_of (code (CHR ''0'')) = CHR ''0''" by (rule char_of_char)
  then show ?thesis by (subst show_nat.simps) (simp add: digit_char_def)
qed

lemma show_nat_ascii: "c \<in> set (show_nat n) \<Longrightarrow> code c < 128"
  using show_nat_digits [of c n] by (simp add: is_ascii_digit_def)

lemma takeWhile_digits: "number_ends r \<Longrightarrow> takeWhile is_ascii_digit (show_nat n @ r) = show_nat n"
  using show_nat_digits [of _ n]
  by (cases r) (auto simp: takeWhile_append2 number_ends_def takeWhile_eq_all_conv)

lemma number_whole_show:
  assumes "number_ends r"
  shows "number_whole (jp (show_nat n @ r) k d) = Inr ((), jp r (k + length (show_nat n)) d)"
proof (cases "n = 0")
  case True
  then show ?thesis by (simp add: number_whole_def show_nat_0)
next
  case False
  then obtain c cs where n: "show_nat n = c # cs" by (cases "show_nat n") auto
  with show_nat_lead [OF False] have "49 \<le> code c" "code c \<le> 57" by simp_all
  moreover from this have "c \<noteq> CHR ''0''" by auto
  moreover have "skip_while is_ascii_digit (jp (show_nat n @ r) k d) = jp r (k + length (show_nat n)) d"
    by (simp add: skip_while_def takeWhile_digits [OF assms])
  ultimately show ?thesis
    by (simp add: number_whole_def n)
qed

lemma json_number_show:
  assumes "i64_min \<le> i" and "i \<le> i64_max" and r: "number_ends r"
  shows "json_number (jp (show_int i @ r) k d) = Inr (JInt i, jp r (k + length (show_int i)) d)"
proof -
  have stop: "number_fraction (jp r k' d) = Inr (False, jp r k' d)" "number_exponent (jp r k' d) = Inr (False, jp r k' d)" for k'
    using r by (cases r; auto simp: number_fraction_def number_exponent_def number_ends_def)+
  have "utf8_valid (show_int i)"
    by (rule utf8_valid_ascii) (auto simp: show_int_def dest: show_nat_ascii split: if_splits)
  then have v: "number_value k (show_int i) False = Inr (JInt i)"
    using assms by (simp add: number_value_def)
  show ?thesis
  proof (cases "i < 0")
    case True
    then have i: "show_int i = CHR ''-'' # show_nat (nat (- i))" by (simp add: show_int_def)
    from v show ?thesis
      unfolding i by (simp add: json_number_def number_whole_show [OF r] stop)
  next
    case False
    then have i: "show_int i = show_nat (nat i)" by (simp add: show_int_def)
    obtain c cs where n: "show_nat (nat i) = c # cs" "c \<noteq> CHR ''-''"
      using show_nat_no_sign [of "nat i"] by (cases "show_nat (nat i)") auto
    from v n(2) show ?thesis
      unfolding i using number_whole_show [OF r, of "nat i" k d] by (simp add: json_number_def n(1) stop)
  qed
qed

section \<open>Arrays and objects\<close>

definition plain_lead :: "str \<Rightarrow> bool" where
  "plain_lead s \<longleftrightarrow> (case s of [] \<Rightarrow> False | c # _ \<Rightarrow> \<not> is_json_space c \<and> c \<noteq> CHR '']'' \<and> c \<noteq> CHR ''}'')"

lemma plain_lead_int: "plain_lead (show_int i)"
proof -
  obtain c cs where i: "show_int i = c # cs"
    by (cases "show_int i") (auto simp: show_int_def split: if_splits)
  then have "c = CHR ''-'' \<or> is_ascii_digit c"
    using show_nat_digits [of c "nat i"] by (cases "i < 0") (auto simp: show_int_def)
  then show ?thesis
    by (auto simp: i plain_lead_def is_json_space_def is_ascii_digit_def)
qed

lemma plain_lead_render: "no_float v \<Longrightarrow> plain_lead (render v)"
proof (cases v)
  case (JBool b)
  then show ?thesis by (cases b) (simp_all add: plain_lead_def is_json_space_def)
next
  case (JInt i)
  then show ?thesis using plain_lead_int by simp
qed (simp_all add: plain_lead_def is_json_space_def write_string_def)

lemma render_lead:
  assumes "no_float v"
  obtains c cs where "render v = c # cs" and "\<not> is_json_space c" and "c \<noteq> CHR '']''" and "c \<noteq> CHR ''}''"
  using plain_lead_render [OF assms] by (cases "render v") (simp_all add: plain_lead_def)

text \<open>That a value is read back at a given depth, whatever follows it.\<close>

definition reads_back :: "nat \<Rightarrow> json \<Rightarrow> bool" where
  "reads_back d v \<longleftrightarrow>
     (\<forall>r k. number_ends r \<longrightarrow> json_value (jp (render v @ r) k d) = Inr (v, jp r (k + length (render v)) d))"

lemma reads_backD:
  "reads_back d v \<Longrightarrow> number_ends r \<Longrightarrow> json_value (jp (render v @ r) k d) = Inr (v, jp r (k + length (render v)) d)"
  by (simp add: reads_back_def)

lemma number_ends_Cons [simp]:
  "number_ends (c # r) \<longleftrightarrow> \<not> is_ascii_digit c \<and> c \<noteq> CHR ''.'' \<and> c \<noteq> CHR ''e'' \<and> c \<noteq> CHR ''E''"
  by (simp add: number_ends_def)

lemma skip_whitespace_render:
  "no_float v \<Longrightarrow> skip_whitespace (jp (render v @ r) k d) = jp (render v @ r) k d"
  by (metis append_Cons render_lead skip_whitespace_none)

lemma leave_jp [simp]: "leave (jp r k d) = jp r k (d - 1)"
  by (simp add: leave_def)

lemma enter_jp [simp]: "d < max_depth \<Longrightarrow> enter (jp r k d) = Inr ((), jp r k (Suc d))"
  by (simp add: enter_def)

lemma plain_punctuation [simp]:
  "\<not> is_json_space (CHR '','')" "\<not> is_json_space (CHR '']'')" "\<not> is_json_space (CHR ''}'')" "\<not> is_json_space (CHR '':'')"
  "\<not> is_json_space (CHR 0x22)" "\<not> is_ascii_digit (CHR '','')" "\<not> is_ascii_digit (CHR '']'')" "\<not> is_ascii_digit (CHR ''}'')"
  by (simp_all add: is_json_space_def is_ascii_digit_def)

definition more_items :: "json list \<Rightarrow> str" where
  "more_items xs = concat (map (\<lambda>x. CHR '','' # render x) xs)"

definition write_field :: "str \<times> json \<Rightarrow> str" where
  "write_field f = write_string (fst f) @ CHR '':'' # render (snd f)"

definition more_fields :: "(str \<times> json) list \<Rightarrow> str" where
  "more_fields fs = concat (map (\<lambda>f. CHR '','' # write_field f) fs)"

lemma more_simps [simp]:
  "more_items [] = []" "more_items (x # xs) = CHR '','' # render x @ more_items xs"
  "more_fields [] = []" "more_fields (f # fs) = CHR '','' # write_field f @ more_fields fs"
  by (simp_all add: more_items_def more_fields_def)

lemma render_JArray: "render (JArray (x # xs)) = CHR ''['' # render x @ more_items xs @ '']''"
  by (simp add: separated_def more_items_def o_def)

lemma render_JObject: "render (JObject (f # fs)) = CHR ''{'' # write_field f @ more_fields fs @ ''}''"
  by (cases f) (simp add: separated_def more_fields_def write_field_def o_def case_prod_unfold)

lemma json_items_rendered:
  assumes "\<And>x. x \<in> set (y # ys) \<Longrightarrow> reads_back d x \<and> no_float x"
  shows "json_items acc (jp (render y @ more_items ys @ CHR '']'' # r) k d) =
     Inr (JArray (acc @ y # ys), jp r (k + length (render y @ more_items ys) + 1) (d - 1))"
  using assms
proof (induction ys arbitrary: acc y k)
  case Nil
  then show ?case
    by (subst json_items.simps) (simp add: skip_whitespace_render reads_backD)
next
  case (Cons z zs)
  from Cons.prems have y: "reads_back d y" "no_float y" by simp_all
  from Cons.prems have rest: "\<And>x. x \<in> set (z # zs) \<Longrightarrow> reads_back d x \<and> no_float x" by simp
  show ?case
    using Cons.IH [OF rest, where acc = "acc @ [y]" and k = "Suc (k + length (render y))"]
    by (subst json_items.simps) (simp add: skip_whitespace_render y reads_backD add.assoc)
qed

lemma read_field:
  assumes "utf8_valid (fst f)" and "reads_back d (snd f)" and "no_float (snd f)" and "number_ends r"
    and "fst f \<notin> fst ` set fs"
  shows "json_fields fs (jp (write_field f @ r) k d) =
     (case bump (skip_whitespace (jp r (k + length (write_field f)) d)) of
        (None, _) \<Rightarrow> Inl UnexpectedEnd
      | (Some c, p6) \<Rightarrow>
          if c = CHR '','' then json_fields (fs @ [f]) p6
          else if c = CHR ''}'' then Inr (JObject (fs @ [f]), leave p6)
          else Inl (Unexpected (jp_position p6 - 1)))"
proof -
  have q: "write_string (fst f) @ t = CHR 0x22 # drop 1 (write_string (fst f)) @ t" for t
    by (simp add: write_string_def)
  have skip: "skip_whitespace (jp (write_string (fst f) @ t) k d) = jp (write_string (fst f) @ t) k d"
    and peek: "peek (jp (write_string (fst f) @ t) k d) = Some (CHR 0x22)" for t
    by (simp_all add: write_string_def)
  have new: "\<not> list_ex (\<lambda>(existing, _). existing = fst f) fs"
    using assms(5) by (auto simp: list_ex_iff image_iff)
  show ?thesis
    by (subst json_fields.simps)
      (simp add: write_field_def skip peek json_string_written assms(1) new skip_whitespace_render assms(3)
        reads_backD [OF assms(2,4)] add.assoc, simp only: prod.collapse)
qed

lemma json_fields_rendered:
  assumes "\<And>g. g \<in> set (f # gs) \<Longrightarrow> utf8_valid (fst g) \<and> reads_back d (snd g) \<and> no_float (snd g)"
    and "distinct (map fst (acc @ f # gs))"
  shows "json_fields acc (jp (write_field f @ more_fields gs @ CHR ''}'' # r) k d) =
     Inr (JObject (acc @ f # gs), jp r (k + length (write_field f @ more_fields gs) + 1) (d - 1))"
  using assms
proof (induction gs arbitrary: acc f k)
  case Nil
  then show ?case by (subst read_field) auto
next
  case (Cons g gs)
  from Cons.prems have f: "utf8_valid (fst f)" "reads_back d (snd f)" "no_float (snd f)" "fst f \<notin> fst ` set acc" by auto
  from Cons.prems(1) have rest: "\<And>h. h \<in> set (g # gs) \<Longrightarrow> utf8_valid (fst h) \<and> reads_back d (snd h) \<and> no_float (snd h)" by simp
  from Cons.prems(2) have "distinct (map fst ((acc @ [f]) @ g # gs))" by simp
  from Cons.IH [OF rest this, where k = "Suc (k + length (write_field f))"] show ?case
    by (subst read_field [OF f(1-3) _ f(4)]) (simp_all add: add.assoc)
qed

section \<open>Every value\<close>

lemma json_literal_jp [simp]: "json_literal w v (jp (w @ r) k d) = Inr (v, jp r (k + length w) d)"
  by (simp add: json_literal_def)

lemma nest_member: "x \<in> set xs \<Longrightarrow> nest x < nest (JArray xs)"
  "(n, v) \<in> set fs \<Longrightarrow> nest v < nest (JObject fs)"
  by (auto simp: less_Suc_eq_le intro!: Max_ge rev_image_eqI)

lemma rendered_reads_back:
  "json_wf v \<Longrightarrow> no_float v \<Longrightarrow> d + nest v \<le> max_depth \<Longrightarrow> reads_back d v"
proof (induction v arbitrary: d rule: render.induct)
  case 1
  show ?case using json_literal_jp [of "''null''"] by (simp add: reads_back_def json_value.simps)
next
  case (2 b)
  show ?case using json_literal_jp [of "''true''"] json_literal_jp [of "''false''"]
    by (simp add: reads_back_def json_value.simps)
next
  case (3 i)
  then have n: "number_ends r \<Longrightarrow> json_number (jp (show_int i @ r) k d) = Inr (JInt i, jp r (k + length (show_int i)) d)" for r k
    by (simp add: json_number_show)
  obtain c cs where i: "show_int i = c # cs" "c = CHR ''-'' \<or> is_ascii_digit c"
    using show_nat_digits [of _ "nat i"] by (cases "show_int i") (force simp: show_int_def split: if_splits)+
  then have "c \<notin> {CHR ''n'', CHR ''t'', CHR ''f'', CHR 0x22, CHR ''['', CHR ''{''}"
    by (auto simp: is_ascii_digit_def)
  with i n show ?case
    by (auto simp: reads_back_def json_value.simps)
next
  case (5 s)
  then show ?case
    using json_string_written [of s] by (simp add: reads_back_def json_value.simps write_string_def)
next
  case (6 xs)
  have members: "\<And>x. x \<in> set xs \<Longrightarrow> reads_back (Suc d) x \<and> no_float x"
    using 6 nest_member(1) [of _ xs] by (fastforce intro!: "6.IH")
  have d: "d < max_depth" using "6.prems"(3) by simp
  show ?case
  proof (cases xs)
    case Nil
    with d show ?thesis by (simp add: reads_back_def json_value.simps json_array.simps separated_def)
  next
    case (Cons y ys)
    obtain c cs where y: "render y = c # cs" "\<not> is_json_space c" "c \<noteq> CHR '']''"
      using members [of y] Cons render_lead [of y] by (metis list.set_intros(1))
    have "json_items [] (jp (render y @ more_items ys @ CHR '']'' # r) k (Suc d)) =
        Inr (JArray xs, jp r (k + length (render y @ more_items ys) + 1) d)" for r k
      using json_items_rendered [of y ys "Suc d" "[]" r k] members Cons by simp
    with d y show ?thesis
      unfolding Cons reads_back_def render_JArray by (simp add: json_value.simps json_array.simps)
  qed
next
  case (7 fs)
  have members: "\<And>g. g \<in> set fs \<Longrightarrow> utf8_valid (fst g) \<and> reads_back (Suc d) (snd g) \<and> no_float (snd g)"
  proof -
    fix g assume g: "g \<in> set fs"
    obtain n v where nv: "g = (n, v)" by (cases g)
    have "reads_back (Suc d) v"
      using 7(1) [OF g nv [symmetric]] "7.prems" g nv nest_member(2) [of n v fs] by fastforce
    with "7.prems" g nv show "utf8_valid (fst g) \<and> reads_back (Suc d) (snd g) \<and> no_float (snd g)" by fastforce
  qed
  have d: "d < max_depth" using "7.prems"(3) by simp
  show ?case
  proof (cases fs)
    case Nil
    with d show ?thesis by (simp add: reads_back_def json_value.simps json_object_at.simps separated_def)
  next
    case (Cons f gs)
    have q: "\<exists>t. write_field f = CHR 0x22 # t" by (simp add: write_field_def write_string_def)
    have "distinct (map fst ([] @ f # gs))" using "7.prems"(1) Cons by simp
    from json_fields_rendered [OF _ this, of "Suc d"] members Cons
    have "json_fields [] (jp (write_field f @ more_fields gs @ CHR ''}'' # r) k (Suc d)) =
        Inr (JObject fs, jp r (k + length (write_field f @ more_fields gs) + 1) d)" for r k
      by simp
    with d q show ?thesis
      unfolding Cons reads_back_def render_JObject by (auto simp: json_value.simps json_object_at.simps)
  qed
qed simp

lemma json_parse_render:
  assumes "json_wf v" and "no_float v" and "nest v \<le> max_depth"
  shows "json_parse (render v) = Inr v"
proof -
  have "json_value (jp (render v @ []) 0 0) = Inr (v, jp [] (0 + length (render v)) 0)"
    using rendered_reads_back [of v 0] assms by (intro reads_backD) (simp_all add: number_ends_def)
  then show ?thesis
    using skip_whitespace_render [OF assms(2), of "[]" 0 0] render_lead [OF assms(2)]
    by (simp add: json_parse_def Let_def) (metis list.distinct(1))
qed

interpretation json_text: codec render "\<lambda>s. case json_parse s of Inl _ \<Rightarrow> None | Inr v \<Rightarrow> Some v"
    "\<lambda>v. json_wf v \<and> no_float v \<and> nest v \<le> max_depth"
  by unfold_locales (simp add: json_parse_render)

section \<open>Rendered text is text\<close>

lemma utf8_valid_Cons [simp]: "code c < 128 \<Longrightarrow> utf8_valid s \<Longrightarrow> utf8_valid (c # s)"
  using utf8_valid_append [of "[c]" s] utf8_valid_ascii [of "[c]"] by simp

lemma utf8_valid_concat: "(\<And>x. x \<in> set xs \<Longrightarrow> utf8_valid x) \<Longrightarrow> utf8_valid (concat xs)"
  by (induction xs) auto

lemma write_char_utf8: "utf8_char ch \<Longrightarrow> utf8_valid (write_char ch)"
proof (cases "\<exists>c. ch = [c]")
  case True
  assume "utf8_char ch"
  with True obtain c where c: "ch = [c]" "code c < 128" by auto
  have h: "code (hex4_digits ! (n mod 16)) < 128" for n
  proof -
    have "\<forall>i \<in> set [0..<16]. code (hex4_digits ! i) < 128"
      by (simp add: upt_rec hex4_digits_def)
    then show ?thesis by simp
  qed
  then have "utf8_valid (show_04x n)" for n
    by (simp add: show_04x_def)
  with c show ?thesis by (simp add: write_char_def)
next
  case False
  assume "utf8_char ch"
  with False show ?thesis by (simp add: write_char_nonascii utf8_valid_char)
qed

lemma write_string_utf8: "utf8_valid s \<Longrightarrow> utf8_valid (write_string s)"
  by (auto simp: write_string_def utf8_valid_def [of s] list_all_iff
      intro!: utf8_valid_Cons utf8_valid_append utf8_valid_concat write_char_utf8)

lemma show_int_utf8: "utf8_valid (show_int i)"
  by (rule utf8_valid_ascii) (auto simp: show_int_def dest: show_nat_ascii split: if_splits)

lemma separated_utf8: "(\<And>x. x \<in> set xs \<Longrightarrow> utf8_valid x) \<Longrightarrow> utf8_valid (separated xs)"
  by (auto simp: separated_def intro!: utf8_valid_append utf8_valid_concat utf8_valid_Cons split: list.splits)

lemma render_utf8: "json_wf v \<Longrightarrow> no_float v \<Longrightarrow> utf8_valid (render v)"
proof (induction v)
  case (JString s)
  then show ?case by (simp add: write_string_utf8)
next
  case (JArray xs)
  then show ?case by (auto intro!: utf8_valid_Cons utf8_valid_append separated_utf8)
next
  case (JObject fs)
  have "utf8_valid (write_string n) \<and> utf8_valid (render v)" if m: "(n, v) \<in> set fs" for n v
  proof -
    have "json_wf v" "no_float v" "utf8_valid n" using m JObject.prems by auto
    with JObject.IH [OF m] show ?thesis by (simp add: write_string_utf8)
  qed
  then show ?case by (auto intro!: utf8_valid_Cons utf8_valid_append separated_utf8)
qed (simp_all add: show_int_utf8)

section \<open>What the parser accepts\<close>

lemma code_char_of [simp]: "n < 256 \<Longrightarrow> code (char_of n) = n"
  by simp

lemma utf8_char_4:
  assumes "a \<le> (4 :: nat)" and "b < (64 :: nat)" and "c < (64 :: nat)" and "d < 64" and "a = 0 \<Longrightarrow> 16 \<le> b" and "a = 4 \<Longrightarrow> b \<le> 15"
  shows "utf8_char [char_of (240 + a), char_of (128 + b), char_of (128 + c), char_of (128 + d :: nat)]"
proof -
  have "a = 0 \<or> 1 \<le> a \<and> a \<le> 3 \<or> a = 4" using assms(1) by linarith
  with assms(2-) show ?thesis by (auto simp: is_continuation_def)
qed

lemma char_from_u32_utf8:
  assumes "char_from_u32 n = Some ch"
  shows "utf8_char ch"
proof -
  note 1 = assms [unfolded char_from_u32_def]
  consider "n < 0x80" | "0x80 \<le> n" "n < 0x800" | "0x800 \<le> n" "n < 0x10000" "n < 0xD800 \<or> 0xDFFF < n" | "0x10000 \<le> n" "n \<le> 0x10FFFF"
    using 1 by (auto split: if_splits)
  then show ?thesis
  proof cases
    case 2
    then have "2 \<le> n div 64" "n div 64 < 32" by auto
    with 1 2 show ?thesis by (auto simp: is_continuation_def)
  next
    case 3
    have "n div 64 div 64 = n div 4096" by (simp flip: div_mult2_eq)
    then have q: "n div 4096 * 64 + n div 64 mod 64 = n div 64"
      using div_mult_mod_eq [of "n div 64" 64] by simp
    from 3 have "n div 4096 < 16" "n div 64 mod 64 < 64" "n mod 64 < 64" by auto
    moreover have "n div 4096 = 0 \<Longrightarrow> 32 \<le> n div 64 mod 64"
      using 3 q by auto
    moreover have "n div 64 < 864 \<or> 896 \<le> n div 64"
      using 3 by auto
    then have "n div 4096 = 13 \<Longrightarrow> n div 64 mod 64 \<le> 31"
      using q by auto
    ultimately show ?thesis using 1 3 by (auto simp: is_continuation_def)
  next
    case 4
    then have "n div 262144 \<le> 4" by auto
    have "n div 4096 mod 64 < 64" "n div 64 mod 64 < 64" "n mod 64 < 64" by auto
    moreover have "n div 262144 = 0 \<Longrightarrow> 16 \<le> n div 4096 mod 64"
      using 4 by auto
    moreover have "n div 262144 = 4 \<Longrightarrow> n div 4096 mod 64 \<le> 15"
    proof -
      have "n div 4096 div 64 = n div 262144" by (simp flip: div_mult2_eq)
      then have "n div 262144 * 64 + n div 4096 mod 64 = n div 4096"
        using div_mult_mod_eq [of "n div 4096" 64] by simp
      moreover have "n div 4096 \<le> 271" using 4 by auto
      ultimately show "n div 262144 = 4 \<Longrightarrow> n div 4096 mod 64 \<le> 15" by simp
    qed
    ultimately have "utf8_char [char_of (240 + n div 262144), char_of (128 + n div 4096 mod 64),
        char_of (128 + n div 64 mod 64), char_of (128 + n mod 64)]"
      using \<open>n div 262144 \<le> 4\<close> by (intro utf8_char_4)
    with 1 4 show ?thesis by (simp split: if_splits)
  qed (use 1 in auto)
qed

lemma bump_depth: "bump p = (r, p') \<Longrightarrow> jp_depth p' = jp_depth p"
  by (auto simp: bump_def split: option.splits)

lemmas bump_depth_sym = bump_depth [OF sym]

lemma hex4_loop_depth: "hex4_loop n start v p = Inr (x, p') \<Longrightarrow> jp_depth p' = jp_depth p"
proof (induction n arbitrary: v p)
  case (Suc n)
  obtain r q where "bump p = (r, q)" by fastforce
  with Suc bump_depth [OF this] show ?case by (auto split: option.splits)
qed simp

lemma unicode_escape_ok: "unicode_escape p = Inr (ch, p') \<Longrightarrow> utf8_char ch \<and> jp_depth p' = jp_depth p"
proof -
  assume u: "unicode_escape p = Inr (ch, p')"
  then obtain first p1 where h: "hex4 p = Inr (first, p1)" by (auto simp: unicode_escape_def)
  obtain b1 p2 b2 p3 where b: "bump p1 = (b1, p2)" "bump p2 = (b2, p3)" by fastforce
  note d = hex4_loop_depth [OF h [unfolded hex4_def]] bump_depth [OF b(1)] bump_depth [OF b(2)]
  from u h b d show ?thesis
    by (auto simp: unicode_escape_def Let_def hex4_def split: if_splits
        dest!: char_from_u32_utf8 hex4_loop_depth)
qed

lemma escape_ok: "escape p = Inr (ch, p') \<Longrightarrow> utf8_char ch \<and> jp_depth p' = jp_depth p"
proof -
  assume e: "escape p = Inr (ch, p')"
  obtain r q where b: "bump p = (r, q)" by fastforce
  with e bump_depth [OF b] show ?thesis
    by (auto simp: escape_def split: option.splits if_splits dest: unicode_escape_ok)
qed

lemma string_loop_cases:
  assumes "string_loop out p = Inr (s, p')" and "bump p = (Some c, p1)"
  obtains "s = out" "p' = p1"
    | ch p2 where "escape p1 = Inr (ch, p2)" "string_loop (out @ ch) p2 = Inr (s, p')"
    | "code c < 0x80" "string_loop (out @ [c]) p1 = Inr (s, p')"
    | "utf8_valid (c # takeWhile is_continuation (jp_rest p1))"
      "string_loop (out @ c # takeWhile is_continuation (jp_rest p1))
         (advance (length (takeWhile is_continuation (jp_rest p1))) p1) = Inr (s, p')"
proof -
  have step: "string_loop out p =
     (if c = CHR 0x22 then Inr (out, p1)
      else if c = CHR 0x5C then and_then (escape p1) (\<lambda>(ch, p2). string_loop (out @ ch) p2)
      else if code c < 0x20 then Inl (Unexpected (jp_position p))
      else if code c < 0x80 then string_loop (out @ [c]) p1
      else if utf8_valid (c # takeWhile is_continuation (jp_rest p1))
        then string_loop (out @ c # takeWhile is_continuation (jp_rest p1))
          (advance (length (takeWhile is_continuation (jp_rest p1))) p1)
      else Inl (Unexpected (jp_position p)))"
    by (subst string_loop.simps) (simp add: assms(2) Let_def)
  consider "c = CHR 0x22" | "c = CHR 0x5C" | "c \<noteq> CHR 0x22" "c \<noteq> CHR 0x5C" "code c < 0x80"
    | "c \<noteq> CHR 0x22" "c \<noteq> CHR 0x5C" "\<not> code c < 0x80" by blast
  then show thesis
    using assms(1) unfolding step
  proof cases
    case 1
    with assms(1) step that(1) show thesis by simp
  next
    case 2
    with assms(1) step that(2) show thesis by auto
  next
    case 3
    with assms(1) step that(3) show thesis by (cases "code c < 0x20") simp_all
  next
    case 4
    with assms(1) step that(4) show thesis by (simp split: if_splits)
  qed
qed

lemma string_loop_ok:
  "string_loop out p = Inr (s, p') \<Longrightarrow> utf8_valid out \<Longrightarrow> utf8_valid s \<and> jp_depth p' = jp_depth p"
proof (induction "left p" arbitrary: out p rule: less_induct)
  case less
  obtain r p1 where b: "bump p = (r, p1)" by fastforce
  with less.prems(1) obtain c where c: "bump p = (Some c, p1)"
    by (subst (asm) string_loop.simps) (auto split: option.splits)
  have IH: "string_loop out' q = Inr (s, p') \<Longrightarrow> left q \<le> left p1 \<Longrightarrow> utf8_valid out' \<Longrightarrow>
      utf8_valid s \<and> jp_depth p' = jp_depth q" for out' q
    using less.hyps [of q out'] bump_Some [OF c] by linarith
  let ?tail = "takeWhile is_continuation (jp_rest p1)"
  note d = bump_depth [OF c]
  consider "s = out" "p' = p1"
    | ch p2 where "escape p1 = Inr (ch, p2)" "string_loop (out @ ch) p2 = Inr (s, p')"
    | "code c < 0x80" "string_loop (out @ [c]) p1 = Inr (s, p')"
    | "utf8_valid (c # ?tail)" "string_loop (out @ c # ?tail) (advance (length ?tail) p1) = Inr (s, p')"
    by (rule string_loop_cases [OF less.prems(1) c])
  then show ?case
  proof cases
    case (2 ch p2)
    with escape_ok [OF 2(1)] escape_left [OF 2(1)] less.prems(2) d IH [OF 2(2)] show ?thesis
      by (simp add: utf8_valid_char)
  next
    case 3
    then have "utf8_valid [c]" by (intro utf8_valid_char) simp
    with IH [OF 3(2)] less.prems(2) d show ?thesis by simp
  next
    case 4
    with IH [OF 4(2)] utf8_valid_append [OF less.prems(2) 4(1)] d show ?thesis by simp
  qed (use less.prems(2) d in simp)
qed

lemma expect_depth: "expect c p = Inr (u, p') \<Longrightarrow> jp_depth p' = jp_depth p"
  by (auto simp: expect_def dest: bump_depth split: prod.splits option.splits if_splits)

lemma json_string_ok: "json_string p = Inr (s, p') \<Longrightarrow> utf8_valid s \<and> jp_depth p' = jp_depth p"
  by (auto simp: json_string_def dest!: expect_depth dest: string_loop_ok)

lemma skip_depth [simp]: "jp_depth (skip_while f p) = jp_depth p" "jp_depth (skip_whitespace p) = jp_depth p"
  by (simp_all add: skip_while_def skip_whitespace_def)

lemma json_number_ok: "json_number p = Inr (v, p') \<Longrightarrow> json_wf v \<and> nest v = 0 \<and> jp_depth p' = jp_depth p"
proof -
  have "number_value k s f = Inr v \<Longrightarrow> json_wf v \<and> nest v = 0" for k s f
    by (auto simp: number_value_def parse_i64_def Let_def bind_eq_Some_conv split: if_splits option.splits prod.splits)
  moreover have "number_whole q = Inr (u, q') \<Longrightarrow> jp_depth q' = jp_depth q"
    "number_fraction q = Inr (b, q') \<Longrightarrow> jp_depth q' = jp_depth q"
    "number_exponent q = Inr (b, q') \<Longrightarrow> jp_depth q' = jp_depth q" for q q' u b
    by (auto simp: number_whole_def number_fraction_def number_exponent_def Let_def split: if_splits)
  ultimately show "json_number p = Inr (v, p') \<Longrightarrow> json_wf v \<and> nest v = 0 \<and> jp_depth p' = jp_depth p"
    by (force simp: json_number_def Let_def split: if_splits)
qed

lemma json_literal_ok: "json_literal w v p = Inr (x, p') \<Longrightarrow> x = v \<and> jp_depth p' = jp_depth p"
  by (auto simp: json_literal_def split: if_splits)

lemma enter_ok: "enter p = Inr (u, p') \<Longrightarrow> jp_depth p' = Suc (jp_depth p) \<and> jp_depth p' \<le> max_depth"
  by (auto simp: enter_def Let_def split: if_splits)

lemma leave_depth [simp]: "jp_depth (leave p) = jp_depth p - 1"
  by (simp add: leave_def)

definition fits :: "nat \<Rightarrow> json \<Rightarrow> bool" where
  "fits d v \<longleftrightarrow> json_wf v \<and> d + nest v \<le> max_depth"

lemma Max_add_le: "finite A \<Longrightarrow> (\<And>x. x \<in> A \<Longrightarrow> k + x \<le> m) \<Longrightarrow> k \<le> m \<Longrightarrow> k + Max (insert 0 A) \<le> (m :: nat)"
  by (metis Max_in add_0_right finite_insert insert_iff insert_not_empty)

lemma fits_array:
  assumes "0 < d" and "d \<le> max_depth" and "\<And>x. x \<in> set xs \<Longrightarrow> fits d x"
  shows "fits (d - 1) (JArray xs)"
proof -
  have "d + Max (insert 0 (nest ` set xs)) \<le> max_depth"
    using assms by (intro Max_add_le) (auto simp: fits_def)
  with assms show ?thesis by (simp add: fits_def)
qed

lemma fits_object:
  assumes "0 < d" and "d \<le> max_depth" and "\<And>n v. (n, v) \<in> set fs \<Longrightarrow> utf8_valid n \<and> fits d v"
    and "distinct (map fst fs)"
  shows "fits (d - 1) (JObject fs)"
proof -
  have "d + Max (insert 0 ((\<lambda>(n, v). nest v) ` set fs)) \<le> max_depth"
    using assms by (intro Max_add_le) (auto simp: fits_def)
  with assms show ?thesis by (auto simp: fits_def)
qed

text \<open>By induction over the calls of the parser, with the members read so far as hypothesis.\<close>

lemma parser_accepts:
  "json_value p = Inr (v, p') \<Longrightarrow> jp_depth p \<le> max_depth \<Longrightarrow> fits (jp_depth p) v \<and> jp_depth p' = jp_depth p"
  "json_array p = Inr (v, p') \<Longrightarrow> jp_depth p \<le> max_depth \<Longrightarrow> fits (jp_depth p) v \<and> jp_depth p' = jp_depth p"
  "json_items items p = Inr (v, p') \<Longrightarrow> 0 < jp_depth p \<Longrightarrow> jp_depth p \<le> max_depth \<Longrightarrow>
     (\<And>x. x \<in> set items \<Longrightarrow> fits (jp_depth p) x) \<Longrightarrow>
     fits (jp_depth p - 1) v \<and> jp_depth p' = jp_depth p - 1"
  "json_object_at p = Inr (v, p') \<Longrightarrow> jp_depth p \<le> max_depth \<Longrightarrow> fits (jp_depth p) v \<and> jp_depth p' = jp_depth p"
  "json_fields fs p = Inr (v, p') \<Longrightarrow> 0 < jp_depth p \<Longrightarrow> jp_depth p \<le> max_depth \<Longrightarrow>
     (\<And>n x. (n, x) \<in> set fs \<Longrightarrow> utf8_valid n \<and> fits (jp_depth p) x) \<Longrightarrow> distinct (map fst fs) \<Longrightarrow>
     fits (jp_depth p - 1) v \<and> jp_depth p' = jp_depth p - 1"
proof (induction p and p and items p and p and fs p arbitrary: v p' and v p' and v p' and v p' and v p'
    rule: json_value_json_array_json_items_json_object_at_json_fields.induct)
  case (1 p)
  from "1.prems"(1) obtain c where c: "peek p = Some c"
    by (subst (asm) json_value.simps) (auto split: option.splits)
  consider w x where "json_literal w x p = Inr (v, p')" "nest x = 0" "json_wf x"
    | s where "json_string p = Inr (s, p')" "v = JString s"
    | "c \<noteq> CHR 0x22" "c = CHR ''[''" "json_array p = Inr (v, p')"
    | "c \<noteq> CHR 0x22" "c = CHR ''{''" "json_object_at p = Inr (v, p')"
    | "json_number p = Inr (v, p')"
    using "1.prems"(1) c by (subst (asm) json_value.simps) (auto split: if_splits)
  then show ?case
  proof cases
    case 1
    with "1.prems"(2) show ?thesis by (auto simp: fits_def dest!: json_literal_ok)
  next
    case 2
    with "1.prems"(2) show ?thesis by (auto simp: fits_def dest!: json_string_ok)
  next
    case 3
    from "1.IH"(1) [OF c _ _ _ 3(1,2,3) "1.prems"(2)] 3(2) show ?thesis by simp
  next
    case 4
    from "1.IH"(2) [OF c _ _ _ 4(1) _ 4(2,3) "1.prems"(2)] 4(2) show ?thesis by simp
  next
    case 5
    with "1.prems"(2) show ?thesis by (auto simp: fits_def dest!: json_number_ok)
  qed
next
  case (2 p)
  from "2.prems"(1) obtain p1 p2 where e: "enter p = Inr ((), p1)" "expect (CHR ''['') p1 = Inr ((), p2)"
    by (subst (asm) json_array.simps) auto
  let ?p3 = "skip_whitespace p2"
  have d: "jp_depth ?p3 = Suc (jp_depth p)" "jp_depth ?p3 \<le> max_depth"
    using enter_ok [OF e(1)] expect_depth [OF e(2)] by auto
  show ?case
  proof (cases "peek ?p3 = Some (CHR '']'')")
    case True
    with "2.prems"(1) e have "v = JArray []" "p' = leave (advance 1 ?p3)"
      by (subst (asm) json_array.simps; simp add: Let_def)+
    with d show ?thesis by (simp add: fits_def)
  next
    case False
    with "2.prems"(1) e have "json_items [] ?p3 = Inr (v, p')"
      by (subst (asm) json_array.simps) (simp add: Let_def)
    from "2.IH" [OF e(1) refl e(2) refl refl False this] d show ?thesis by simp
  qed
next
  case (3 items p)
  from "3.prems"(1) obtain x p2 where x: "json_value (skip_whitespace p) = Inr (x, p2)"
    by (subst (asm) json_items.simps) auto
  obtain r p4 where b: "bump (skip_whitespace p2) = (r, p4)" by fastforce
  with "3.prems"(1) x obtain c where c: "r = Some c"
    by (subst (asm) json_items.simps) (auto split: option.splits)
  have fx: "fits (jp_depth p) x" "jp_depth p4 = jp_depth p"
    using "3.IH"(1) [OF x] "3.prems"(3) bump_depth [OF b] by auto
  have items: "fits (jp_depth p) y" if "y \<in> set (items @ [x])" for y
    using that fx(1) "3.prems"(4) by auto
  show ?case
  proof (cases "c = CHR '',''")
    case True
    with "3.prems"(1) x b c have "json_items (items @ [x]) p4 = Inr (v, p')"
      by (subst (asm) json_items.simps) simp
    from "3.IH"(2) [OF x refl b [unfolded c, symmetric] refl True this] "3.prems"(2,3) fx(2) items show ?thesis by simp
  next
    case False
    with "3.prems"(1) x b c have "v = JArray (items @ [x])" "p' = leave p4"
      by (subst (asm) json_items.simps; simp split: if_splits)+
    moreover have "fits (jp_depth p - 1) (JArray (items @ [x]))"
      by (rule fits_array [OF "3.prems"(2,3)]) (rule items)
    ultimately show ?thesis using fx(2) by simp
  qed
next
  case (4 p)
  from "4.prems"(1) obtain p1 p2 where e: "enter p = Inr ((), p1)" "expect (CHR ''{'') p1 = Inr ((), p2)"
    by (subst (asm) json_object_at.simps) auto
  let ?p3 = "skip_whitespace p2"
  have d: "jp_depth ?p3 = Suc (jp_depth p)" "jp_depth ?p3 \<le> max_depth"
    using enter_ok [OF e(1)] expect_depth [OF e(2)] by auto
  show ?case
  proof (cases "peek ?p3 = Some (CHR ''}'')")
    case True
    with "4.prems"(1) e have "v = JObject []" "p' = leave (advance 1 ?p3)"
      by (subst (asm) json_object_at.simps; simp add: Let_def)+
    with d show ?thesis by (simp add: fits_def)
  next
    case False
    with "4.prems"(1) e have "json_fields [] ?p3 = Inr (v, p')"
      by (subst (asm) json_object_at.simps) (simp add: Let_def)
    from "4.IH" [OF e(1) refl e(2) refl refl False this] d show ?thesis by simp
  qed
next
  case (5 fs p)
  let ?p1 = "skip_whitespace p"
  from "5.prems"(1) obtain name p2 p3 x p4 where q: "\<not> peek ?p1 \<noteq> Some (CHR 0x22)"
    and n: "json_string ?p1 = Inr (name, p2)" and new: "\<not> list_ex (\<lambda>(existing, _). existing = name) fs"
    and e: "expect (CHR '':'') (skip_whitespace p2) = Inr ((), p3)" and x: "json_value (skip_whitespace p3) = Inr (x, p4)"
    by (subst (asm) json_fields.simps) (auto simp: Let_def split: if_splits)
  obtain r p6 where b: "bump (skip_whitespace p4) = (r, p6)" by fastforce
  with "5.prems"(1) q n new e x obtain c where c: "r = Some c"
    by (subst (asm) json_fields.simps) (auto simp: Let_def split: option.splits)
  have d: "jp_depth (skip_whitespace p3) = jp_depth p" "utf8_valid name"
    using json_string_ok [OF n] expect_depth [OF e] by auto
  have fx: "fits (jp_depth p) x" "jp_depth p6 = jp_depth p"
    using "5.IH"(1) [OF refl q n refl new e refl x] "5.prems"(3) d bump_depth [OF b] by auto
  have members: "utf8_valid m \<and> fits (jp_depth p) y" if "(m, y) \<in> set (fs @ [(name, x)])" for m y
    using that fx(1) d(2) "5.prems"(4) by auto
  have dist: "distinct (map fst (fs @ [(name, x)]))"
    using new "5.prems"(5) by (auto simp: list_ex_iff)
  show ?case
  proof (cases "c = CHR '',''")
    case True
    with "5.prems"(1) q n new e x b c have "json_fields (fs @ [(name, x)]) p6 = Inr (v, p')"
      by (subst (asm) json_fields.simps) (simp add: Let_def)
    from "5.IH"(2) [OF refl q n refl new e refl x refl b [unfolded c, symmetric] refl True this] "5.prems"(2,3) fx(2) members dist
    show ?thesis by simp
  next
    case False
    with "5.prems"(1) q n new e x b c have "v = JObject (fs @ [(name, x)])" "p' = leave p6"
      by (subst (asm) json_fields.simps; simp add: Let_def split: if_splits)+
    moreover have "fits (jp_depth p - 1) (JObject (fs @ [(name, x)]))"
      by (rule fits_object [OF "5.prems"(2,3) _ dist]) (rule members)
    ultimately show ?thesis using fx(2) by simp
  qed
qed

lemma json_parse_accepts: "json_parse s = Inr v \<Longrightarrow> json_wf v \<and> nest v \<le> max_depth"
  by (auto simp: json_parse_def Let_def fits_def split: if_splits dest!: parser_accepts(1))

section \<open>Properties\<close>

text \<open>
  C26: The parser reads back what the renderer wrote: a value without floating-point numbers whose
  strings are text, whose integers fit 64 bits, whose object names are distinct and whose nesting
  the parser allows is recovered exactly, escapes and all.
\<close>

theorem json_roundtrip:
  assumes "json_wf v" and "no_float v" and "nest v \<le> max_depth"
  shows "json_parse (render v) = Inr v"
  using assms by (rule json_parse_render)

theorem json_roundtrip_witness:
  "\<exists>v. json_parse (render v) = Inr v \<and>
     v = JObject [(''k'', JArray [JInt (-5), JString [CHR 0x22, CHR 0x0A], JNull])]"
  by (intro exI conjI json_roundtrip)
    (simp_all add: i64_min_def i64_max_def max_depth_def utf8_valid_def is_continuation_def)

text \<open>
  C27: Whatever the parser accepts is well formed: no object repeats a name, every string is valid
  UTF-8 (also through surrogate escapes), every integer fits 64 bits, and no value is nested deeper
  than the limit that keeps the recursion off the end of the stack.
\<close>

theorem json_parse_strict:
  "json_parse s = Inr v \<Longrightarrow> json_wf v \<and> nest v \<le> max_depth"
  by (rule json_parse_accepts)

theorem json_parse_strict_witness:
  "json_parse ''[]'' = Inr (JArray []) \<and> json_wf (JArray []) \<and> nest (JArray []) \<le> max_depth"
proof -
  have "json_parse (render (JArray [])) = Inr (JArray [])"
    by (rule json_parse_render) (simp_all add: max_depth_def)
  then have "json_parse ''[]'' = Inr (JArray [])"
    by (simp add: separated_def)
  with json_parse_strict [OF this] show ?thesis by blast
qed

text \<open>
  Parsing ends on every input: each value it returns has consumed at least one byte, which is
  what bounds the five mutually recursive functions.
\<close>

lemma json_value_consumes:
  "json_value p = Inr (v, p') \<Longrightarrow> length (jp_rest p') < length (jp_rest p)"
  by (rule json_value_left)

theorem json_value_consumes_witness:
  "json_value \<lparr>jp_rest = ''null'', jp_position = 0, jp_depth = 0\<rparr> =
     Inr (JNull, \<lparr>jp_rest = [], jp_position = 4, jp_depth = 0\<rparr>) \<and> (0::nat) < 4"
proof -
  have *: "json_value \<lparr>jp_rest = ''null'', jp_position = 0, jp_depth = 0\<rparr> =
     Inr (JNull, \<lparr>jp_rest = [], jp_position = 4, jp_depth = 0\<rparr>)"
    using json_literal_jp [of "''null''" JNull "[]" 0 0]
    by (simp add: json_value.simps)
  from json_value_consumes [OF this] * show ?thesis by simp
qed

end
