(* ===== verification/World.thy ===== *)
theory World
  imports LS_Prelude
begin

text \<open>
  What the program sees of the machine it runs on, and \<open>ls-core/src/random.rs\<close>.

  A \<open>world\<close> holds the answers the operating system will give: the entropy source answers the
  \<open>n\<close>-th request with a stream of bytes or refuses it, the clock has a reading for every time it
  is looked at, and the \<open>n\<close>-th file operation either succeeds or fails (a write that fails may
  have written a prefix first, whose length the fault says). Files are inodes, so that a handle
  that stays open across a rename keeps naming the file it was opened on. Every operation returns
  the world it leaves behind; nothing is assumed about the answers.
\<close>

type_synonym path = str
type_synonym inode = nat

record world =
  entropy :: "nat \<Rightarrow> (nat \<Rightarrow> byte) option"
  draws :: nat
  clock :: "nat \<Rightarrow> int"
  looks :: nat
  fault :: "nat \<Rightarrow> nat option"
  calls :: nat
  dir :: "path \<rightharpoonup> inode"
  contents :: "inode \<Rightarrow> bytes"
  next_inode :: inode

text \<open>A computation with effects.\<close>

type_synonym ('e, 'a) io = "world \<Rightarrow> ('e + 'a) \<times> world"

definition ret :: "'a \<Rightarrow> ('e, 'a) io" where
  "ret x w = (Inr x, w)"

definition fail :: "'e \<Rightarrow> ('e, 'a) io" where
  "fail e w = (Inl e, w)"

definition bindio :: "('e, 'a) io \<Rightarrow> ('a \<Rightarrow> ('e, 'b) io) \<Rightarrow> ('e, 'b) io" where
  "bindio m f w = (case m w of (Inl e, w') \<Rightarrow> (Inl e, w') | (Inr x, w') \<Rightarrow> f x w')"

definition mapE :: "('e \<Rightarrow> 'f) \<Rightarrow> ('e, 'a) io \<Rightarrow> ('f, 'a) io" where
  "mapE h m w = (case m w of (r, w') \<Rightarrow> (map_err h r, w'))"

definition liftR :: "'e + 'a \<Rightarrow> ('e, 'a) io" where
  "liftR r w = (r, w)"

text \<open>A loop over a slice whose body may return early with an error.\<close>

primrec for_each :: "('a \<Rightarrow> ('e, unit) io) \<Rightarrow> 'a list \<Rightarrow> ('e, unit) io" where
  "for_each f [] = ret ()"
| "for_each f (x # xs) = bindio (f x) (\<lambda>_. for_each f xs)"

named_theorems io_simps \<open>execution of effectful code\<close>

lemma ret_apply [io_simps]: "ret x w = (Inr x, w)"
  by (simp add: ret_def)

lemma fail_apply [io_simps]: "fail e w = (Inl e, w)"
  by (simp add: fail_def)

lemma liftR_apply [io_simps]: "liftR r w = (r, w)"
  by (simp add: liftR_def)

lemma bindio_Inr [io_simps]: "m w = (Inr x, w') \<Longrightarrow> bindio m f w = f x w'"
  by (simp add: bindio_def)

lemma bindio_Inl [io_simps]: "m w = (Inl e, w') \<Longrightarrow> bindio m f w = (Inl e, w')"
  by (simp add: bindio_def)

lemma bindio_eq_Inr:
  "bindio m f w = (Inr y, w2) \<longleftrightarrow> (\<exists>x w1. m w = (Inr x, w1) \<and> f x w1 = (Inr y, w2))"
  by (auto simp: bindio_def split: prod.splits sum.splits)

lemma bindio_eq_Inl:
  "bindio m f w = (Inl e, w2) \<longleftrightarrow>
     m w = (Inl e, w2) \<or> (\<exists>x w1. m w = (Inr x, w1) \<and> f x w1 = (Inl e, w2))"
  by (auto simp: bindio_def split: prod.splits sum.splits)

lemma mapE_eq_Inr: "mapE h m w = (Inr y, w2) \<longleftrightarrow> m w = (Inr y, w2)"
  by (auto simp: mapE_def split: prod.splits)

lemma mapE_eq_Inl: "mapE h m w = (Inl e, w2) \<longleftrightarrow> (\<exists>d. m w = (Inl d, w2) \<and> e = h d)"
  by (auto simp: mapE_def map_err_def split: prod.splits sum.splits)

text \<open>
  A triple: started in a world that satisfies \<open>P\<close>, a computation that returns \<open>x\<close> leaves a world
  with \<open>Q x\<close>, one that fails with \<open>e\<close> a world with \<open>E e\<close>.
\<close>

definition triple ::
  "(world \<Rightarrow> bool) \<Rightarrow> ('e, 'a) io \<Rightarrow> ('a \<Rightarrow> world \<Rightarrow> bool) \<Rightarrow> ('e \<Rightarrow> world \<Rightarrow> bool) \<Rightarrow> bool" where
  "triple P m Q E \<longleftrightarrow> (\<forall>w. P w \<longrightarrow> (case m w of (Inr x, w') \<Rightarrow> Q x w' | (Inl e, w') \<Rightarrow> E e w'))"

lemma tripleI:
  "(\<And>w r w'. P w \<Longrightarrow> m w = (r, w') \<Longrightarrow> (case r of Inr x \<Rightarrow> Q x w' | Inl e \<Rightarrow> E e w')) \<Longrightarrow> triple P m Q E"
  by (fastforce simp: triple_def split: prod.splits sum.splits)

lemma triple_Inr: "triple P m Q E \<Longrightarrow> P w \<Longrightarrow> m w = (Inr x, w') \<Longrightarrow> Q x w'"
  by (auto simp: triple_def dest!: spec [of _ w])

lemma triple_Inl: "triple P m Q E \<Longrightarrow> P w \<Longrightarrow> m w = (Inl e, w') \<Longrightarrow> E e w'"
  by (auto simp: triple_def dest!: spec [of _ w])

lemma triple_bind:
  assumes "triple P m R E" and "\<And>x. triple (R x) (f x) Q E"
  shows "triple P (bindio m f) Q E"
proof (rule tripleI)
  fix w r w' assume "P w" "bindio m f w = (r, w')"
  with assms(1) assms(2) show "case r of Inr x \<Rightarrow> Q x w' | Inl e \<Rightarrow> E e w'"
    by (cases r) (auto simp: bindio_eq_Inr bindio_eq_Inl dest: triple_Inr triple_Inl)
qed

lemma triple_ret: "(\<And>w. P w \<Longrightarrow> Q x w) \<Longrightarrow> triple P (ret x) Q E"
  by (auto simp: triple_def ret_def)

lemma triple_fail: "(\<And>w. P w \<Longrightarrow> E e w) \<Longrightarrow> triple P (fail e) Q E"
  by (auto simp: triple_def fail_def)

lemma triple_mapE: "triple P m Q (\<lambda>e. E (h e)) \<Longrightarrow> triple P (mapE h m) Q E"
  by (fastforce simp: triple_def mapE_def map_err_def split: prod.splits sum.splits)

lemma triple_conseq:
  "triple P' m Q' E' \<Longrightarrow> (\<And>w. P w \<Longrightarrow> P' w) \<Longrightarrow> (\<And>x w. Q' x w \<Longrightarrow> Q x w) \<Longrightarrow>
   (\<And>e w. E' e w \<Longrightarrow> E e w) \<Longrightarrow> triple P m Q E"
  by (fastforce simp: triple_def split: prod.splits sum.splits)

lemma triple_if:
  "(b \<Longrightarrow> triple P m Q E) \<Longrightarrow> (\<not> b \<Longrightarrow> triple P n Q E) \<Longrightarrow> triple P (if b then m else n) Q E"
  by simp

section \<open>Entropy\<close>

datatype entropy_error = EntropyError

definition random_fill :: "nat \<Rightarrow> (entropy_error, bytes) io" where
  "random_fill n w =
     (case entropy w (draws w) of
        None \<Rightarrow> (Inl EntropyError, w\<lparr>draws := Suc (draws w)\<rparr>)
      | Some f \<Rightarrow> (Inr (map f [0..<n]), w\<lparr>draws := Suc (draws w)\<rparr>))"

text \<open>\<open>bytes::<N>\<close>: a zeroed array that \<open>fill\<close> overwrites.\<close>

definition random_bytes :: "nat \<Rightarrow> (entropy_error, bytes) io" where
  "random_bytes n = random_fill n"

lemma random_fill_length: "random_fill n w = (Inr bs, w') \<Longrightarrow> length bs = n"
  by (auto simp: random_fill_def split: option.splits)

lemma random_bytes_length: "random_bytes n w = (Inr bs, w') \<Longrightarrow> length bs = n"
  by (simp add: random_bytes_def random_fill_length)

lemma random_fill_world: "snd (random_fill n w) = w\<lparr>draws := Suc (draws w)\<rparr>"
  by (auto simp: random_fill_def split: option.splits)

lemma random_fill_worldD: "random_fill n w = (r, w') \<Longrightarrow> w' = w\<lparr>draws := Suc (draws w)\<rparr>"
  by (metis random_fill_world snd_conv)

lemma random_bytes_worldD: "random_bytes n w = (r, w') \<Longrightarrow> w' = w\<lparr>draws := Suc (draws w)\<rparr>"
  by (simp add: random_bytes_def random_fill_worldD)

section \<open>The clock\<close>

text \<open>A reading of the system clock, in whole seconds relative to the epoch.\<close>

definition read_clock :: "world \<Rightarrow> int \<times> world" where
  "read_clock w = (clock w (looks w), w\<lparr>looks := Suc (looks w)\<rparr>)"

section \<open>Files\<close>

datatype io_error = IoNotFound | IoFailed

text \<open>The fate of the next file operation.\<close>

definition next_fault :: "world \<Rightarrow> nat option \<times> world" where
  "next_fault w = (fault w (calls w), w\<lparr>calls := Suc (calls w)\<rparr>)"

record handle =
  h_inode :: inode
  h_offset :: nat

definition set_contents :: "inode \<Rightarrow> bytes \<Rightarrow> world \<Rightarrow> world" where
  "set_contents i bs w = w\<lparr>contents := (contents w)(i := bs)\<rparr>"

text \<open>\<open>Path::exists\<close> answers false when the file cannot be looked at.\<close>

definition fs_exists :: "path \<Rightarrow> world \<Rightarrow> bool \<times> world" where
  "fs_exists p w = (case next_fault w of (ft, w') \<Rightarrow> (ft = None \<and> dir w p \<noteq> None, w'))"

text \<open>Open for reading and writing, creating an empty file when there is none.\<close>

definition fs_open_create :: "path \<Rightarrow> (io_error, handle) io" where
  "fs_open_create p w =
     (case next_fault w of
        (Some _, w') \<Rightarrow> (Inl IoFailed, w')
      | (None, w') \<Rightarrow>
          (case dir w' p of
             Some i \<Rightarrow> (Inr \<lparr>h_inode = i, h_offset = 0\<rparr>, w')
           | None \<Rightarrow>
               (Inr \<lparr>h_inode = next_inode w', h_offset = 0\<rparr>,
                set_contents (next_inode w') []
                  (w'\<lparr>dir := (dir w')(p \<mapsto> next_inode w'), next_inode := Suc (next_inode w')\<rparr>))))"

text \<open>Open for reading only.\<close>

definition fs_open_read :: "path \<Rightarrow> (io_error, handle) io" where
  "fs_open_read p w =
     (case next_fault w of
        (Some _, w') \<Rightarrow> (Inl IoFailed, w')
      | (None, w') \<Rightarrow>
          (case dir w' p of
             Some i \<Rightarrow> (Inr \<lparr>h_inode = i, h_offset = 0\<rparr>, w')
           | None \<Rightarrow> (Inl IoNotFound, w')))"

definition fs_len :: "handle \<Rightarrow> (io_error, nat) io" where
  "fs_len h w =
     (case next_fault w of
        (Some _, w') \<Rightarrow> (Inl IoFailed, w')
      | (None, w') \<Rightarrow> (Inr (length (contents w' (h_inode h))), w'))"

text \<open>Bytes written at an offset; a gap before it reads as zeroes.\<close>

definition write_at :: "nat \<Rightarrow> bytes \<Rightarrow> bytes \<Rightarrow> bytes" where
  "write_at off new old =
     take off old @ replicate (off - length old) 0 @ new @ drop (off + length new) old"

text \<open>\<open>write_all\<close>: a failure leaves a prefix of the bytes in the file.\<close>

definition fs_write_all :: "handle \<Rightarrow> bytes \<Rightarrow> (io_error, handle) io" where
  "fs_write_all h bs w =
     (case next_fault w of
        (Some k, w') \<Rightarrow>
          (Inl IoFailed, set_contents (h_inode h)
             (write_at (h_offset h) (take k bs) (contents w' (h_inode h))) w')
      | (None, w') \<Rightarrow>
          (Inr (h\<lparr>h_offset := h_offset h + length bs\<rparr>), set_contents (h_inode h)
             (write_at (h_offset h) bs (contents w' (h_inode h))) w'))"

text \<open>An operation that succeeds or fails and changes no contents: \<open>sync_data\<close>, \<open>sync_all\<close>.\<close>

definition fs_sync :: "handle \<Rightarrow> (io_error, unit) io" where
  "fs_sync h w = (case next_fault w of (Some _, w') \<Rightarrow> (Inl IoFailed, w') | (None, w') \<Rightarrow> (Inr (), w'))"

definition fs_seek :: "nat \<Rightarrow> handle \<Rightarrow> (io_error, handle) io" where
  "fs_seek n h w =
     (case next_fault w of
        (Some _, w') \<Rightarrow> (Inl IoFailed, w')
      | (None, w') \<Rightarrow> (Inr (h\<lparr>h_offset := n\<rparr>), w'))"

definition fs_seek_end :: "handle \<Rightarrow> (io_error, handle) io" where
  "fs_seek_end h w =
     (case next_fault w of
        (Some _, w') \<Rightarrow> (Inl IoFailed, w')
      | (None, w') \<Rightarrow> (Inr (h\<lparr>h_offset := length (contents w' (h_inode h))\<rparr>), w'))"

definition fs_set_len :: "handle \<Rightarrow> nat \<Rightarrow> (io_error, unit) io" where
  "fs_set_len h n w =
     (case next_fault w of
        (Some _, w') \<Rightarrow> (Inl IoFailed, w')
      | (None, w') \<Rightarrow>
          (let old = contents w' (h_inode h)
           in (Inr (), set_contents (h_inode h) (take n old @ replicate (n - length old) 0) w')))"

definition fs_remove :: "path \<Rightarrow> (io_error, unit) io" where
  "fs_remove p w =
     (case next_fault w of
        (Some _, w') \<Rightarrow> (Inl IoFailed, w')
      | (None, w') \<Rightarrow>
          (case dir w' p of
             None \<Rightarrow> (Inl IoNotFound, w')
           | Some _ \<Rightarrow> (Inr (), w'\<lparr>dir := (dir w')(p := None)\<rparr>)))"

definition fs_rename :: "path \<Rightarrow> path \<Rightarrow> (io_error, unit) io" where
  "fs_rename p q w =
     (case next_fault w of
        (Some _, w') \<Rightarrow> (Inl IoFailed, w')
      | (None, w') \<Rightarrow>
          (case dir w' p of
             None \<Rightarrow> (Inl IoNotFound, w')
           | Some i \<Rightarrow> (Inr (), w'\<lparr>dir := (dir w')(p := None, q \<mapsto> i)\<rparr>)))"

text \<open>
  Up to \<open>n\<close> bytes from the handle on, fewer at the end of the file: the reads of \<open>read_fully\<close>.
\<close>

definition fs_read :: "handle \<Rightarrow> nat \<Rightarrow> (io_error, bytes \<times> handle) io" where
  "fs_read h n w =
     (case next_fault w of
        (Some _, w') \<Rightarrow> (Inl IoFailed, w')
      | (None, w') \<Rightarrow>
          (let got = take n (drop (h_offset h) (contents w' (h_inode h)))
           in (Inr (got, h\<lparr>h_offset := h_offset h + length got\<rparr>), w')))"

text \<open>
  \<open>Path::with_extension\<close>: the last component without what follows its last dot (a leading dot
  starts no extension), then the extension. A path that ends in no file name is left alone.
\<close>

definition file_stem :: "str \<Rightarrow> str" where
  "file_stem name =
     (let stem = rev (tl (dropWhile (\<lambda>c. c \<noteq> CHR ''.'') (rev name)))
      in if stem = [] then name else stem)"

definition with_extension :: "str \<Rightarrow> path \<Rightarrow> path" where
  "with_extension ext p =
     (let name = last (split_on (CHR ''/'') p);
          before = take (length p - length name) p
      in if name = [] \<or> name = ''.'' \<or> name = ''..'' then p
         else before @ file_stem name @ ''.'' @ ext)"

text \<open>Opening a directory and flushing it, in that order, whatever comes of it.\<close>

definition flush_directory :: "world \<Rightarrow> world" where
  "flush_directory w =
     (case next_fault w of (Some _, w1) \<Rightarrow> w1 | (None, w1) \<Rightarrow> snd (next_fault w1))"

lemma write_at_end: "write_at (length old) new old = old @ new"
  by (simp add: write_at_def)

text \<open>A world whose file operations all succeed from some point on.\<close>

definition fs_healthy :: "world \<Rightarrow> bool" where
  "fs_healthy w \<longleftrightarrow> (\<forall>n \<ge> calls w. fault w n = None)"

lemma next_fault_healthy: "fs_healthy w \<Longrightarrow> next_fault w = (None, w\<lparr>calls := Suc (calls w)\<rparr>)"
  by (simp add: fs_healthy_def next_fault_def)

lemma fs_healthy_Suc [simp]: "fs_healthy w \<Longrightarrow> fs_healthy (w\<lparr>calls := Suc (calls w)\<rparr>)"
  by (simp add: fs_healthy_def)

lemma set_contents_simps [simp]:
  "contents (set_contents i bs w) = (contents w)(i := bs)"
  "dir (set_contents i bs w) = dir w" "calls (set_contents i bs w) = calls w"
  "fault (set_contents i bs w) = fault w" "next_inode (set_contents i bs w) = next_inode w"
  "entropy (set_contents i bs w) = entropy w" "draws (set_contents i bs w) = draws w"
  "clock (set_contents i bs w) = clock w" "looks (set_contents i bs w) = looks w"
  by (simp_all add: set_contents_def)

lemma fs_healthy_set_contents [simp]: "fs_healthy (set_contents i bs w) = fs_healthy w"
  by (simp add: fs_healthy_def)

lemma fs_healthy_calls [simp]: "fs_healthy w \<Longrightarrow> calls w \<le> n \<Longrightarrow> fs_healthy (w\<lparr>calls := n\<rparr>)"
  by (simp add: fs_healthy_def)

text \<open>What the operations do when they succeed.\<close>

named_theorems healthy_simps \<open>file operations in a healthy world\<close>

lemma fs_ops_healthy [healthy_simps]:
  assumes "fs_healthy w"
  shows "fs_exists p w = (dir w p \<noteq> None, w\<lparr>calls := Suc (calls w)\<rparr>)"
    and "dir w p = Some i \<Longrightarrow> fs_open_create p w = (Inr \<lparr>h_inode = i, h_offset = 0\<rparr>, w\<lparr>calls := Suc (calls w)\<rparr>)"
    and "dir w p = Some i \<Longrightarrow> fs_open_read p w = (Inr \<lparr>h_inode = i, h_offset = 0\<rparr>, w\<lparr>calls := Suc (calls w)\<rparr>)"
    and "fs_len h w = (Inr (length (contents w (h_inode h))), w\<lparr>calls := Suc (calls w)\<rparr>)"
    and "fs_sync h w = (Inr (), w\<lparr>calls := Suc (calls w)\<rparr>)"
    and "fs_seek n h w = (Inr (h\<lparr>h_offset := n\<rparr>), w\<lparr>calls := Suc (calls w)\<rparr>)"
    and "fs_seek_end h w = (Inr (h\<lparr>h_offset := length (contents w (h_inode h))\<rparr>), w\<lparr>calls := Suc (calls w)\<rparr>)"
    and "fs_write_all h bs w = (Inr (h\<lparr>h_offset := h_offset h + length bs\<rparr>),
      set_contents (h_inode h) (write_at (h_offset h) bs (contents w (h_inode h))) (w\<lparr>calls := Suc (calls w)\<rparr>))"
    and "fs_set_len h n w = (Inr (), set_contents (h_inode h)
      (take n (contents w (h_inode h)) @ replicate (n - length (contents w (h_inode h))) 0) (w\<lparr>calls := Suc (calls w)\<rparr>))"
    and "fs_read h n w = (Inr (take n (drop (h_offset h) (contents w (h_inode h))),
      h\<lparr>h_offset := h_offset h + min n (length (contents w (h_inode h)) - h_offset h)\<rparr>), w\<lparr>calls := Suc (calls w)\<rparr>)"
  by (simp_all add: next_fault_healthy [OF assms] fs_exists_def fs_open_create_def fs_open_read_def fs_len_def
      fs_sync_def fs_seek_def fs_seek_end_def fs_write_all_def fs_set_len_def fs_read_def Let_def min.commute)

end
