(* ===== verification/Timestamp.thy ===== *)
theory Timestamp
  imports Codec World "HOL-Library.Signed_Division"
begin

text \<open>
  \<open>ls-core/src/time.rs\<close>: UTC timestamps and their fixed RFC 3339 form. Rust's \<open>/\<close> and \<open>%\<close> on
  signed integers truncate towards zero, so they are \<open>sdiv\<close> and \<open>smod\<close>; \<open>div_euclid\<close> and
  \<open>rem_euclid\<close> by a positive number are \<open>div\<close> and \<open>mod\<close>. All quantities stay far inside 64 bits
  because a timestamp is clamped to the years 0 to 9999 when it is built; the one addition that
  could overflow saturates.

  The calendar conversions are shown exact through the decomposition of a year of the 400-year era
  into centuries, leap cycles and years.
\<close>

section \<open>The code\<close>

datatype timestamp = Timestamp (unix_seconds: int)

instantiation timestamp :: linorder
begin

definition less_eq_timestamp :: "timestamp \<Rightarrow> timestamp \<Rightarrow> bool" where
  "less_eq_timestamp s t \<longleftrightarrow> unix_seconds s \<le> unix_seconds t"

definition less_timestamp :: "timestamp \<Rightarrow> timestamp \<Rightarrow> bool" where
  "less_timestamp s t \<longleftrightarrow> unix_seconds s < unix_seconds t"

instance
  by standard (auto simp: less_eq_timestamp_def less_timestamp_def timestamp.expand)

end

definition min_unix :: int where
  "min_unix = - 62167219200"

definition max_unix :: int where
  "max_unix = 253402300799"

definition from_unix :: "int \<Rightarrow> timestamp" where
  "from_unix seconds =
     (if seconds < min_unix then Timestamp min_unix
      else if seconds > max_unix then Timestamp max_unix
      else Timestamp seconds)"

text \<open>
  \<open>i64::try_from\<close> of an unsigned second count saturates in \<open>now\<close>; before 1970 the count is
  negated.
\<close>

definition now :: "world \<Rightarrow> timestamp \<times> world" where
  "now w = (case read_clock w of (s, w') \<Rightarrow>
     (from_unix (if s \<ge> 0 then (if s \<le> i64_max then s else i64_max)
                 else (if - s \<le> i64_max then s else i64_min)), w'))"

definition saturating_add :: "int \<Rightarrow> int \<Rightarrow> int" where
  "saturating_add a b = (if a + b > i64_max then i64_max else if a + b < i64_min then i64_min else a + b)"

definition plus_seconds :: "timestamp \<Rightarrow> int \<Rightarrow> timestamp" where
  "plus_seconds t seconds = from_unix (saturating_add (unix_seconds t) seconds)"

definition is_leap_year :: "int \<Rightarrow> bool" where
  "is_leap_year year \<longleftrightarrow> (year smod 4 = 0 \<and> year smod 100 \<noteq> 0) \<or> year smod 400 = 0"

definition days_in_month :: "int \<Rightarrow> int \<Rightarrow> int" where
  "days_in_month year month =
     (if month \<in> {1, 3, 5, 7, 8, 10, 12} then 31
      else if month \<in> {4, 6, 9, 11} then 30
      else if month = 2 \<and> is_leap_year year then 29
      else if month = 2 then 28
      else 0)"

definition days_from_civil :: "int \<Rightarrow> int \<Rightarrow> int \<Rightarrow> int" where
  "days_from_civil year0 month day =
     (let year = (if month \<le> 2 then year0 - 1 else year0);
          era = (if year \<ge> 0 then year else year - 399) sdiv 400;
          year_of_era = year - era * 400;
          day_of_year = (153 * (month + (if month > 2 then - 3 else 9)) + 2) sdiv 5 + day - 1;
          day_of_era = year_of_era * 365 + year_of_era sdiv 4 - year_of_era sdiv 100 + day_of_year
      in era * 146097 + day_of_era - 719468)"

definition civil_from_days :: "int \<Rightarrow> int \<times> int \<times> int" where
  "civil_from_days days0 =
     (let days = days0 + 719468;
          era = (if days \<ge> 0 then days else days - 146096) sdiv 146097;
          day_of_era = days - era * 146097;
          year_of_era = (day_of_era - day_of_era sdiv 1460 + day_of_era sdiv 36524 - day_of_era sdiv 146096) sdiv 365;
          year = year_of_era + era * 400;
          day_of_year = day_of_era - (365 * year_of_era + year_of_era sdiv 4 - year_of_era sdiv 100);
          shifted_month = (5 * day_of_year + 2) sdiv 153;
          day = day_of_year - (153 * shifted_month + 2) sdiv 5 + 1;
          month = shifted_month + (if shifted_month < 10 then 3 else - 9)
      in (year + (if month \<le> 2 then 1 else 0), month, day))"

text \<open>\<open>{n:0w}\<close>: at least \<open>w\<close> characters, zeroes after the sign.\<close>

definition pad_zero :: "nat \<Rightarrow> int \<Rightarrow> str" where
  "pad_zero w n =
     (let ds = show_nat (nat \<bar>n\<bar>); sign = (if n < 0 then ''-'' else [])
      in sign @ replicate (w - length sign - length ds) (CHR ''0'') @ ds)"

definition to_rfc3339 :: "timestamp \<Rightarrow> str" where
  "to_rfc3339 t =
     (let days = unix_seconds t div 86400;
          second_of_day = unix_seconds t mod 86400;
          (year, month, day) = civil_from_days days
      in pad_zero 4 year @ ''-'' @ pad_zero 2 month @ ''-'' @ pad_zero 2 day @ ''T'' @
         pad_zero 2 (second_of_day sdiv 3600) @ '':'' @
         pad_zero 2 ((second_of_day smod 3600) sdiv 60) @ '':'' @
         pad_zero 2 (second_of_day smod 60) @ ''Z'')"

fun number_loop :: "int \<Rightarrow> str \<Rightarrow> int option" where
  "number_loop n [] = Some n"
| "number_loop n (c # cs) =
     (if \<not> is_ascii_digit c then None else number_loop (n * 10 + (int (code c) - 48)) cs)"

definition number :: "str \<Rightarrow> int option" where
  "number digits = number_loop 0 digits"

text \<open>\<open>&bytes[a..b]\<close>\<close>

definition slice :: "nat \<Rightarrow> nat \<Rightarrow> 'a list \<Rightarrow> 'a list" where
  "slice a b xs = take (b - a) (drop a xs)"

definition parse_rfc3339 :: "str \<Rightarrow> timestamp option" where
  "parse_rfc3339 text =
     (if length text \<noteq> 20 then None
      else if text ! 4 \<noteq> CHR ''-'' \<or> text ! 7 \<noteq> CHR ''-'' \<or> text ! 10 \<noteq> CHR ''T'' then None
      else if text ! 13 \<noteq> CHR '':'' \<or> text ! 16 \<noteq> CHR '':'' \<or> text ! 19 \<noteq> CHR ''Z'' then None
      else Option.bind (number (slice 0 4 text)) (\<lambda>year.
           Option.bind (number (slice 5 7 text)) (\<lambda>month.
           Option.bind (number (slice 8 10 text)) (\<lambda>day.
           Option.bind (number (slice 11 13 text)) (\<lambda>hour.
           Option.bind (number (slice 14 16 text)) (\<lambda>minute.
           Option.bind (number (slice 17 19 text)) (\<lambda>second.
             if \<not> (1 \<le> month \<and> month \<le> 12) \<or> day < 1 \<or> day > days_in_month year month then None
             else if hour > 23 \<or> minute > 59 \<or> second > 59 then None
             else Some (Timestamp (days_from_civil year month day * 86400 + hour * 3600 + minute * 60 + second)))))))))"

section \<open>Truncating division\<close>

lemma sdiv_nonneg [simp]: "0 \<le> a \<Longrightarrow> 0 < b \<Longrightarrow> a sdiv b = a div (b :: int)"
  by (cases "a = 0") (simp_all add: signed_divide_int_def)

lemma smod_nonneg [simp]: "0 \<le> a \<Longrightarrow> 0 < b \<Longrightarrow> a smod b = a mod (b :: int)"
  by (simp add: smod_mod_positive)

lemma smod_eq_0: "a smod b = 0 \<longleftrightarrow> b dvd (a :: int)"
  by (auto simp: signed_modulo_int_def sgn_if simp flip: dvd_eq_mod_eq_0)

lemma div_unique_int: "x = k * q + r \<Longrightarrow> 0 \<le> r \<Longrightarrow> r < k \<Longrightarrow> x div k = (q :: int)"
  by (rule int_div_pos_eq)

lemma floor_div:
  assumes "0 < (k :: int)"
  shows "(if x \<ge> 0 then x else x - (k - 1)) sdiv k = x div k"
proof (cases "x \<ge> 0")
  case False
  let ?n = "k - 1 - x"
  have "x - (k - 1) = - ?n" by simp
  then have "(x - (k - 1)) sdiv k = - (?n div k)"
    using False assms by (simp only: minus_sdiv_eq) simp
  moreover have "?n div k = - (x div k)"
  proof (rule div_unique_int [where r = "k - 1 - x mod k"])
    show "?n = k * - (x div k) + (k - 1 - x mod k)"
      using mult_div_mod_eq [of k x] by (simp only: mult_minus_right)
  qed (use assms pos_mod_bound [of k x] pos_mod_sign [of k x] in linarith)+
  ultimately show ?thesis using False by simp
qed (use assms in simp)

lemma floor_divs:
  "(if x \<ge> 0 then x else x - 399) sdiv 400 = x div (400 :: int)"
  "(if x \<ge> 0 then x else x - 146096) sdiv 146097 = x div (146097 :: int)"
  using floor_div [of 400 x] floor_div [of 146097 x] by (cases "x \<ge> 0"; simp)+

section \<open>The 400-year era\<close>

text \<open>
  A year of the era is \<open>100 a + 4 b + c\<close>; its last day, with index 365, exists when the next year
  is a leap year.
\<close>

definition era_year :: "int \<Rightarrow> int \<Rightarrow> int \<Rightarrow> bool" where
  "era_year a b c \<longleftrightarrow> 0 \<le> a \<and> a \<le> 3 \<and> 0 \<le> b \<and> b \<le> 24 \<and> 0 \<le> c \<and> c \<le> 3"

definition day_fits :: "int \<Rightarrow> int \<Rightarrow> int \<Rightarrow> int \<Rightarrow> bool" where
  "day_fits a b c r \<longleftrightarrow> 0 \<le> r \<and> (r \<le> 364 \<or> r = 365 \<and> c = 3 \<and> (b < 24 \<or> a = 3))"

lemma era_year_quotients:
  assumes "era_year a b c"
  shows "(100 * a + 4 * b + c) div 4 = 25 * a + b" "(100 * a + 4 * b + c) div 100 = a"
proof -
  show "(100 * a + 4 * b + c) div 4 = 25 * a + b"
    by (rule div_unique_int [where r = c]) (use assms in \<open>auto simp: era_year_def\<close>)
  show "(100 * a + 4 * b + c) div 100 = a"
    by (rule div_unique_int [where r = "4 * b + c"]) (use assms in \<open>auto simp: era_year_def\<close>)
qed

lemma year_decompose:
  assumes "0 \<le> (y :: int)" and "y < 400"
  obtains a b c where "era_year a b c" and "y = 100 * a + 4 * b + c"
proof -
  have "era_year (y div 100) (y mod 100 div 4) (y mod 4)"
    using assms by (auto simp: era_year_def)
  moreover have "y = 100 * (y div 100) + 4 * (y mod 100 div 4) + y mod 4"
  proof -
    have "y mod 100 mod 4 = y mod 4" by (simp add: mod_mod_cancel)
    then show ?thesis
      using mult_div_mod_eq [of 100 y] mult_div_mod_eq [of 4 "y mod 100"] by linarith
  qed
  ultimately show thesis by (rule that)
qed

lemma day_decompose:
  assumes "0 \<le> (d :: int)" and "d < 146097"
  obtains a b c r where "era_year a b c" and "day_fits a b c r" and "d = 36524 * a + 1461 * b + 365 * c + r"
proof -
  define a where "a = min 3 (d div 36524)"
  define d1 where "d1 = d - 36524 * a"
  have a: "0 \<le> a" "a \<le> 3" "0 \<le> d1" "d1 < 36524 \<or> a = 3 \<and> d1 = 36524"
    using assms by (auto simp: a_def d1_def min_def)
  define b where "b = d1 div 1461"
  define d2 where "d2 = d1 mod 1461"
  have b: "d1 = 1461 * b + d2" "0 \<le> d2" "d2 < 1461" "0 \<le> b" "b \<le> 24"
    using a by (auto simp: b_def d2_def)
  define c where "c = min 3 (d2 div 365)"
  define r where "r = d2 - 365 * c"
  have c: "0 \<le> c" "c \<le> 3" "0 \<le> r" "r \<le> 364 \<or> c = 3 \<and> r = 365"
    using b by (auto simp: c_def r_def min_def)
  have "era_year a b c"
    using a b c by (simp add: era_year_def)
  moreover have "day_fits a b c r"
    using a b c r_def by (auto simp: day_fits_def)
  moreover have "d = 36524 * a + 1461 * b + 365 * c + r"
    using b(1) by (simp add: r_def d1_def)
  ultimately show thesis by (rule that)
qed

lemma year_of_day:
  assumes y: "era_year a b c" and r: "day_fits a b c r" and d: "d = 36524 * a + 1461 * b + 365 * c + r"
  shows "(d - d div 1460 + d div 36524 - d div 146096) div 365 = 100 * a + 4 * b + c"
proof -
  define e where "e = (if 24 * a + b + 365 * c + r < 1460 then 0 else 1 :: int)"
  have "d div 1460 = 25 * a + b + e"
    by (rule div_unique_int [where r = "24 * a + b + 365 * c + r - 1460 * e"])
      (use y r in \<open>auto simp: e_def d era_year_def day_fits_def\<close>)
  moreover have "d div 36524 - d div 146096 = a"
  proof (cases "a = 3 \<and> b = 24 \<and> c = 3 \<and> r = 365")
    case False
    have "d div 36524 = a"
      by (rule div_unique_int [where r = "1461 * b + 365 * c + r"])
        (use y r False in \<open>auto simp: d era_year_def day_fits_def\<close>)
    moreover have "d div 146096 = 0"
      using y r False by (auto simp: d era_year_def day_fits_def)
    ultimately show ?thesis by simp
  qed (simp add: d)
  ultimately have "d - d div 1460 + d div 36524 - d div 146096 = 365 * (100 * a + 4 * b + c) + (r - e)"
    by (simp add: d)
  moreover have "0 \<le> r - e" "r - e < 365"
    using y r by (auto simp: e_def era_year_def day_fits_def)
  ultimately show ?thesis
    by (intro div_unique_int [where r = "r - e"])
qed

text \<open>Months: the start of each shifted month, and the month of a day of the year.\<close>

lemma month_of_day:
  assumes "0 \<le> (r :: int)" and "r \<le> 365"
  obtains mp d where "0 \<le> mp" and "mp \<le> 11" and "(5 * r + 2) div 153 = mp" and "r = (153 * mp + 2) div 5 + d - 1"
    and "1 \<le> d" and "mp < 11 \<longrightarrow> (153 * mp + 2) div 5 + d \<le> (153 * (mp + 1) + 2) div 5"
    and "mp = 11 \<longrightarrow> d \<le> 29"
proof -
  define mp where "mp = (5 * r + 2) div 153"
  define s where "s = (153 * mp + 2) div 5"
  define u where "u = 153 * mp + 155"
  have u: "153 * (mp + 1) + 2 = u" by (simp add: u_def)
  have mp: "153 * mp \<le> 5 * r + 2" "5 * r + 2 < 153 * mp + 153"
    using mult_div_mod_eq [of 153 "5 * r + 2"] pos_mod_bound [of 153 "5 * r + 2"] pos_mod_sign [of 153 "5 * r + 2"]
    unfolding mp_def by linarith+
  have s: "5 * s \<le> 153 * mp + 2" "153 * mp + 2 < 5 * s + 5"
    using mult_div_mod_eq [of 5 "153 * mp + 2"] pos_mod_bound [of 5 "153 * mp + 2"] pos_mod_sign [of 5 "153 * mp + 2"]
    unfolding s_def by linarith+
  have t: "u < 5 * (u div 5) + 5"
    using mult_div_mod_eq [of 5 u] pos_mod_bound [of 5 u] by linarith
  show thesis
  proof (rule that [of mp "r - s + 1"])
    show "0 \<le> mp" "mp \<le> 11" using mp assms by linarith+
    show "1 \<le> r - s + 1" using mp s by linarith
    show "mp < 11 \<longrightarrow> (153 * mp + 2) div 5 + (r - s + 1) \<le> (153 * (mp + 1) + 2) div 5"
      using mp t u_def unfolding s_def [symmetric] u by linarith
    show "mp = 11 \<longrightarrow> r - s + 1 \<le> 29" using assms s by linarith
  qed (simp_all add: mp_def s_def)
qed

lemma month_starts:
  assumes "0 \<le> (mp :: int)" and "mp \<le> 11"
  shows "mp = 0 \<and> (153 * mp + 2) div 5 = 0 \<or> mp = 1 \<and> (153 * mp + 2) div 5 = 31 \<or>
    mp = 2 \<and> (153 * mp + 2) div 5 = 61 \<or> mp = 3 \<and> (153 * mp + 2) div 5 = 92 \<or>
    mp = 4 \<and> (153 * mp + 2) div 5 = 122 \<or> mp = 5 \<and> (153 * mp + 2) div 5 = 153 \<or>
    mp = 6 \<and> (153 * mp + 2) div 5 = 184 \<or> mp = 7 \<and> (153 * mp + 2) div 5 = 214 \<or>
    mp = 8 \<and> (153 * mp + 2) div 5 = 245 \<or> mp = 9 \<and> (153 * mp + 2) div 5 = 275 \<or>
    mp = 10 \<and> (153 * mp + 2) div 5 = 306 \<or> mp = 11 \<and> (153 * mp + 2) div 5 = 337"
proof -
  from assms have "mp = 0 \<or> mp = 1 \<or> mp = 2 \<or> mp = 3 \<or> mp = 4 \<or> mp = 5 \<or> mp = 6 \<or> mp = 7 \<or>
      mp = 8 \<or> mp = 9 \<or> mp = 10 \<or> mp = 11" by presburger
  then show ?thesis by (elim disjE) simp_all
qed

definition month_of :: "int \<Rightarrow> int" where
  "month_of mp = mp + (if mp < 10 then 3 else - 9)"

lemma civil_from_days_steps:
  assumes "(if x \<ge> 0 then x else x - 146096) sdiv 146097 = e" and "x - e * 146097 = D"
    and "(D - D sdiv 1460 + D sdiv 36524 - D sdiv 146096) sdiv 365 = Y"
    and "D - (365 * Y + Y sdiv 4 - Y sdiv 100) = r" and "(5 * r + 2) sdiv 153 = mp"
    and "r - (153 * mp + 2) sdiv 5 + 1 = d"
  shows "civil_from_days (x - 719468) =
     (Y + e * 400 + (if month_of mp \<le> 2 then 1 else 0), month_of mp, d)"
  by (simp only: civil_from_days_def Let_def diff_add_cancel assms month_of_def)

lemma civil_from_era:
  assumes y: "era_year a b c" and r: "day_fits a b c r" and mp: "(5 * r + 2) div 153 = mp"
    and d: "r = (153 * mp + 2) div 5 + d - 1"
    and D: "D = 36524 * a + 1461 * b + 365 * c + r" and Y: "Y = 100 * a + 4 * b + c"
  shows "civil_from_days (e * 146097 + D - 719468) =
     (Y + e * 400 + (if month_of mp \<le> 2 then 1 else 0), month_of mp, d)"
proof (rule civil_from_days_steps)
  have D0: "0 \<le> D" "D < 146097"
    using y r by (auto simp: era_year_def day_fits_def D)
  then have "(e * 146097 + D) div 146097 = e"
    by (intro div_unique_int [where r = D]) simp_all
  then show "(if e * 146097 + D \<ge> 0 then e * 146097 + D else e * 146097 + D - 146096) sdiv 146097 = e"
    by (simp only: floor_divs)
  have "0 \<le> D - D div 1460 + D div 36524 - D div 146096"
    using D0 by auto
  then show "(D - D sdiv 1460 + D sdiv 36524 - D sdiv 146096) sdiv 365 = Y"
    using D0 year_of_day [OF y r D] by (simp add: Y)
  have "0 \<le> Y" using y by (simp add: era_year_def Y)
  then show "D - (365 * Y + Y sdiv 4 - Y sdiv 100) = r"
    using era_year_quotients [OF y] by (simp add: Y D)
  have "0 \<le> r" using r by (auto simp: day_fits_def)
  then show *: "(5 * r + 2) sdiv 153 = mp" using mp by simp
  have "0 \<le> mp" using \<open>0 \<le> r\<close> mp by auto
  then show "r - (153 * mp + 2) sdiv 5 + 1 = d" using d by simp
qed simp

text \<open>The other way: a civil date with its shifted year and month.\<close>

lemma days_from_era:
  assumes y: "era_year a b c" and mp: "0 \<le> mp" "mp \<le> 11"
    and Y: "Y = 100 * a + 4 * b + c" and year: "year = Y + e * 400 + (if month_of mp \<le> 2 then 1 else 0)"
    and r: "r = (153 * mp + 2) div 5 + d - 1"
  shows "days_from_civil year (month_of mp) d = e * 146097 + (36524 * a + 1461 * b + 365 * c + r) - 719468"
proof -
  have Y0: "0 \<le> Y" "Y < 400" using y by (auto simp: era_year_def Y)
  have m: "(if month_of mp \<le> 2 then year - 1 else year) = Y + e * 400"
    by (simp add: year)
  have "(Y + e * 400) div 400 = e"
    using Y0 by (intro div_unique_int [where r = Y]) simp_all
  then have era: "(if Y + e * 400 \<ge> 0 then Y + e * 400 else Y + e * 400 - 399) sdiv 400 = e"
    by (simp only: floor_divs)
  have mm: "month_of mp + (if month_of mp > 2 then - 3 else 9) = mp"
    using mp by (auto simp: month_of_def)
  show ?thesis
    unfolding days_from_civil_def Let_def m era mm
    using Y0 mp era_year_quotients [OF y] by (simp add: Y r)
qed

section \<open>Dates\<close>

definition valid_date :: "int \<times> int \<times> int \<Rightarrow> bool" where
  "valid_date ymd = (case ymd of (y, m, d) \<Rightarrow> 1 \<le> m \<and> m \<le> 12 \<and> 1 \<le> d \<and> d \<le> days_in_month y m)"

lemma dvd_scaled: "k \<noteq> 0 \<Longrightarrow> k * m dvd k * m * x + k * z \<longleftrightarrow> m dvd (z :: int)"
  by (simp add: dvd_add_right_iff)

lemma leap_iff:
  assumes "era_year a b c"
  shows "is_leap_year (100 * a + 4 * b + c + e * 400 + 1) \<longleftrightarrow> c = 3 \<and> (b < 24 \<or> a = 3)"
proof -
  let ?y = "100 * a + 4 * b + c + e * 400 + 1"
  have c: "4 dvd ?y \<longleftrightarrow> c = 3"
  proof -
    have y: "?y = 1 * 4 * (25 * a + b + 100 * e) + 1 * (c + 1)" by simp
    have "4 dvd ?y \<longleftrightarrow> 4 dvd c + 1"
      unfolding y using dvd_scaled [of 1 4 "25 * a + b + 100 * e" "c + 1"] by simp
    also have "\<dots> \<longleftrightarrow> c = 3" using assms unfolding era_year_def by presburger
    finally show ?thesis .
  qed
  have b: "100 dvd ?y \<longleftrightarrow> b = 24" if "c = 3"
  proof -
    have y: "?y = 100 * (a + 4 * e) + 4 * (b + 1)" using that by simp
    have "100 dvd ?y \<longleftrightarrow> 25 dvd b + 1"
      unfolding y using dvd_scaled [of 4 25 "a + 4 * e" "b + 1"] by simp
    also have "\<dots> \<longleftrightarrow> b = 24" using assms unfolding era_year_def by presburger
    finally show ?thesis .
  qed
  have a: "400 dvd ?y \<longleftrightarrow> a = 3" if "c = 3" "b = 24"
  proof -
    have y: "?y = 400 * e + 100 * (a + 1)" using that by simp
    have "400 dvd ?y \<longleftrightarrow> 4 dvd a + 1"
      unfolding y using dvd_scaled [of 100 4 e "a + 1"] by simp
    also have "\<dots> \<longleftrightarrow> a = 3" using assms unfolding era_year_def by presburger
    finally show ?thesis .
  qed
  have up: "400 dvd ?y \<Longrightarrow> 100 dvd ?y" "100 dvd ?y \<Longrightarrow> 4 dvd ?y"
    by (rule dvd_trans [rotated], assumption, simp)+
  have b24: "b \<le> 24" using assms by (simp add: era_year_def)
  define p q r where pqr: "p \<longleftrightarrow> 4 dvd ?y" "q \<longleftrightarrow> 100 dvd ?y" "r \<longleftrightarrow> 400 dvd ?y"
  have "(p \<and> \<not> q \<or> r) \<longleftrightarrow> c = 3 \<and> (b < 24 \<or> a = 3)"
    using a [folded pqr] b [folded pqr] c [folded pqr] up [folded pqr] b24 by (cases "c = 3"; cases "b = 24"; simp; blast)
  then show ?thesis
    unfolding is_leap_year_def smod_eq_0 pqr .
qed

lemma month_length:
  assumes y: "era_year a b c" and mp: "0 \<le> mp" "mp \<le> 11"
    and year: "year = 100 * a + 4 * b + c + e * 400 + (if month_of mp \<le> 2 then 1 else 0)"
  shows "days_in_month year (month_of mp) =
     (if mp < 11 then (153 * (mp + 1) + 2) div 5 - (153 * mp + 2) div 5
      else if c = 3 \<and> (b < 24 \<or> a = 3) then 29 else 28)"
proof -
  have "is_leap_year year \<longleftrightarrow> c = 3 \<and> (b < 24 \<or> a = 3)" if "mp = 11"
    using leap_iff [OF y, of e] that by (simp add: year month_of_def)
  then show ?thesis
    using month_starts [OF mp] by (elim disjE) (auto simp: days_in_month_def month_of_def)
qed

lemma month_of_range: "0 \<le> mp \<Longrightarrow> mp \<le> 11 \<Longrightarrow> 1 \<le> month_of mp \<and> month_of mp \<le> 12"
  by (simp add: month_of_def)

lemma civil_days:
  shows "valid_date (civil_from_days n)"
    and "(case civil_from_days n of (y, m, d) \<Rightarrow> days_from_civil y m d) = n"
proof -
  define e where "e = (n + 719468) div 146097"
  define D where "D = (n + 719468) mod 146097"
  have n: "n = e * 146097 + D - 719468" and D: "0 \<le> D" "D < 146097"
    by (simp_all add: e_def D_def)
  obtain a b c r where y: "era_year a b c" and r: "day_fits a b c r" and Dr: "D = 36524 * a + 1461 * b + 365 * c + r"
    by (rule day_decompose [OF D])
  then have "0 \<le> r" "r \<le> 365" by (auto simp: day_fits_def)
  then obtain mp d where mp: "0 \<le> mp" "mp \<le> 11" "(5 * r + 2) div 153 = mp" and rd: "r = (153 * mp + 2) div 5 + d - 1"
    and d: "1 \<le> d" "mp < 11 \<longrightarrow> (153 * mp + 2) div 5 + d \<le> (153 * (mp + 1) + 2) div 5" "mp = 11 \<longrightarrow> d \<le> 29"
    by (rule month_of_day)
  define year where "year = 100 * a + 4 * b + c + e * 400 + (if month_of mp \<le> 2 then 1 else 0)"
  have civil: "civil_from_days n = (year, month_of mp, d)"
    unfolding n year_def by (rule civil_from_era [OF y r mp(3) rd Dr refl])
  have "d \<le> days_in_month year (month_of mp)"
    unfolding month_length [OF y mp(1,2) year_def]
  proof (cases "mp < 11")
    case False
    then have "mp = 11" using mp(2) by simp
    then show "d \<le> (if mp < 11 then (153 * (mp + 1) + 2) div 5 - (153 * mp + 2) div 5
        else if c = 3 \<and> (b < 24 \<or> a = 3) then 29 else 28)"
      using r rd d(3) by (auto simp: day_fits_def)
  qed (use d(2) in simp)
  then show "valid_date (civil_from_days n)"
    using civil d(1) month_of_range [OF mp(1,2)] by (simp add: valid_date_def)
  have "days_from_civil year (month_of mp) d = n"
    using days_from_era [OF y mp(1,2) refl year_def rd] by (simp add: n Dr)
  then show "(case civil_from_days n of (y, m, d) \<Rightarrow> days_from_civil y m d) = n"
    unfolding civil prod.case .
qed

lemma date_decompose:
  assumes "valid_date (y, m, d)"
  obtains e a b c mp r where "era_year a b c" and "0 \<le> mp" and "mp \<le> 11" and "month_of mp = m"
    and "y = 100 * a + 4 * b + c + e * 400 + (if month_of mp \<le> 2 then 1 else 0)"
    and "r = (153 * mp + 2) div 5 + d - 1" and "day_fits a b c r" and "(5 * r + 2) div 153 = mp"
proof -
  from assms have m: "1 \<le> m" "m \<le> 12" and d: "1 \<le> d" "d \<le> days_in_month y m"
    by (auto simp: valid_date_def)
  define mp where "mp = (if m > 2 then m - 3 else m + 9)"
  have mp: "0 \<le> mp" "mp \<le> 11" "month_of mp = m"
    using m by (auto simp: mp_def month_of_def)
  define y' where "y' = (if m \<le> 2 then y - 1 else y)"
  define e where "e = y' div 400"
  have Y: "0 \<le> y' mod 400" "y' mod 400 < 400" by simp_all
  obtain a b c where e: "era_year a b c" and abc: "y' mod 400 = 100 * a + 4 * b + c"
    by (rule year_decompose [OF Y])
  have year: "y = 100 * a + 4 * b + c + e * 400 + (if month_of mp \<le> 2 then 1 else 0)"
    using abc div_mult_mod_eq [of y' 400] mp by (auto simp: e_def y'_def)
  define r where "r = (153 * mp + 2) div 5 + d - 1"
  have len: "d \<le> (if mp < 11 then (153 * (mp + 1) + 2) div 5 - (153 * mp + 2) div 5
      else if c = 3 \<and> (b < 24 \<or> a = 3) then 29 else 28)"
    using d(2) month_length [OF e mp(1,2) year] mp(3) by simp
  have "day_fits a b c r \<and> (5 * r + 2) div 153 = mp"
    using month_starts [OF mp(1,2)] d(1) len
    by (elim disjE) (auto simp: day_fits_def r_def split: if_splits)
  then have "day_fits a b c r" "(5 * r + 2) div 153 = mp" by simp_all
  then show thesis
    using that e mp year r_def by blast
qed

lemma civil_from_days_from_civil:
  assumes "valid_date (y, m, d)"
  shows "civil_from_days (days_from_civil y m d) = (y, m, d)"
proof -
  obtain e a b c mp r where e: "era_year a b c" and mp: "0 \<le> mp" "mp \<le> 11" "month_of mp = m"
    and year: "y = 100 * a + 4 * b + c + e * 400 + (if month_of mp \<le> 2 then 1 else 0)"
    and r_def: "r = (153 * mp + 2) div 5 + d - 1" and r: "day_fits a b c r" "(5 * r + 2) div 153 = mp"
    by (rule date_decompose [OF assms])
  show ?thesis
    using days_from_era [OF e mp(1,2) refl year r_def] civil_from_era [OF e r r_def refl refl, of e] year mp(3)
    by simp
qed

text \<open>The last days of an era, from 1 January of its last civil year on.\<close>

lemma era_end:
  assumes y: "era_year a b c" and r: "day_fits a b c r"
  shows "100 * a + 4 * b + c = 399 \<and> 306 \<le> r \<longleftrightarrow> 146037 \<le> 36524 * a + 1461 * b + 365 * c + r"
proof
  assume *: "146037 \<le> 36524 * a + 1461 * b + 365 * c + r"
  have b: "a \<le> 3" "b \<le> 24" "c \<le> 3" "r \<le> 365"
    using y r by (auto simp: era_year_def day_fits_def)
  have "a = 3" by (rule ccontr) (use * b in linarith)
  moreover have "b = 24" by (rule ccontr) (use * b in linarith)
  moreover have "c = 3" by (rule ccontr) (use * b in linarith)
  ultimately show "100 * a + 4 * b + c = 399 \<and> 306 \<le> r" using * by simp
next
  assume *: "100 * a + 4 * b + c = 399 \<and> 306 \<le> r"
  have b: "a \<le> 3" "b \<le> 24" "c \<le> 3"
    using y by (auto simp: era_year_def)
  have "a = 3" "b = 24" "c = 3" using * b by linarith+
  with * show "146037 \<le> 36524 * a + 1461 * b + 365 * c + r" by simp
qed

lemma year_range:
  assumes "valid_date (y, m, d)"
  shows "0 \<le> y \<longleftrightarrow> - 719528 \<le> days_from_civil y m d" and "y \<le> 9999 \<longleftrightarrow> days_from_civil y m d \<le> 2932896"
proof -
  obtain e a b c mp r where e: "era_year a b c" and mp: "0 \<le> mp" "mp \<le> 11" "month_of mp = m"
    and year: "y = 100 * a + 4 * b + c + e * 400 + (if month_of mp \<le> 2 then 1 else 0)"
    and r_def: "r = (153 * mp + 2) div 5 + d - 1" and r: "day_fits a b c r" "(5 * r + 2) div 153 = mp"
    by (rule date_decompose [OF assms])
  define Y where "Y = 100 * a + 4 * b + c"
  define D where "D = 36524 * a + 1461 * b + 365 * c + r"
  define k :: int where "k = (if 306 \<le> r then 1 else 0)"
  have "month_of mp \<le> 2 \<longleftrightarrow> 10 \<le> mp"
    using mp(1,2) unfolding month_of_def by (simp split: if_splits)
  moreover have "10 \<le> mp \<longleftrightarrow> 306 \<le> r"
    using r(2) by auto
  ultimately have y: "y = Y + k + e * 400"
    by (simp add: year Y_def k_def)
  have days: "days_from_civil y m d = e * 146097 + D - 719468"
    using days_from_era [OF e mp(1,2) refl year r_def] mp(3) by (simp add: D_def)
  have bounds: "0 \<le> Y" "Y \<le> 399" "0 \<le> k" "k \<le> 1" "0 \<le> D" "D \<le> 146096"
    using e r(1) by (auto simp: Y_def D_def k_def era_year_def day_fits_def)
  have late: "146037 \<le> D \<longleftrightarrow> Y + k = 400"
    using era_end [OF e r(1)] bounds(2) unfolding Y_def [symmetric] D_def [symmetric] by (auto simp: k_def)
  consider "e \<ge> 0" | "e = - 1" | "e \<le> - 2" by linarith
  then show "0 \<le> y \<longleftrightarrow> - 719528 \<le> days_from_civil y m d"
    unfolding days using y bounds late by cases auto
  consider "e \<ge> 25" | "e = 24" | "e \<le> 23" by linarith
  then show "y \<le> 9999 \<longleftrightarrow> days_from_civil y m d \<le> 2932896"
    unfolding days using y bounds late by cases auto
qed

section \<open>The fixed RFC 3339 form\<close>

definition in_range :: "timestamp \<Rightarrow> bool" where
  "in_range t \<longleftrightarrow> min_unix \<le> unix_seconds t \<and> unix_seconds t \<le> max_unix"

text \<open>Fixed-width digits.\<close>

lemma number_loop_append:
  "number_loop n (s @ t) = Option.bind (number_loop n s) (\<lambda>m. number_loop m t)"
  by (induction n s rule: number_loop.induct) auto

lemma number_loop_zeros: "number_loop 0 (replicate k (CHR ''0'') @ s) = number_loop 0 s"
  by (induction k) (simp_all add: is_ascii_digit_def)

lemma number_loop_dec: "number_loop (int n) s = map_option int (dec_digits n s)"
proof (induction n s rule: dec_digits.induct)
  case (2 acc c cs)
  have "int acc * 10 + (int (code c) - 48) = int (acc * 10 + (code c - 48))" if "is_ascii_digit c"
    using that by (simp add: is_ascii_digit_def of_nat_diff)
  with 2 show ?case by simp
qed simp

lemma number_pad: "0 \<le> n \<Longrightarrow> number (pad_zero w n) = Some n"
  using number_loop_dec [of 0 "show_nat (nat n)"]
  by (simp add: number_def pad_zero_def number_loop_zeros Let_def)

lemma length_show_nat_le: "n < 10 ^ w \<Longrightarrow> 0 < w \<Longrightarrow> length (show_nat n) \<le> w"
proof (induction n arbitrary: w rule: show_nat.induct)
  case (1 n)
  show ?case
  proof (cases "n < 10")
    case False
    with 1 have w: "w \<noteq> 1" by auto
    with 1 obtain v where v: "w = Suc v" "0 < v" by (cases w) auto
    with 1 have "n div 10 < 10 ^ v" by (simp add: less_mult_imp_div_less)
    with 1(1) [OF False _ v(2)] False v show ?thesis
      by (subst show_nat.simps) simp
  qed (use 1 in \<open>subst show_nat.simps, simp\<close>)
qed

lemma length_pad_zero: "0 \<le> n \<Longrightarrow> n < 10 ^ w \<Longrightarrow> 0 < w \<Longrightarrow> length (pad_zero w n) = w"
  using length_show_nat_le [of "nat n" w]
  by (simp add: pad_zero_def Let_def nat_less_iff)

lemma number_loop_bounds:
  "number_loop n s = Some m \<Longrightarrow> n * 10 ^ length s \<le> m \<and> m < (n + 1) * 10 ^ length s"
proof (induction n s rule: number_loop.induct)
  case (2 n c cs)
  let ?d = "int (code c) - 48"
  from 2 have d: "0 \<le> ?d" "?d \<le> 9" and
    ih: "(n * 10 + ?d) * 10 ^ length cs \<le> m" "m < (n * 10 + ?d + 1) * 10 ^ length cs"
    by (auto simp: is_ascii_digit_def split: if_splits)
  have p: "0 < (10 :: int) ^ length cs" by simp
  have "n * 10 * 10 ^ length cs \<le> (n * 10 + ?d) * 10 ^ length cs"
    using d p by (intro mult_right_mono) auto
  moreover have "(n * 10 + ?d + 1) * 10 ^ length cs \<le> (n * 10 + 10) * 10 ^ length cs"
    using d p by (intro mult_right_mono) auto
  moreover have "n * 10 ^ length (c # cs) = n * 10 * 10 ^ length cs"
    and "(n + 1) * 10 ^ length (c # cs) = (n * 10 + 10) * 10 ^ length cs"
    by (simp_all add: algebra_simps)
  ultimately show ?case
    using ih by linarith
qed simp

lemma number_loop_inj:
  "number_loop n s = Some m \<Longrightarrow> number_loop n t = Some m \<Longrightarrow> length s = length t \<Longrightarrow> s = t"
proof (induction s arbitrary: n t)
  case (Cons c cs)
  then obtain d ds where t: "t = d # ds" by (cases t) auto
  let ?c = "n * 10 + (int (code c) - 48)" and ?d = "n * 10 + (int (code d) - 48)"
  have loops: "number_loop ?c cs = Some m" "number_loop ?d ds = Some m" "length cs = length ds"
    using Cons.prems t by (auto split: if_splits)
  have p: "0 < (10 :: int) ^ length cs" by simp
  note b = number_loop_bounds [OF loops(1)] number_loop_bounds [OF loops(2), folded loops(3)]
  have "?c * 10 ^ length cs < (?d + 1) * 10 ^ length cs" "?d * 10 ^ length cs < (?c + 1) * 10 ^ length cs"
    using b by (blast intro: order.strict_trans1)+
  then have "?c = ?d"
    using p by (simp only: mult_less_cancel_right_pos)
  then have "c = d" by (simp add: of_nat_eq_iff)
  with loops Cons.IH [of ?c ds] t show ?case by simp
qed simp

lemma number_pad_iff:
  assumes "length s = w" and "0 < w"
  shows "number s = Some n \<longleftrightarrow> 0 \<le> n \<and> n < 10 ^ w \<and> s = pad_zero w n"
proof
  assume s: "number s = Some n"
  then have n: "0 \<le> n" "n < 10 ^ w"
    using number_loop_bounds [of 0 s n] assms by (auto simp: number_def)
  then have "number (pad_zero w n) = Some n" "length (pad_zero w n) = w"
    using assms by (simp_all add: number_pad length_pad_zero)
  with s n show "0 \<le> n \<and> n < 10 ^ w \<and> s = pad_zero w n"
    using assms number_loop_inj [of 0 s n "pad_zero w n"] by (simp add: number_def)
qed (simp add: number_pad)

text \<open>The text for given fields, and what the parser makes of it.\<close>

definition rfc3339_text :: "int \<Rightarrow> int \<Rightarrow> int \<Rightarrow> int \<Rightarrow> int \<Rightarrow> int \<Rightarrow> str" where
  "rfc3339_text y m d h mi se =
     pad_zero 4 y @ ''-'' @ pad_zero 2 m @ ''-'' @ pad_zero 2 d @ ''T'' @
     pad_zero 2 h @ '':'' @ pad_zero 2 mi @ '':'' @ pad_zero 2 se @ ''Z''"

definition fields_ok :: "int \<Rightarrow> int \<Rightarrow> int \<Rightarrow> int \<Rightarrow> int \<Rightarrow> int \<Rightarrow> bool" where
  "fields_ok y m d h mi se \<longleftrightarrow> 0 \<le> y \<and> y \<le> 9999 \<and> valid_date (y, m, d) \<and>
     0 \<le> h \<and> h \<le> 23 \<and> 0 \<le> mi \<and> mi \<le> 59 \<and> 0 \<le> se \<and> se \<le> 59"

definition of_fields :: "int \<Rightarrow> int \<Rightarrow> int \<Rightarrow> int \<Rightarrow> int \<Rightarrow> int \<Rightarrow> timestamp" where
  "of_fields y m d h mi se = Timestamp (days_from_civil y m d * 86400 + h * 3600 + mi * 60 + se)"

lemma days_in_month_le: "days_in_month y m \<le> 31"
  by (simp add: days_in_month_def)

lemma take_slice: "a \<le> b \<Longrightarrow> take a xs @ slice a b xs @ ys = take b xs @ ys"
  using take_add [of a "b - a" xs] by (simp add: slice_def)

lemma take_nth: "b < length xs \<Longrightarrow> take b xs @ (xs ! b) # ys = take (Suc b) xs @ ys"
  by (simp add: take_Suc_conv_app_nth)

lemma slices_20:
  assumes "length s = 20"
  shows "slice 0 4 s @ s ! 4 # slice 5 7 s @ s ! 7 # slice 8 10 s @ s ! 10 #
     slice 11 13 s @ s ! 13 # slice 14 16 s @ s ! 16 # slice 17 19 s @ [s ! 19] = s"
proof -
  have z: "slice 0 4 s = take 4 s" by (simp add: slice_def)
  have t: "take 4 s @ s ! 4 # r = take 5 s @ r" "take 7 s @ s ! 7 # r = take 8 s @ r"
    "take 10 s @ s ! 10 # r = take 11 s @ r" "take 13 s @ s ! 13 # r = take 14 s @ r"
    "take 16 s @ s ! 16 # r = take 17 s @ r" "take 19 s @ s ! 19 # r = take 20 s @ r" for r
    using assms take_nth [of 4 s r] take_nth [of 7 s r] take_nth [of 10 s r] take_nth [of 13 s r]
      take_nth [of 16 s r] take_nth [of 19 s r] by simp_all
  have u: "take 5 s @ slice 5 7 s @ r = take 7 s @ r" "take 8 s @ slice 8 10 s @ r = take 10 s @ r"
    "take 11 s @ slice 11 13 s @ r = take 13 s @ r" "take 14 s @ slice 14 16 s @ r = take 16 s @ r"
    "take 17 s @ slice 17 19 s @ r = take 19 s @ r" for r
    by (rule take_slice, simp)+
  show ?thesis
    unfolding z t u using assms by simp
qed

lemma parse_rfc3339_text:
  assumes "length p1 = 4" "length p2 = 2" "length p3 = 2" "length p4 = 2" "length p5 = 2" "length p6 = 2"
  shows "parse_rfc3339 (p1 @ ''-'' @ p2 @ ''-'' @ p3 @ ''T'' @ p4 @ '':'' @ p5 @ '':'' @ p6 @ ''Z'') =
     Option.bind (number p1) (\<lambda>year. Option.bind (number p2) (\<lambda>month. Option.bind (number p3) (\<lambda>day.
     Option.bind (number p4) (\<lambda>hour. Option.bind (number p5) (\<lambda>minute. Option.bind (number p6) (\<lambda>second.
       if \<not> (1 \<le> month \<and> month \<le> 12) \<or> day < 1 \<or> day > days_in_month year month then None
       else if hour > 23 \<or> minute > 59 \<or> second > 59 then None
       else Some (of_fields year month day hour minute second)))))))"
  unfolding of_fields_def using assms by (simp add: parse_rfc3339_def slice_def nth_append)

lemma parse_rfc3339_iff:
  "parse_rfc3339 s = Some t \<longleftrightarrow>
     (\<exists>y m d h mi se. fields_ok y m d h mi se \<and> s = rfc3339_text y m d h mi se \<and> t = of_fields y m d h mi se)"
proof
  assume s: "parse_rfc3339 s = Some t"
  then have len: "length s = 20" and sep: "s ! 4 = CHR ''-''" "s ! 7 = CHR ''-''" "s ! 10 = CHR ''T''"
    "s ! 13 = CHR '':''" "s ! 16 = CHR '':''" "s ! 19 = CHR ''Z''"
    by (auto simp: parse_rfc3339_def split: if_splits)
  have l: "length (slice a b s) = b - a" if "b \<le> 20" for a b
    using that len by (simp add: slice_def)
  have whole: "s = slice 0 4 s @ ''-'' @ slice 5 7 s @ ''-'' @ slice 8 10 s @ ''T'' @
      slice 11 13 s @ '':'' @ slice 14 16 s @ '':'' @ slice 17 19 s @ ''Z''"
    using slices_20 [OF len, symmetric] unfolding sep by simp
  obtain y m d h mi se where
      n: "number (slice 0 4 s) = Some y" "number (slice 5 7 s) = Some m" "number (slice 8 10 s) = Some d"
        "number (slice 11 13 s) = Some h" "number (slice 14 16 s) = Some mi" "number (slice 17 19 s) = Some se"
    and ok: "1 \<le> m" "m \<le> 12" "1 \<le> d" "d \<le> days_in_month y m" "h \<le> 23" "mi \<le> 59" "se \<le> 59"
    and t: "t = of_fields y m d h mi se"
    using s unfolding parse_rfc3339_def
    by (auto simp: bind_eq_Some_conv of_fields_def not_less not_le split: if_splits)
  have p: "slice 0 4 s = pad_zero 4 y \<and> 0 \<le> y \<and> y < 10000" "slice 5 7 s = pad_zero 2 m" "slice 8 10 s = pad_zero 2 d"
    "slice 11 13 s = pad_zero 2 h \<and> 0 \<le> h" "slice 14 16 s = pad_zero 2 mi \<and> 0 \<le> mi" "slice 17 19 s = pad_zero 2 se \<and> 0 \<le> se"
    using n number_pad_iff [of _ 4] number_pad_iff [of _ 2] by (auto simp: l)
  have "fields_ok y m d h mi se"
    using ok p by (simp add: fields_ok_def valid_date_def)
  moreover have "s = rfc3339_text y m d h mi se"
    using whole p by (simp only: rfc3339_text_def)
  ultimately show "\<exists>y m d h mi se. fields_ok y m d h mi se \<and> s = rfc3339_text y m d h mi se \<and> t = of_fields y m d h mi se"
    using t by blast
next
  assume "\<exists>y m d h mi se. fields_ok y m d h mi se \<and> s = rfc3339_text y m d h mi se \<and> t = of_fields y m d h mi se"
  then obtain y m d h mi se where ok: "fields_ok y m d h mi se" and s: "s = rfc3339_text y m d h mi se"
    and t: "t = of_fields y m d h mi se" by blast
  from ok days_in_month_le [of y m] have r: "0 \<le> y" "y \<le> 9999" "1 \<le> m" "m \<le> 12" "1 \<le> d" "d \<le> 31" "d \<le> days_in_month y m"
    "0 \<le> h" "h \<le> 23" "0 \<le> mi" "mi \<le> 59" "0 \<le> se" "se \<le> 59"
    by (auto simp: fields_ok_def valid_date_def)
  then have "length (pad_zero 4 y) = 4" "length (pad_zero 2 m) = 2" "length (pad_zero 2 d) = 2" "length (pad_zero 2 h) = 2"
    "length (pad_zero 2 mi) = 2" "length (pad_zero 2 se) = 2"
    by (simp_all add: length_pad_zero)
  from parse_rfc3339_text [OF this] r show "parse_rfc3339 s = Some t"
    by (simp add: s t rfc3339_text_def number_pad)
qed

text \<open>The fields of a time stamp in range.\<close>

lemma to_rfc3339_fields:
  assumes "in_range t"
  obtains y m d h mi se where "fields_ok y m d h mi se" and "t = of_fields y m d h mi se"
    and "to_rfc3339 t = rfc3339_text y m d h mi se"
proof -
  define u where "u = unix_seconds t"
  define n where "n = u div 86400"
  define sod where "sod = u mod 86400"
  have sod: "0 \<le> sod" "sod < 86400" "u = n * 86400 + sod"
    by (simp_all add: sod_def n_def)
  obtain y m d where civil: "civil_from_days n = (y, m, d)"
    by (cases "civil_from_days n") auto
  have v: "valid_date (y, m, d)" "days_from_civil y m d = n"
    using civil_days [of n] civil by simp_all
  have "- 719528 \<le> n" "n \<le> 2932896"
    using assms sod by (auto simp: in_range_def min_unix_def max_unix_def u_def n_def)
  then have "0 \<le> y" "y \<le> 9999"
    using year_range [OF v(1)] v(2) by simp_all
  then have "fields_ok y m d (sod div 3600) (sod mod 3600 div 60) (sod mod 60)"
    using v sod by (auto simp: fields_ok_def)
  moreover have "sod = sod div 3600 * 3600 + sod mod 3600 div 60 * 60 + sod mod 60"
  proof -
    have "sod mod 3600 mod 60 = sod mod 60" by (simp add: mod_mod_cancel)
    then show ?thesis
      using div_mult_mod_eq [of sod 3600] div_mult_mod_eq [of "sod mod 3600" 60] by linarith
  qed
  then have "t = of_fields y m d (sod div 3600) (sod mod 3600 div 60) (sod mod 60)"
    using v(2) sod(3) by (simp add: of_fields_def u_def timestamp.expand)
  moreover have "to_rfc3339 t = rfc3339_text y m d (sod div 3600) (sod mod 3600 div 60) (sod mod 60)"
    using civil sod by (simp add: to_rfc3339_def rfc3339_text_def Let_def flip: u_def n_def sod_def)
  ultimately show thesis by (rule that)
qed

lemma of_fields_in_range: "fields_ok y m d h mi se \<Longrightarrow> in_range (of_fields y m d h mi se)"
  using year_range [of y m d] by (auto simp: fields_ok_def in_range_def of_fields_def min_unix_def max_unix_def)

lemma to_rfc3339_of_fields:
  assumes "fields_ok y m d h mi se"
  shows "to_rfc3339 (of_fields y m d h mi se) = rfc3339_text y m d h mi se"
proof -
  let ?n = "days_from_civil y m d" and ?sod = "h * 3600 + mi * 60 + se"
  have sod: "0 \<le> ?sod" "?sod < 86400" and h: "?sod div 3600 = h" and mi2: "(mi * 60 + se) div 60 = mi"
    using assms by (auto simp: fields_ok_def)
  have mi: "?sod mod 3600 = mi * 60 + se"
    by (rule int_mod_pos_eq [where q = h]) (use assms in \<open>auto simp: fields_ok_def\<close>)
  have se: "?sod mod 60 = se"
    by (rule int_mod_pos_eq [where q = "60 * h + mi"]) (use assms in \<open>auto simp: fields_ok_def\<close>)
  have u: "unix_seconds (of_fields y m d h mi se) = ?n * 86400 + ?sod"
    by (simp add: of_fields_def)
  have "(?n * 86400 + ?sod) div 86400 = ?n" "(?n * 86400 + ?sod) mod 86400 = ?sod"
    using sod by simp_all
  moreover have "civil_from_days ?n = (y, m, d)"
    using assms by (intro civil_from_days_from_civil) (simp add: fields_ok_def)
  ultimately show ?thesis
    unfolding to_rfc3339_def rfc3339_text_def Let_def u
    using sod h mi mi2 se assms by (simp add: fields_ok_def)
qed

lemma rfc3339_iff: "parse_rfc3339 s = Some t \<longleftrightarrow> in_range t \<and> s = to_rfc3339 t"
  using to_rfc3339_fields [of t] of_fields_in_range to_rfc3339_of_fields
  unfolding parse_rfc3339_iff by metis

interpretation rfc3339: canonical_codec to_rfc3339 parse_rfc3339 in_range
  by unfold_locales (simp_all add: rfc3339_iff)

lemma from_unix_in_range [simp]: "in_range (from_unix s)"
  by (simp add: from_unix_def in_range_def min_unix_def max_unix_def)

lemma from_unix_id: "in_range t \<Longrightarrow> from_unix (unix_seconds t) = t"
  by (cases t) (simp add: from_unix_def in_range_def)

section \<open>Properties\<close>

text \<open>
  C37: The RFC 3339 form is exact and canonical: a text parses to a time stamp exactly when the
  time stamp lies in the years 0 to 9999 and the text is its rendering. In particular the two
  calendar conversions are inverse to each other over the whole range, leap days and the years
  before 1970 included, and no other spelling of an instant is accepted.
\<close>

theorem rfc3339_canonical: "parse_rfc3339 s = Some t \<longleftrightarrow> in_range t \<and> s = to_rfc3339 t"
  by (rule rfc3339_iff)

text \<open>
  Every way the program makes a time stamp (from a number, from the clock, by adding seconds
  with saturation, by parsing) yields one that its rendering can express and its parser reads
  back; inside the range nothing is clamped.
\<close>

lemma timestamps_stay_writable:
  "parse_rfc3339 (to_rfc3339 (from_unix n)) = Some (from_unix n) \<and>
   parse_rfc3339 (to_rfc3339 (fst (now w))) = Some (fst (now w)) \<and>
   parse_rfc3339 (to_rfc3339 (plus_seconds t k)) = Some (plus_seconds t k) \<and>
   unix_seconds (from_unix n) = max min_unix (min max_unix n)"
  by (simp add: rfc3339_iff now_def plus_seconds_def read_clock_def)
    (simp add: from_unix_def min_unix_def max_unix_def)

end
