(* ===== verification/Rate_Limit.thy ===== *)
theory Rate_Limit
  imports Timestamp "HOL-Library.AList"
begin

text \<open>
  \<open>ls-server/src/rate_limit.rs\<close>: a fixed-window limiter of login attempts. The hash map is an
  association list with one entry per address; \<open>allow\<close> takes the clock from the world.
\<close>

definition max_attempts :: nat where "max_attempts = 10"
definition window_seconds :: int where "window_seconds = 60"
definition max_tracked :: nat where "max_tracked = 4096"

record window =
  w_started :: int
  w_attempts :: nat

record rate_limiter =
  rl_windows :: "(str \<times> window) list"
  rl_budget :: nat

definition default_limiter :: rate_limiter where
  "default_limiter = \<lparr>rl_windows = [], rl_budget = max_attempts\<rparr>"

definition with_budget :: "nat \<Rightarrow> rate_limiter" where
  "with_budget budget = \<lparr>rl_windows = [], rl_budget = budget\<rparr>"

definition normalise :: "str \<Rightarrow> str" where
  "normalise key = to_ascii_lowercase (trim key)"

text \<open>\<open>allow\<close> with the reading of the clock it makes.\<close>

definition allow_at :: "int \<Rightarrow> str \<Rightarrow> rate_limiter \<Rightarrow> bool \<times> rate_limiter" where
  "allow_at instant raw rl =
     (let key = normalise raw;
          ws = (if length (rl_windows rl) \<ge> max_tracked
                then filter (\<lambda>(_, w). instant - w_started w < window_seconds) (rl_windows rl)
                else rl_windows rl)
      in if length ws \<ge> max_tracked \<and> map_of ws key = None then (False, rl\<lparr>rl_windows := ws\<rparr>)
         else
           let w = (case map_of ws key of Some w \<Rightarrow> w | None \<Rightarrow> \<lparr>w_started = instant, w_attempts = 0\<rparr>);
               w = (if instant - w_started w \<ge> window_seconds
                    then \<lparr>w_started = instant, w_attempts = 0\<rparr> else w);
               w = w\<lparr>w_attempts := w_attempts w + 1\<rparr>
           in (w_attempts w \<le> rl_budget rl, rl\<lparr>rl_windows := AList.update key w ws\<rparr>))"

definition allow :: "str \<Rightarrow> rate_limiter \<Rightarrow> world \<Rightarrow> (bool \<times> rate_limiter) \<times> world" where
  "allow raw rl w = (case now w of (t, w') \<Rightarrow> (allow_at (unix_seconds t) raw rl, w'))"

definition succeeded :: "str \<Rightarrow> rate_limiter \<Rightarrow> rate_limiter" where
  "succeeded raw rl = rl\<lparr>rl_windows := AList.delete (normalise raw) (rl_windows rl)\<rparr>"

section \<open>The map stays small\<close>

definition limiter_ok :: "rate_limiter \<Rightarrow> bool" where
  "limiter_ok rl \<longleftrightarrow> distinct (map fst (rl_windows rl)) \<and> length (rl_windows rl) \<le> max_tracked"

lemma length_update_le: "length (AList.update k v ws) \<le> Suc (length ws)"
  by (induction ws) auto

lemma length_update_known: "map_of ws k \<noteq> None \<Longrightarrow> length (AList.update k v ws) = length ws"
  by (induction ws) auto

lemma distinct_filter_fst: "distinct (map fst ws) \<Longrightarrow> distinct (map fst (filter p ws))"
  by (induction ws) auto

lemma allow_at_ok: "limiter_ok rl \<Longrightarrow> limiter_ok (snd (allow_at t raw rl))"
proof -
  assume ok: "limiter_ok rl"
  let ?ws = "if length (rl_windows rl) \<ge> max_tracked
      then filter (\<lambda>(_, w). t - w_started w < window_seconds) (rl_windows rl) else rl_windows rl"
  have ws: "distinct (map fst ?ws)" "length ?ws \<le> max_tracked"
    using ok order_trans [OF length_filter_le]
    by (auto simp: limiter_ok_def distinct_filter_fst)
  show ?thesis
  proof (cases "length ?ws \<ge> max_tracked \<and> map_of ?ws (normalise raw) = None")
    case True
    with ws show ?thesis by (simp add: allow_at_def Let_def limiter_ok_def)
  next
    case False
    have "length (AList.update (normalise raw) v ?ws) \<le> max_tracked" for v
    proof (cases "map_of ?ws (normalise raw) = None")
      case True
      with False have "length ?ws < max_tracked" by linarith
      with length_update_le [of "normalise raw" v ?ws] show ?thesis by linarith
    qed (use length_update_known ws(2) in metis)
    with ws(1) show ?thesis
      unfolding allow_at_def Let_def if_not_P [OF False] snd_conv limiter_ok_def
      by (simp add: distinct_update)
  qed
qed

lemma succeeded_ok: "limiter_ok rl \<Longrightarrow> limiter_ok (succeeded raw rl)"
  using length_delete_le [of "normalise raw" "rl_windows rl"]
  by (simp add: succeeded_def limiter_ok_def distinct_delete)

section \<open>How many attempts go ahead\<close>

text \<open>
  What happens to a limiter: attempts, each with the moment it is made, and logins that succeeded. Of a
  run of them, \<open>granted\<close> counts the attempts at one address that go ahead.
\<close>

datatype login_event = Attempt int str | Success str

primrec happens :: "login_event \<Rightarrow> rate_limiter \<Rightarrow> rate_limiter" where
  "happens (Attempt t raw) rl = snd (allow_at t raw rl)"
| "happens (Success raw) rl = succeeded raw rl"

abbreviation run_events :: "login_event list \<Rightarrow> rate_limiter \<Rightarrow> rate_limiter" where
  "run_events es rl \<equiv> fold happens es rl"

fun granted :: "str \<Rightarrow> login_event list \<Rightarrow> rate_limiter \<Rightarrow> nat" where
  "granted key [] rl = 0"
| "granted key (Attempt t raw # es) rl =
     (if normalise raw = key \<and> fst (allow_at t raw rl) then 1 else 0) + granted key es (happens (Attempt t raw) rl)"
| "granted key (Success raw # es) rl = granted key es (happens (Success raw) rl)"

fun attempt_times :: "login_event list \<Rightarrow> int list" where
  "attempt_times [] = []"
| "attempt_times (Attempt t raw # es) = t # attempt_times es"
| "attempt_times (Success raw # es) = attempt_times es"

abbreviation window_of :: "rate_limiter \<Rightarrow> str \<Rightarrow> window option" where
  "window_of rl key \<equiv> map_of (rl_windows rl) key"

lemma map_of_filter_keep: "map_of ws k = Some w \<Longrightarrow> p (k, w) \<Longrightarrow> map_of (filter p ws) k = Some w"
  by (induction ws) (auto split: if_splits)

lemma map_of_filter_distinct:
  "distinct (map fst ws) \<Longrightarrow> map_of (filter p ws) k = (case map_of ws k of None \<Rightarrow> None | Some w \<Rightarrow> if p (k, w) then Some w else None)"
  by (induction ws) (auto split: option.splits simp: map_of_eq_None_iff)

lemma allow_at_budget [simp]: "rl_budget (snd (allow_at t raw rl)) = rl_budget rl"
  by (simp add: allow_at_def Let_def)

lemma happens_ok: "limiter_ok rl \<Longrightarrow> limiter_ok (happens e rl)"
  by (cases e) (simp_all add: allow_at_ok succeeded_ok)

lemma happens_budget [simp]: "rl_budget (happens e rl) = rl_budget rl"
  by (cases e) (simp_all add: succeeded_def)

lemma run_ok: "limiter_ok rl \<Longrightarrow> limiter_ok (run_events es rl)"
  by (induction es arbitrary: rl) (simp_all add: happens_ok)

lemma run_budget [simp]: "rl_budget (run_events es rl) = rl_budget rl"
  by (induction es arbitrary: rl) simp_all

text \<open>An attempt while the window of an address is running, and one when there is none or it is over.\<close>

lemma allow_at_known:
  assumes "window_of rl key = Some w" and "t - w_started w < window_seconds"
  shows "window_of (snd (allow_at t raw rl)) key =
           Some (if normalise raw = key then w\<lparr>w_attempts := w_attempts w + 1\<rparr> else w)"
    and "normalise raw = key \<Longrightarrow> fst (allow_at t raw rl) \<longleftrightarrow> w_attempts w < rl_budget rl"
proof -
  let ?p = "\<lambda>(_, w). t - w_started w < window_seconds"
  have keep: "map_of (filter ?p (rl_windows rl)) key = Some w"
    using assms by (intro map_of_filter_keep) auto
  with assms show "window_of (snd (allow_at t raw rl)) key =
      Some (if normalise raw = key then w\<lparr>w_attempts := w_attempts w + 1\<rparr> else w)"
    by (auto simp: allow_at_def Let_def update_conv' split: if_splits)
  from keep assms show "normalise raw = key \<Longrightarrow> fst (allow_at t raw rl) \<longleftrightarrow> w_attempts w < rl_budget rl"
    by (auto simp: allow_at_def Let_def split: if_splits)
qed

definition idle :: "rate_limiter \<Rightarrow> str \<Rightarrow> int \<Rightarrow> bool" where
  "idle rl key t \<longleftrightarrow> (\<forall>w. window_of rl key = Some w \<longrightarrow> window_seconds \<le> t - w_started w)"

lemma allow_at_idle:
  assumes "limiter_ok rl" and "idle rl key t"
  shows "normalise raw \<noteq> key \<Longrightarrow> window_of (snd (allow_at t raw rl)) key \<in> {None, window_of rl key}"
    and "normalise raw = key \<Longrightarrow> \<not> fst (allow_at t raw rl) \<and> window_of (snd (allow_at t raw rl)) key = None \<or>
      (fst (allow_at t raw rl) \<longleftrightarrow> 1 \<le> rl_budget rl) \<and>
      window_of (snd (allow_at t raw rl)) key = Some \<lparr>w_started = t, w_attempts = 1\<rparr>"
proof -
  have d: "distinct (map fst (rl_windows rl))" using assms(1) by (simp add: limiter_ok_def)
  note kept = map_of_filter_distinct [OF d, of "\<lambda>(_, w). t - w_started w < window_seconds" key]
  show "normalise raw \<noteq> key \<Longrightarrow> window_of (snd (allow_at t raw rl)) key \<in> {None, window_of rl key}"
    using kept by (auto simp: allow_at_def Let_def update_conv' split: option.splits if_splits)
  show "normalise raw = key \<Longrightarrow> \<not> fst (allow_at t raw rl) \<and> window_of (snd (allow_at t raw rl)) key = None \<or>
      (fst (allow_at t raw rl) \<longleftrightarrow> 1 \<le> rl_budget rl) \<and>
      window_of (snd (allow_at t raw rl)) key = Some \<lparr>w_started = t, w_attempts = 1\<rparr>"
    using kept assms(2)
    by (auto simp: allow_at_def Let_def update_conv' idle_def window_seconds_def split: option.splits if_splits)
qed

text \<open>A window that is over lets its address in again, however full the table is.\<close>

lemma allow_at_over:
  assumes "limiter_ok rl" and "window_of rl key = Some w" and "window_seconds \<le> t - w_started w"
    and "normalise raw = key" and "0 < rl_budget rl"
  shows "fst (allow_at t raw rl)"
proof -
  let ?p = "\<lambda>(_, w). t - w_started w < window_seconds"
  have "(key, w) \<in> set (rl_windows rl)" using assms(2) by (rule map_of_SomeD)
  with assms(3) have "length (filter ?p (rl_windows rl)) < length (rl_windows rl)"
    by (intro length_filter_less) auto
  moreover have "length (rl_windows rl) \<le> max_tracked" using assms(1) by (simp add: limiter_ok_def)
  moreover have "map_of (filter ?p (rl_windows rl)) key = None"
    using map_of_filter_distinct [of "rl_windows rl" ?p key] assms(1-3) by (simp add: limiter_ok_def)
  ultimately show ?thesis
    using assms(2-5) by (auto simp: allow_at_def Let_def window_seconds_def split: option.splits)
qed

section \<open>The budget over time\<close>

text \<open>
  How many attempts at an address can still go ahead from the moment \<open>t\<close> up to \<open>t1\<close>: what the running
  window has left, and a full budget for every window that can begin after it.
\<close>

definition left_until :: "int \<Rightarrow> rate_limiter \<Rightarrow> str \<Rightarrow> int \<Rightarrow> nat" where
  "left_until t1 rl key t =
     (if idle rl key t then rl_budget rl * (nat ((t1 - t) div window_seconds) + 1)
      else (case window_of rl key of None \<Rightarrow> 0
        | Some w \<Rightarrow> (rl_budget rl - w_attempts w) + rl_budget rl * nat ((t1 - w_started w) div window_seconds)))"

lemma left_idle: "idle rl key t \<Longrightarrow> left_until t1 rl key t = rl_budget rl * (nat ((t1 - t) div window_seconds) + 1)"
  by (simp add: left_until_def)

lemma left_running:
  "window_of rl key = Some w \<Longrightarrow> t - w_started w < window_seconds \<Longrightarrow>
   left_until t1 rl key t = (rl_budget rl - w_attempts w) + rl_budget rl * nat ((t1 - w_started w) div window_seconds)"
  by (simp add: left_until_def idle_def)

lemma windows_between:
  "t \<le> t1 \<Longrightarrow> window_seconds \<le> t - s \<Longrightarrow> nat ((t1 - t) div window_seconds) + 1 \<le> nat ((t1 - s) div window_seconds)"
proof -
  assume "t \<le> t1" and "window_seconds \<le> t - s"
  then have "(t1 - t + window_seconds) div window_seconds \<le> (t1 - s) div window_seconds" and "0 \<le> (t1 - t) div window_seconds"
    by (simp_all add: window_seconds_def zdiv_mono1 pos_imp_zdiv_nonneg_iff)
  then show ?thesis by (simp add: window_seconds_def)
qed

lemma windows_mono: "t \<le> t' \<Longrightarrow> nat ((t1 - t') div window_seconds) \<le> nat ((t1 - t) div window_seconds)"
  by (intro nat_mono zdiv_mono1) (simp_all add: window_seconds_def)

lemma left_mono:
  assumes "t \<le> t'" and "t' \<le> t1"
  shows "left_until t1 rl key t' \<le> left_until t1 rl key t"
proof (cases "idle rl key t")
  case True
  with assms(1) have "idle rl key t'" by (force simp: idle_def)
  with True windows_mono [OF assms(1), of t1] show ?thesis by (simp add: left_idle)
next
  case False
  then obtain w where w: "window_of rl key = Some w" "t - w_started w < window_seconds" by (auto simp: idle_def)
  show ?thesis
  proof (cases "idle rl key t'")
    case True
    then have "window_seconds \<le> t' - w_started w" using w(1) by (simp add: idle_def)
    from mult_le_mono2 [OF windows_between [OF assms(2) this], of "rl_budget rl"] show ?thesis
      unfolding left_idle [OF True] left_running [OF w] by linarith
  next
    case False
    with w(1) have "t' - w_started w < window_seconds" by (auto simp: idle_def)
    with w show ?thesis by (simp add: left_running)
  qed
qed

lemma left_after_attempt:
  assumes ok: "limiter_ok rl" and t: "t \<le> t1"
  shows "(if normalise raw = key \<and> fst (allow_at t raw rl) then 1 else 0) + left_until t1 (snd (allow_at t raw rl)) key t
    \<le> left_until t1 rl key t"
proof (cases "idle rl key t")
  case True
  let ?rl = "snd (allow_at t raw rl)"
  show ?thesis
  proof (cases "normalise raw = key")
    case False
    with allow_at_idle(1) [OF ok True, of raw] True have "idle ?rl key t" by (auto simp: idle_def)
    with True False show ?thesis by (simp add: left_idle)
  next
    case key: True
    from allow_at_idle(2) [OF ok True key] show ?thesis
    proof (elim disjE conjE)
      assume "\<not> fst (allow_at t raw rl)" and "window_of ?rl key = None"
      then show ?thesis using True by (simp add: left_idle idle_def)
    next
      assume go: "fst (allow_at t raw rl) \<longleftrightarrow> 1 \<le> rl_budget rl" and w: "window_of ?rl key = Some \<lparr>w_started = t, w_attempts = 1\<rparr>"
      have "left_until t1 ?rl key t = (rl_budget rl - 1) + rl_budget rl * nat ((t1 - t) div window_seconds)"
        using left_running [OF w, of t t1] by (simp add: window_seconds_def)
      with go show ?thesis unfolding left_idle [OF True] by simp
    qed
  qed
next
  case False
  then obtain w where w: "window_of rl key = Some w" "t - w_started w < window_seconds" by (auto simp: idle_def)
  note k = allow_at_known [OF w, of raw]
  have "left_until t1 (snd (allow_at t raw rl)) key t =
      (rl_budget rl - (if normalise raw = key then w_attempts w + 1 else w_attempts w)) +
      rl_budget rl * nat ((t1 - w_started w) div window_seconds)"
    using left_running [OF k(1), of t t1] w(2) by (cases "normalise raw = key") simp_all
  with left_running [OF w, of t1] k(2) show ?thesis by auto
qed

lemma window_of_succeeded: "normalise raw \<noteq> key \<Longrightarrow> window_of (succeeded raw rl) key = window_of rl key"
  by (simp add: succeeded_def delete_conv')

lemma granted_left:
  assumes "limiter_ok rl" and "sorted (attempt_times es)" and "\<forall>t\<in>set (attempt_times es). t0 \<le> t \<and> t \<le> t1"
    and "\<forall>raw. Success raw \<in> set es \<longrightarrow> normalise raw \<noteq> key"
  shows "granted key es rl \<le> left_until t1 rl key t0"
  using assms
proof (induction es arbitrary: rl t0 rule: attempt_times.induct)
  case (2 t raw es)
  let ?rl = "snd (allow_at t raw rl)"
  have "granted key es ?rl \<le> left_until t1 ?rl key t"
    by (rule "2.IH") (use "2.prems" allow_at_ok in auto)
  with left_after_attempt [OF "2.prems"(1), of t t1 raw key] left_mono [of t0 t t1 rl key] "2.prems"(3)
  show ?case by simp
next
  case (3 raw es)
  have "granted key es (succeeded raw rl) \<le> left_until t1 (succeeded raw rl) key t0"
    by (rule "3.IH") (use "3.prems" succeeded_ok in auto)
  moreover have "left_until t1 (succeeded raw rl) key t0 = left_until t1 rl key t0"
  proof -
    have eqs: "window_of (succeeded raw rl) key = window_of rl key" "rl_budget (succeeded raw rl) = rl_budget rl"
      using window_of_succeeded [of raw key rl] "3.prems"(4) by simp_all (simp add: succeeded_def)
    show ?thesis unfolding left_until_def idle_def eqs ..
  qed
  ultimately show ?case by simp
qed simp

lemma left_bound:
  assumes "t0 \<le> t1"
  shows "left_until t1 rl key t0 \<le> rl_budget rl * (nat ((t1 - t0) div window_seconds) + 2)"
proof (cases "idle rl key t0")
  case False
  then obtain w where w: "window_of rl key = Some w" "t0 - w_started w < window_seconds" by (auto simp: idle_def)
  have "(t1 - w_started w) div window_seconds \<le> (t1 - t0 + window_seconds) div window_seconds"
    using w(2) by (intro zdiv_mono1) (simp_all add: window_seconds_def)
  also have "\<dots> = (t1 - t0) div window_seconds + 1" by (simp add: window_seconds_def)
  finally have "nat ((t1 - w_started w) div window_seconds) \<le> nat ((t1 - t0) div window_seconds) + 1"
    using assms by (simp add: window_seconds_def pos_imp_zdiv_nonneg_iff nat_le_iff)
  from mult_le_mono2 [OF this, of "rl_budget rl"] show ?thesis
    unfolding left_running [OF w] by (simp add: algebra_simps)
qed (simp add: left_idle)

text \<open>
  C36: Guessing is limited, at any time and for ever. After any past of attempts and successful logins at
  any addresses, of the attempts at one address in any stretch of time, however it is spelled and whatever
  goes on at the others, at most the budget goes ahead for every window of 60 seconds that begins or
  runs in it: the full minutes of the stretch and two more, or one more when the address is not being
  counted. (Within the stretch the clock does not run backwards and the address does not log in.) Once
  its window is over an address is let in again, and no more than 4096 addresses are ever tracked.
\<close>

theorem attempts_are_limited:
  assumes "sorted (attempt_times es)" and "\<forall>t\<in>set (attempt_times es). t0 \<le> t \<and> t \<le> t1"
    and "\<forall>raw. Success raw \<in> set es \<longrightarrow> normalise raw \<noteq> key"
  shows "granted key es (run_events past (with_budget b)) \<le> b * (nat ((t1 - t0) div 60) + 2) \<and>
    (window_of (run_events past (with_budget b)) key = None \<longrightarrow>
       granted key es (run_events past (with_budget b)) \<le> b * (nat ((t1 - t0) div 60) + 1)) \<and>
    (\<forall>w raw t. window_of (run_events past (with_budget b)) key = Some w \<longrightarrow> normalise raw = key \<longrightarrow>
       60 \<le> t - w_started w \<longrightarrow> 0 < b \<longrightarrow> fst (allow_at t raw (run_events past (with_budget b)))) \<and>
    length (rl_windows (run_events past (with_budget b))) \<le> 4096"
proof (intro conjI allI impI)
  let ?rl = "run_events past (with_budget b)"
  have ok: "limiter_ok ?rl" by (rule run_ok) (simp add: limiter_ok_def with_budget_def)
  have budget: "rl_budget ?rl = b" by (simp add: with_budget_def)
  have g: "granted key es ?rl \<le> left_until t1 ?rl key t0"
    by (rule granted_left [OF ok assms])
  have none: "granted key es ?rl = 0" if "t1 < t0"
  proof -
    have "attempt_times es = []" using assms(2) that by (cases "attempt_times es") auto
    then have "granted key es rl = 0" for rl by (induction es arbitrary: rl rule: attempt_times.induct) simp_all
    then show ?thesis .
  qed
  show "granted key es ?rl \<le> b * (nat ((t1 - t0) div 60) + 2)"
    using g left_bound [of t0 t1 ?rl key] none budget by (cases "t0 \<le> t1") (simp_all add: window_seconds_def)
  show "granted key es ?rl \<le> b * (nat ((t1 - t0) div 60) + 1)" if "window_of ?rl key = None"
    using g that budget by (simp add: left_idle idle_def window_seconds_def)
  show "fst (allow_at t raw ?rl)" if "window_of ?rl key = Some w" "normalise raw = key" "60 \<le> t - w_started w" "0 < b" for w raw t
    by (rule allow_at_over [OF ok that(1) _ that(2)]) (use that budget in \<open>simp_all add: window_seconds_def\<close>)
  show "length (rl_windows ?rl) \<le> 4096" using ok by (simp add: limiter_ok_def max_tracked_def)
qed

lemma b_differs: "normalise ''b'' \<noteq> ''a''"
  by code_simp

theorem attempts_are_limited_witness:
  "granted ''a'' [Attempt 64 ''A '', Success ''b'', Attempt 70 '' a'', Attempt 130 ''a'']
     (run_events [Attempt 5 ''a'', Attempt 6 ''b''] (with_budget 2)) \<le> 6"
  using attempts_are_limited [of "[Attempt 64 ''A '', Success ''b'', Attempt 70 '' a'', Attempt 130 ''a'']" 64 130 "''a''"
      "[Attempt 5 ''a'', Attempt 6 ''b'']" 2]
  by (auto simp: b_differs)

end
