(* ===== verification/Encoding.thy ===== *)
theory Encoding
  imports Codec
begin

text \<open>
  \<open>ls-core/src/encoding.rs\<close>: URL-safe base64 without padding (\<open>b64\<close>) and lowercase hexadecimal
  (\<open>hex\<close>). Both are codecs; base64 is canonical, because the decoder refuses a final group whose
  unused bits are not zero.
\<close>

section \<open>Base64\<close>

definition alphabet :: str where
  "alphabet = ''ABCDEFGHIJKLMNOPQRSTUVWXYZabcdefghijklmnopqrstuvwxyz0123456789-_''"

definition b64_chunk_bits :: "bytes \<Rightarrow> u32" where
  "b64_chunk_bits chunk =
     (let b0 = ucast (chunk ! 0);
          b1 = (if 1 < length chunk then ucast (chunk ! 1) else 0);
          b2 = (if 2 < length chunk then ucast (chunk ! 2) else 0)
      in push_bit 16 b0 OR push_bit 8 b1 OR b2)"

definition b64_encode_chunk :: "bytes \<Rightarrow> str" where
  "b64_encode_chunk chunk =
     (let bits = b64_chunk_bits chunk
      in map (\<lambda>i. alphabet ! unat (drop_bit (18 - 6 * i) bits AND 0x3F)) [0..<length chunk + 1])"

definition b64_encode :: "bytes \<Rightarrow> str" where
  "b64_encode input = concat (map b64_encode_chunk (chunks 3 input))"

definition value_of :: "char \<Rightarrow> u8 option" where
  "value_of c =
     (if is_ascii_uppercase c then Some (of_char c - of_char (CHR ''A''))
      else if is_ascii_lowercase c then Some (of_char c - of_char (CHR ''a'') + 26)
      else if is_ascii_digit c then Some (of_char c - of_char (CHR ''0'') + 52)
      else if c = CHR ''-'' then Some 62
      else if c = CHR ''_'' then Some 63
      else None)"

text \<open>The loop that gathers the bits of one group.\<close>

fun b64_gather :: "nat \<Rightarrow> str \<Rightarrow> u32 \<Rightarrow> u32 option" where
  "b64_gather i [] bits = Some bits"
| "b64_gather i (c # cs) bits =
     (case value_of c of
        None \<Rightarrow> None
      | Some v \<Rightarrow> b64_gather (Suc i) cs (bits OR push_bit (18 - 6 * i) (ucast v)))"

definition b64_decode_chunk :: "str \<Rightarrow> bytes option" where
  "b64_decode_chunk chunk =
     (case b64_gather 0 chunk 0 of
        None \<Rightarrow> None
      | Some bits \<Rightarrow>
          (let unused_bits = (if length chunk = 2 then 4 else if length chunk = 3 then 2 else 0 :: nat)
           in if unused_bits > 0 \<and>
                 drop_bit (24 - 6 * length chunk) bits AND (push_bit unused_bits 1 - 1) \<noteq> 0
              then None
              else Some (map (\<lambda>i. ucast (drop_bit (16 - 8 * i) bits AND 0xFF)) [0..<length chunk - 1])))"

definition b64_decode :: "str \<Rightarrow> bytes option" where
  "b64_decode input =
     (if length input mod 4 = 1 then None
      else map_option concat (traverse_opt b64_decode_chunk (chunks 4 input)))"

subsection \<open>The alphabet\<close>

lemma length_alphabet [simp]: "length alphabet = 64"
  by (simp add: alphabet_def)

lemma code_alphabet: "map code alphabet = [65..<91] @ [97..<123] @ [48..<58] @ [45, 95]"
  by (simp add: alphabet_def upt_rec)

lemma alphabet_eq: "alphabet = map char_of ([65..<91] @ [97..<123] @ [48..<58] @ [45, 95 :: nat])"
  unfolding code_alphabet [symmetric] by (simp add: o_def)

lemma alphabet_nth:
  "n < 64 \<Longrightarrow> alphabet ! n = char_of
     (if n < 26 then 65 + n else if n < 52 then 71 + n else if n < 62 then n - 4
      else if n = 62 then 45 else (95 :: nat))"
  by (auto simp: alphabet_eq nth_append nth_Cons')

lemma value_of_alphabet:
  assumes "n < 64"
  shows "value_of (alphabet ! n) = Some (of_nat n)"
proof -
  consider "n < 26" | "26 \<le> n" "n < 52" | "52 \<le> n" "n < 62" | "n = 62" | "n = 63"
    using assms by linarith
  then show ?thesis
    by cases (auto simp: alphabet_nth value_of_def is_ascii_uppercase_def is_ascii_lowercase_def
        is_ascii_digit_def word_unat_eq_iff unat_of_nat unat_word_ariths unat_sub_if' char_of_eq_iff)
qed

lemma value_of_in_alphabet:
  assumes "value_of c \<noteq> None"
  shows "c \<in> set alphabet"
proof -
  from assms have "code c \<in> {65..<91} \<union> ({97..<123} \<union> ({48..<58} \<union> {45, 95}))"
    by (auto simp: value_of_def is_ascii_uppercase_def is_ascii_lowercase_def is_ascii_digit_def
        split: if_splits)
  then have "char_of (code c) \<in> set alphabet"
    unfolding alphabet_eq set_map set_append set_upt list.set by (rule imageI)
  then show ?thesis by simp
qed

lemma value_of_Some:
  assumes "value_of c = Some v"
  shows "unat v < 64 \<and> alphabet ! unat v = c"
proof -
  from assms have "c \<in> set alphabet"
    by (auto intro: value_of_in_alphabet)
  then obtain n where n: "n < 64" "alphabet ! n = c"
    by (auto simp: in_set_conv_nth)
  with value_of_alphabet [of n] assms have "v = of_nat n" by simp
  with n show ?thesis by (simp add: unat_of_nat)
qed

subsection \<open>One group\<close>

lemma sextets_rejoin:
  fixes bits :: u32
  shows "push_bit 18 (take_bit 6 (drop_bit 18 bits)) OR push_bit 12 (take_bit 6 (drop_bit 12 bits))
       OR push_bit 6 (take_bit 6 (drop_bit 6 bits)) OR take_bit 6 bits = take_bit 24 bits"
proof (rule bit_word_eqI)
  fix n :: nat
  consider "n < 6" | "6 \<le> n" "n < 12" | "12 \<le> n" "n < 18" | "18 \<le> n"
    by linarith
  then show "bit (push_bit 18 (take_bit 6 (drop_bit 18 bits)) OR push_bit 12 (take_bit 6 (drop_bit 12 bits))
       OR push_bit 6 (take_bit 6 (drop_bit 6 bits)) OR take_bit 6 bits) n = bit (take_bit 24 bits) n"
    by cases (auto simp: bit_simps)
qed

lemma and_63: "(x :: u32) AND 0x3F = take_bit 6 x"
  by (simp add: take_bit_eq_mask mask_eq_exp_minus_1)

lemma and_255: "(x :: u32) AND 0xFF = take_bit 8 x"
  by (simp add: take_bit_eq_mask mask_eq_exp_minus_1)

lemma unat_sextet: "unat (take_bit 6 (x :: u32)) < 64"
proof -
  have "unat (take_bit 6 x) = take_bit 6 (unat x)"
    by (simp add: unsigned_take_bit_eq)
  then show ?thesis
    using take_bit_nat_less_exp [of 6 "unat x"] by simp
qed

lemma ucast_sextet: "ucast (ucast (take_bit 6 (x :: u32)) :: u8) = take_bit 6 x"
  by (rule bit_word_eqI) (auto simp: bit_simps)

lemma value_of_sextet:
  "value_of (alphabet ! unat (take_bit 6 (x :: u32))) = Some (ucast (take_bit 6 x))"
  using value_of_alphabet [OF unat_sextet, of x] by simp

lemma b64_encode_chunk_1:
  "b64_encode_chunk [a] =
     (let bits = push_bit 16 (ucast a) :: u32
      in [alphabet ! unat (take_bit 6 (drop_bit 18 bits)), alphabet ! unat (take_bit 6 (drop_bit 12 bits))])"
  by (simp add: b64_encode_chunk_def b64_chunk_bits_def and_63 upt_rec Let_def)

lemma b64_encode_chunk_2:
  "b64_encode_chunk [a, b] =
     (let bits = push_bit 16 (ucast a) OR push_bit 8 (ucast b) :: u32
      in [alphabet ! unat (take_bit 6 (drop_bit 18 bits)), alphabet ! unat (take_bit 6 (drop_bit 12 bits)),
          alphabet ! unat (take_bit 6 (drop_bit 6 bits))])"
  by (simp add: b64_encode_chunk_def b64_chunk_bits_def and_63 upt_rec Let_def)

lemma b64_encode_chunk_3:
  "b64_encode_chunk [a, b, c] =
     (let bits = push_bit 16 (ucast a) OR push_bit 8 (ucast b) OR ucast c :: u32
      in [alphabet ! unat (take_bit 6 (drop_bit 18 bits)), alphabet ! unat (take_bit 6 (drop_bit 12 bits)),
          alphabet ! unat (take_bit 6 (drop_bit 6 bits)), alphabet ! unat (take_bit 6 bits)])"
  by (simp add: b64_encode_chunk_def b64_chunk_bits_def and_63 upt_rec Let_def)

lemmas b64_encode_chunk_eqs = b64_encode_chunk_1 b64_encode_chunk_2 b64_encode_chunk_3

text \<open>Gathering the sextets of a word gives back its upper 12, 18 or 24 of 24 bits.\<close>

lemma b64_gather_2:
  "b64_gather 0 [alphabet ! unat (take_bit 6 (drop_bit 18 bits)), alphabet ! unat (take_bit 6 (drop_bit 12 bits))] 0
   = Some (push_bit 18 (take_bit 6 (drop_bit 18 bits)) OR push_bit 12 (take_bit 6 (drop_bit 12 bits)))"
  by (simp only: b64_gather.simps value_of_sextet option.case ucast_sextet or.left_neutral) (simp add: or.assoc)

lemma b64_gather_3:
  "b64_gather 0 [alphabet ! unat (take_bit 6 (drop_bit 18 bits)), alphabet ! unat (take_bit 6 (drop_bit 12 bits)),
      alphabet ! unat (take_bit 6 (drop_bit 6 bits))] 0
   = Some (push_bit 18 (take_bit 6 (drop_bit 18 bits)) OR push_bit 12 (take_bit 6 (drop_bit 12 bits))
       OR push_bit 6 (take_bit 6 (drop_bit 6 bits)))"
  by (simp only: b64_gather.simps value_of_sextet option.case ucast_sextet or.left_neutral) (simp add: or.assoc)

lemma b64_gather_4:
  "b64_gather 0 [alphabet ! unat (take_bit 6 (drop_bit 18 bits)), alphabet ! unat (take_bit 6 (drop_bit 12 bits)),
      alphabet ! unat (take_bit 6 (drop_bit 6 bits)), alphabet ! unat (take_bit 6 bits)] 0
   = Some (take_bit 24 bits)"
  unfolding sextets_rejoin [symmetric]
  by (simp only: b64_gather.simps value_of_sextet option.case ucast_sextet or.left_neutral) (simp add: or.assoc)

lemmas b64_gather_eqs = b64_gather_2 b64_gather_3 b64_gather_4

lemma b64_decode_chunk_4:
  "length s = 4 \<Longrightarrow> b64_gather 0 s 0 = Some bits \<Longrightarrow>
   b64_decode_chunk s = Some [ucast (take_bit 8 (drop_bit 16 bits)),
     ucast (take_bit 8 (drop_bit 8 bits)), ucast (take_bit 8 bits)]"
  by (simp add: b64_decode_chunk_def and_255 upt_rec)

lemma and_3: "(x :: u32) AND 3 = take_bit 2 x"
  by (simp add: take_bit_eq_mask mask_eq_exp_minus_1)

lemma and_15: "(x :: u32) AND 15 = take_bit 4 x"
  by (simp add: take_bit_eq_mask mask_eq_exp_minus_1)

lemma b64_decode_chunk_3:
  "length s = 3 \<Longrightarrow> b64_gather 0 s 0 = Some bits \<Longrightarrow>
   b64_decode_chunk s = (if take_bit 2 (drop_bit 6 bits) \<noteq> 0 then None
     else Some [ucast (take_bit 8 (drop_bit 16 bits)), ucast (take_bit 8 (drop_bit 8 bits))])"
  by (simp add: b64_decode_chunk_def and_255 and_3 upt_rec)

lemma b64_decode_chunk_2:
  "length s = 2 \<Longrightarrow> b64_gather 0 s 0 = Some bits \<Longrightarrow>
   b64_decode_chunk s = (if take_bit 4 (drop_bit 12 bits) \<noteq> 0 then None
     else Some [ucast (take_bit 8 (drop_bit 16 bits))])"
  by (simp add: b64_decode_chunk_def and_255 and_15 upt_rec)

lemma less_8_cases: "n < 8 \<Longrightarrow> n = 0 \<or> n = 1 \<or> n = 2 \<or> n = 3 \<or> n = 4 \<or> n = 5 \<or> n = 6 \<or> n = (7 :: nat)"
  by linarith

lemma bit_byte_beyond [simp]: "8 \<le> n \<Longrightarrow> \<not> bit (a :: u8) n"
  using bit_imp_le_length [of a n] by auto

lemma byte_eqI: "(\<And>n. n < 8 \<Longrightarrow> bit a n = bit b n) \<Longrightarrow> a = (b :: u8)"
  by (rule bit_word_eqI) simp

lemma b64_decode_encode_chunk_3: "b64_decode_chunk (b64_encode_chunk [a, b, c]) = Some [a, b, c]"
proof -
  let ?bits = "push_bit 16 (ucast a) OR push_bit 8 (ucast b) OR ucast c :: u32"
  have "ucast (take_bit 8 (drop_bit 16 (take_bit 24 ?bits))) = a"
    and "ucast (take_bit 8 (drop_bit 8 (take_bit 24 ?bits))) = b"
    and "ucast (take_bit 8 (take_bit 24 ?bits)) = c"
    by (rule byte_eqI, drule less_8_cases, elim disjE; simp add: bit_simps)+
  then show ?thesis
    by (simp only: b64_encode_chunk_3 Let_def b64_decode_chunk_4 [OF _ b64_gather_4] list.size)
qed

lemma b64_decode_encode_chunk_2: "b64_decode_chunk (b64_encode_chunk [a, b]) = Some [a, b]"
proof -
  let ?bits = "push_bit 16 (ucast a) OR push_bit 8 (ucast b) :: u32"
  let ?g = "push_bit 18 (take_bit 6 (drop_bit 18 ?bits)) OR push_bit 12 (take_bit 6 (drop_bit 12 ?bits))
       OR push_bit 6 (take_bit 6 (drop_bit 6 ?bits))"
  have "take_bit 2 (drop_bit 6 ?g) = 0"
    by (rule bit_word_eqI) (auto simp: bit_simps less_2_cases_iff)
  moreover have "ucast (take_bit 8 (drop_bit 16 ?g)) = a"
    and "ucast (take_bit 8 (drop_bit 8 ?g)) = b"
    by (rule byte_eqI, drule less_8_cases, elim disjE; simp add: bit_simps)+
  ultimately show ?thesis
    by (simp only: b64_encode_chunk_2 Let_def b64_decode_chunk_3 [OF _ b64_gather_3] list.size) simp
qed

lemma b64_decode_encode_chunk_1: "b64_decode_chunk (b64_encode_chunk [a]) = Some [a]"
proof -
  let ?bits = "push_bit 16 (ucast a) :: u32"
  let ?g = "push_bit 18 (take_bit 6 (drop_bit 18 ?bits)) OR push_bit 12 (take_bit 6 (drop_bit 12 ?bits))"
  have "take_bit 4 (drop_bit 12 ?g) = 0"
    by (rule bit_word_eqI) (auto simp: bit_simps)
  moreover have "ucast (take_bit 8 (drop_bit 16 ?g)) = a"
    by (rule byte_eqI, drule less_8_cases, elim disjE; simp add: bit_simps)+
  ultimately show ?thesis
    by (simp only: b64_encode_chunk_1 Let_def b64_decode_chunk_2 [OF _ b64_gather_2] list.size) simp
qed

lemma b64_decode_encode_chunk:
  assumes "chunk \<noteq> []" and "length chunk \<le> 3"
  shows "b64_decode_chunk (b64_encode_chunk chunk) = Some chunk"
proof -
  from assms consider a where "chunk = [a]" | a b where "chunk = [a, b]" | a b c where "chunk = [a, b, c]"
    by (auto simp: neq_Nil_conv length_Suc_conv le_Suc_eq numeral_eq_Suc)
  then show ?thesis
    by cases (simp_all only: b64_decode_encode_chunk_1 b64_decode_encode_chunk_2 b64_decode_encode_chunk_3)
qed

text \<open>
  The other direction: a group that decodes is the spelling of what it decodes to. The values of
  its characters are below 64, so they equal their low six bits.
\<close>

lemma value_of_SomeD:
  assumes "value_of c = Some v"
  obtains w where "v = take_bit 6 w" "c = alphabet ! unat (take_bit 6 (ucast w :: u32))"
proof
  from value_of_Some [OF assms] have v: "unat v < 64" "alphabet ! unat v = c" by auto
  then have "take_bit 6 (unat v) = unat v" by (simp add: take_bit_nat_eq_self)
  then show *: "v = take_bit 6 v"
    by (metis unsigned_take_bit_eq word_unat_eq_iff)
  have "unat (take_bit 6 (ucast v :: u32)) = unat v"
    by (simp add: unsigned_take_bit_eq \<open>take_bit 6 (unat v) = unat v\<close> unsigned_ucast_eq)
  with v show "c = alphabet ! unat (take_bit 6 (ucast v :: u32))" by simp
qed

lemma less_6_cases: "n < 6 \<Longrightarrow> n = 0 \<or> n = 1 \<or> n = 2 \<or> n = 3 \<or> n = 4 \<or> n = (5 :: nat)"
  by linarith

lemma sextet_eqI:
  "(\<And>n. n < 6 \<Longrightarrow> bit x n = bit y n) \<Longrightarrow> take_bit 6 x = take_bit 6 (y :: u32)"
  by (rule bit_word_eqI) (auto simp: bit_simps)

lemma b64_encode_decode_chunk_4:
  assumes "b64_decode_chunk [c0, c1, c2, c3] = Some bs"
  shows "length bs = 3 \<and> b64_encode_chunk bs = [c0, c1, c2, c3]"
proof -
  from assms obtain v0 v1 v2 v3 where
    "value_of c0 = Some v0" "value_of c1 = Some v1" "value_of c2 = Some v2" "value_of c3 = Some v3"
    by (auto simp: b64_decode_chunk_def split: option.splits)
  moreover from this obtain w0 w1 w2 w3 where
      v: "v0 = take_bit 6 w0" "v1 = take_bit 6 w1" "v2 = take_bit 6 w2" "v3 = take_bit 6 w3"
    and c: "c0 = alphabet ! unat (take_bit 6 (ucast w0 :: u32))" "c1 = alphabet ! unat (take_bit 6 (ucast w1 :: u32))"
      "c2 = alphabet ! unat (take_bit 6 (ucast w2 :: u32))" "c3 = alphabet ! unat (take_bit 6 (ucast w3 :: u32))"
    by (metis value_of_SomeD)
  define g :: u32 where "g = push_bit 18 (ucast v0) OR push_bit 12 (ucast v1) OR push_bit 6 (ucast v2) OR ucast v3"
  ultimately have "b64_gather 0 [c0, c1, c2, c3] 0 = Some g"
    by (simp add: or.assoc)
  with assms have bs: "bs = [ucast (take_bit 8 (drop_bit 16 g)), ucast (take_bit 8 (drop_bit 8 g)), ucast (take_bit 8 g)]"
    by (simp add: b64_decode_chunk_4)
  let ?b = "push_bit 16 (ucast (bs ! 0)) OR push_bit 8 (ucast (bs ! 1)) OR ucast (bs ! 2) :: u32"
  have "take_bit 6 (drop_bit 18 ?b) = take_bit 6 (ucast w0)" "take_bit 6 (drop_bit 12 ?b) = take_bit 6 (ucast w1)"
    "take_bit 6 (drop_bit 6 ?b) = take_bit 6 (ucast w2)" "take_bit 6 ?b = take_bit 6 (ucast w3)"
    by (rule sextet_eqI, drule less_6_cases, elim disjE; simp add: bs g_def v bit_simps)+
  with bs c show ?thesis
    by (simp add: b64_encode_chunk_3)
qed

lemma b64_encode_decode_chunk_3:
  assumes "b64_decode_chunk [c0, c1, c2] = Some bs"
  shows "length bs = 2 \<and> b64_encode_chunk bs = [c0, c1, c2]"
proof -
  from assms obtain v0 v1 v2 where
    "value_of c0 = Some v0" "value_of c1 = Some v1" "value_of c2 = Some v2"
    by (auto simp: b64_decode_chunk_def split: option.splits)
  moreover from this obtain w0 w1 w2 where
      v: "v0 = take_bit 6 w0" "v1 = take_bit 6 w1" "v2 = take_bit 6 w2"
    and c: "c0 = alphabet ! unat (take_bit 6 (ucast w0 :: u32))" "c1 = alphabet ! unat (take_bit 6 (ucast w1 :: u32))"
      "c2 = alphabet ! unat (take_bit 6 (ucast w2 :: u32))"
    by (metis value_of_SomeD)
  define g :: u32 where "g = push_bit 18 (ucast v0) OR push_bit 12 (ucast v1) OR push_bit 6 (ucast v2)"
  ultimately have "b64_gather 0 [c0, c1, c2] 0 = Some g"
    by (simp add: or.assoc)
  with assms have z: "take_bit 2 (drop_bit 6 g) = 0"
    and bs: "bs = [ucast (take_bit 8 (drop_bit 16 g)), ucast (take_bit 8 (drop_bit 8 g))]"
    by (simp_all add: b64_decode_chunk_3 split: if_splits)
  from z have "\<not> bit (take_bit 2 (drop_bit 6 g)) 0" "\<not> bit (take_bit 2 (drop_bit 6 g)) 1"
    by simp_all
  then have z: "\<not> bit w2 0" "\<not> bit w2 1"
    by (simp_all add: g_def v bit_simps)
  let ?b = "push_bit 16 (ucast (bs ! 0)) OR push_bit 8 (ucast (bs ! 1)) :: u32"
  have "take_bit 6 (drop_bit 18 ?b) = take_bit 6 (ucast w0)" "take_bit 6 (drop_bit 12 ?b) = take_bit 6 (ucast w1)"
    "take_bit 6 (drop_bit 6 ?b) = take_bit 6 (ucast w2)"
    using z by - (rule sextet_eqI, drule less_6_cases, elim disjE; simp add: bs g_def v bit_simps)+
  with bs c show ?thesis
    by (simp add: b64_encode_chunk_2)
qed

lemma b64_encode_decode_chunk_2:
  assumes "b64_decode_chunk [c0, c1] = Some bs"
  shows "length bs = 1 \<and> b64_encode_chunk bs = [c0, c1]"
proof -
  from assms obtain v0 v1 where "value_of c0 = Some v0" "value_of c1 = Some v1"
    by (auto simp: b64_decode_chunk_def split: option.splits)
  moreover from this obtain w0 w1 where
      v: "v0 = take_bit 6 w0" "v1 = take_bit 6 w1"
    and c: "c0 = alphabet ! unat (take_bit 6 (ucast w0 :: u32))" "c1 = alphabet ! unat (take_bit 6 (ucast w1 :: u32))"
    by (metis value_of_SomeD)
  define g :: u32 where "g = push_bit 18 (ucast v0) OR push_bit 12 (ucast v1)"
  ultimately have "b64_gather 0 [c0, c1] 0 = Some g"
    by (simp add: or.assoc)
  with assms have z: "take_bit 4 (drop_bit 12 g) = 0"
    and bs: "bs = [ucast (take_bit 8 (drop_bit 16 g))]"
    by (simp_all add: b64_decode_chunk_2 split: if_splits)
  from z have "\<not> bit (take_bit 4 (drop_bit 12 g)) 0" "\<not> bit (take_bit 4 (drop_bit 12 g)) 1"
    "\<not> bit (take_bit 4 (drop_bit 12 g)) 2" "\<not> bit (take_bit 4 (drop_bit 12 g)) 3"
    by simp_all
  then have z: "\<not> bit w1 0" "\<not> bit w1 1" "\<not> bit w1 2" "\<not> bit w1 3"
    by (simp_all add: g_def v bit_simps)
  let ?b = "push_bit 16 (ucast (bs ! 0)) :: u32"
  have "take_bit 6 (drop_bit 18 ?b) = take_bit 6 (ucast w0)" "take_bit 6 (drop_bit 12 ?b) = take_bit 6 (ucast w1)"
    using z by - (rule sextet_eqI, drule less_6_cases, elim disjE; simp add: bs g_def v bit_simps)+
  with bs c show ?thesis
    by (simp add: b64_encode_chunk_1)
qed

subsection \<open>Whole texts\<close>

lemma length_b64_encode_chunk [simp]: "length (b64_encode_chunk chunk) = length chunk + 1"
  by (simp add: b64_encode_chunk_def Let_def)

lemma b64_encode_Nil [simp]: "b64_encode [] = []"
  by (simp add: b64_encode_def)

lemma b64_decode_Nil [simp]: "b64_decode [] = Some []"
  by (simp add: b64_decode_def)

lemma b64_encode_group:
  "length bs = 3 \<Longrightarrow> b64_encode (bs @ rest) = b64_encode_chunk bs @ b64_encode rest"
  by (simp add: b64_encode_def chunks_append)

lemma b64_encode_last:
  "0 < length bs \<Longrightarrow> length bs \<le> 3 \<Longrightarrow> b64_encode bs = b64_encode_chunk bs"
  by (simp add: b64_encode_def chunks_short)

lemma b64_decode_group:
  "length s = 4 \<Longrightarrow> b64_decode (s @ rest) =
     Option.bind (b64_decode_chunk s) (\<lambda>bs. map_option ((@) bs) (b64_decode rest))"
  by (cases "b64_decode_chunk s"; cases "traverse_opt b64_decode_chunk (chunks 4 rest)")
    (auto simp: b64_decode_def chunks_append)

lemma b64_decode_last:
  "2 \<le> length s \<Longrightarrow> length s \<le> 4 \<Longrightarrow> b64_decode s = b64_decode_chunk s"
proof -
  assume l: "2 \<le> length s" "length s \<le> 4"
  then have "length s mod 4 \<noteq> 1" "s \<noteq> []"
    by (auto simp: mod_if)
  with l show ?thesis
    by (cases "b64_decode_chunk s") (simp_all add: b64_decode_def chunks_short)
qed

lemma groups_induct [case_names Last Group]:
  assumes "\<And>xs. length xs \<le> n \<Longrightarrow> P xs"
    and "\<And>xs rest. length xs = n \<Longrightarrow> rest \<noteq> [] \<Longrightarrow> P rest \<Longrightarrow> P (xs @ rest)"
    and "0 < n"
  shows "P xs"
proof (induction xs rule: length_induct)
  case (1 xs)
  show ?case
  proof (cases "length xs \<le> n")
    case False
    with 1 \<open>0 < n\<close> have "P (drop n xs)" by simp
    with False have "P (take n xs @ drop n xs)" by (intro assms(2)) auto
    then show ?thesis by simp
  qed (rule assms(1))
qed

lemma b64_decode_encode: "b64_decode (b64_encode bs) = Some bs"
proof (induction bs rule: groups_induct [where n = 3])
  case (Last bs)
  then show ?case
    by (cases "bs = []")
      (auto simp: b64_encode_last b64_decode_last b64_decode_encode_chunk Suc_le_eq)
next
  case (Group bs rest)
  moreover from Group have "b64_decode_chunk (b64_encode_chunk bs) = Some bs"
    by (intro b64_decode_encode_chunk) auto
  ultimately show ?case
    by (simp add: b64_encode_group b64_decode_group)
qed simp

lemma b64_encode_decode: "b64_decode s = Some bs \<Longrightarrow> b64_encode bs = s"
proof (induction s arbitrary: bs rule: groups_induct [where n = 4])
  case (Last s)
  then consider "s = []" | c where "s = [c]" | c d where "s = [c, d]" | c d e where "s = [c, d, e]"
    | c d e f where "s = [c, d, e, f]"
    by (auto simp: le_Suc_eq length_Suc_conv numeral_eq_Suc)
  then show ?case
    using Last.prems b64_encode_last [of bs]
    by cases (auto simp: b64_decode_last b64_decode_def [of "[_]"] simp del: length_greater_0_conv
        dest!: b64_encode_decode_chunk_2 b64_encode_decode_chunk_3 b64_encode_decode_chunk_4)
next
  case (Group s rest)
  then obtain bs1 bs2 where b: "b64_decode_chunk s = Some bs1" "b64_decode rest = Some bs2" "bs = bs1 @ bs2"
    by (auto simp: b64_decode_group bind_eq_Some_conv)
  moreover from Group obtain c d e f where "s = [c, d, e, f]"
    by (auto simp: length_Suc_conv numeral_eq_Suc)
  ultimately show ?case
    using b64_encode_decode_chunk_4 [of c d e f bs1] Group.IH by (auto simp: b64_encode_group)
qed simp

interpretation b64: canonical_codec b64_encode b64_decode "\<lambda>_. True"
  by unfold_locales (simp_all add: b64_decode_encode b64_encode_decode)

lemma b64_encode_alphabet: "set (b64_encode bs) \<subseteq> set alphabet"
proof -
  have "set (b64_encode_chunk chunk) \<subseteq> set alphabet" for chunk
    by (auto simp: b64_encode_chunk_def Let_def and_63 unat_sextet)
  then show ?thesis
    unfolding b64_encode_def by fastforce
qed

lemma length_b64_encode: "length (b64_encode bs) = (length bs * 4 + 2) div 3"
proof (induction bs rule: groups_induct [where n = 3])
  case (Last bs)
  then have "length bs = 0 \<or> length bs = 1 \<or> length bs = 2 \<or> length bs = 3" by linarith
  then consider "bs = []" | "length bs = 1" | "length bs = 2" | "length bs = 3"
    by auto
  then show ?case
    by cases (simp_all add: b64_encode_last)
next
  case (Group bs rest)
  then show ?case
    by (simp add: b64_encode_group)
qed simp

section \<open>Hexadecimal\<close>

definition hex_digits :: str where
  "hex_digits = ''0123456789abcdef''"

definition hex_encode_byte :: "u8 \<Rightarrow> str" where
  "hex_encode_byte b = [hex_digits ! unat (drop_bit 4 b), hex_digits ! unat (b AND 0x0F)]"

definition hex_encode :: "bytes \<Rightarrow> str" where
  "hex_encode input = concat (map hex_encode_byte input)"

definition nibble :: "char \<Rightarrow> u8 option" where
  "nibble c =
     (if 48 \<le> code c \<and> code c \<le> 57 then Some (of_char c - 48)
      else if 97 \<le> code c \<and> code c \<le> 102 then Some (of_char c - 97 + 10)
      else if 65 \<le> code c \<and> code c \<le> 70 then Some (of_char c - 65 + 10)
      else None)"

definition hex_decode_pair :: "str \<Rightarrow> u8 option" where
  "hex_decode_pair pair =
     Option.bind (nibble (pair ! 0)) (\<lambda>h.
     Option.bind (nibble (pair ! 1)) (\<lambda>l. Some (push_bit 4 h OR l)))"

definition hex_decode :: "str \<Rightarrow> bytes option" where
  "hex_decode input =
     (if length input mod 2 \<noteq> 0 then None
      else traverse_opt hex_decode_pair (chunks 2 input))"

lemma length_hex_digits [simp]: "length hex_digits = 16"
  by (simp add: hex_digits_def)

lemma code_hex_digits: "map code hex_digits = [48..<58] @ [97..<103]"
  by (simp add: hex_digits_def upt_rec)

lemma code_hex_digit: "n < 16 \<Longrightarrow> code (hex_digits ! n) = (if n < 10 then 48 + n else 87 + n)"
  using arg_cong [where f = "\<lambda>xs. xs ! n", OF code_hex_digits] by (auto simp: nth_append nth_Cons')

lemma nibble_hex_digit: "n < 16 \<Longrightarrow> nibble (hex_digits ! n) = Some (of_nat n)"
  by (auto simp: nibble_def code_hex_digit word_unat_eq_iff unat_of_nat unat_word_ariths unat_sub_if')

lemma unat_nibbles: "unat (drop_bit 4 (b :: u8)) < 16" "unat (b AND 0x0F) < 16"
proof -
  have "unat b < 256" using unsigned_less [of b] by simp
  then show "unat (drop_bit 4 b) < 16"
    by (simp add: drop_bit_eq_div unat_div)
  show "unat (b AND 0x0F) < 16"
    using take_bit_nat_less_exp [of 4 "unat b"]
    by (simp add: unsigned_and_eq take_bit_eq_mask mask_eq_exp_minus_1)
qed

lemma nibbles_rejoin: "push_bit 4 (drop_bit 4 b) OR (b AND 0x0F) = (b :: u8)"
proof -
  have "(b AND 0x0F) = take_bit 4 b" by (simp add: take_bit_eq_mask mask_eq_exp_minus_1)
  then show ?thesis
    by (simp only:) (rule byte_eqI, drule less_8_cases, elim disjE; simp add: bit_simps)
qed

lemma hex_decode_pair_byte [simp]: "hex_decode_pair (hex_encode_byte b) = Some b"
  by (simp add: hex_decode_pair_def hex_encode_byte_def nibble_hex_digit unat_nibbles nibbles_rejoin)

lemma length_hex_encode_byte [simp]: "length (hex_encode_byte b) = 2"
  by (simp add: hex_encode_byte_def)

lemma length_hex_encode [simp]: "length (hex_encode bs) = 2 * length bs"
  by (induction bs) (simp_all add: hex_encode_def)

lemma hex_decode_encode: "hex_decode (hex_encode bs) = Some bs"
proof -
  have "chunks 2 (hex_encode bs) = map hex_encode_byte bs"
    unfolding hex_encode_def by (rule chunks_concat) auto
  then show ?thesis
    using traverse_opt_map_Some [of bs hex_decode_pair hex_encode_byte "\<lambda>b. b"]
    by (simp add: hex_decode_def)
qed

interpretation hex: codec hex_encode hex_decode "\<lambda>_. True"
  by unfold_locales (rule hex_decode_encode)

text \<open>Upper and lower case spell the same bytes, so hexadecimal is not canonical.\<close>

lemma hex_encode_lowercase:
  "c \<in> set (hex_encode bs) \<Longrightarrow> is_ascii_digit c \<or> 97 \<le> code c \<and> code c \<le> 102"
proof -
  have "c \<in> set hex_digits" if "c \<in> set (hex_encode_byte b)" for b
    using that unat_nibbles [of b] by (auto simp: hex_encode_byte_def)
  moreover have "list_all (\<lambda>c. is_ascii_digit c \<or> 97 \<le> code c \<and> code c \<le> 102) hex_digits"
    by (simp add: hex_digits_def is_ascii_digit_def)
  moreover assume "c \<in> set (hex_encode bs)"
  ultimately show ?thesis
    by (auto simp: hex_encode_def list_all_iff)
qed

section \<open>Properties\<close>

lemma hex_digit_lowercase:
  assumes "nibble c = Some v"
  shows "unat v < 16 \<and> to_ascii_lowercase [c] = [hex_digits ! unat v]"
proof -
  consider "48 \<le> code c" "code c \<le> 57" | "97 \<le> code c" "code c \<le> 102" | "65 \<le> code c" "code c \<le> 70"
    using assms by (auto simp: nibble_def split: if_splits)
  then have "unat v < 16 \<and> code (hex_digits ! unat v) = code (to_ascii_lowercase [c] ! 0)"
    using assms
    by cases (auto simp: nibble_def code_hex_digit to_ascii_lowercase_def is_ascii_uppercase_def
        unat_word_ariths unat_sub_if' simp del: code_eq_iff of_char_eq_iff)
  then show ?thesis
    by (simp add: to_ascii_lowercase_def)
qed

lemma nibble_lowercase:
  "n < 16 \<Longrightarrow> to_ascii_lowercase [c] = [hex_digits ! n] \<Longrightarrow> nibble c = Some (of_nat n)"
proof -
  assume n: "n < 16" and c: "to_ascii_lowercase [c] = [hex_digits ! n]"
  show ?thesis
  proof (cases "is_ascii_uppercase c")
    case False
    with c n nibble_hex_digit show ?thesis by (simp add: to_ascii_lowercase_def)
  next
    case True
    with c have "code (char_of (code c + 32)) = code (hex_digits ! n)"
      by (simp add: to_ascii_lowercase_def)
    with True n have "code c + 32 = 87 + n" "10 \<le> n"
      by (auto simp: is_ascii_uppercase_def code_hex_digit split: if_splits)
    then have "code c = 55 + n" by linarith
    with n \<open>10 \<le> n\<close> show ?thesis
      by (simp add: nibble_def word_unat_eq_iff unat_of_nat unat_word_ariths unat_sub_if')
  qed
qed

lemma hex_decode_pair_iff:
  "hex_decode_pair [c, d] = Some b \<longleftrightarrow> to_ascii_lowercase [c, d] = hex_encode_byte b"
proof
  assume "hex_decode_pair [c, d] = Some b"
  then obtain h l where hl: "nibble c = Some h" "nibble d = Some l" and b: "b = push_bit 4 h OR l"
    by (auto simp: hex_decode_pair_def bind_eq_Some_conv)
  have lt: "unat h < 16" "unat l < 16"
    and lc: "to_ascii_lowercase [c] = [hex_digits ! unat h]" "to_ascii_lowercase [d] = [hex_digits ! unat l]"
    using hl [THEN hex_digit_lowercase] by auto
  have small: "take_bit 4 v = v" if "unat v < 16" for v :: u8
    using that by (simp add: word_unat_eq_iff unsigned_take_bit_eq take_bit_nat_eq_self)
  have "drop_bit 4 (push_bit 4 (take_bit 4 h) OR take_bit 4 l) = take_bit 4 h"
    "(push_bit 4 (take_bit 4 h) OR take_bit 4 l) AND mask 4 = take_bit 4 l"
    by (rule byte_eqI, drule less_8_cases, elim disjE; simp add: bit_simps)+
  then have "drop_bit 4 b = h" "b AND 0x0F = l"
    by (simp_all add: b small lt mask_eq_exp_minus_1)
  with lc show "to_ascii_lowercase [c, d] = hex_encode_byte b"
    by (simp add: to_ascii_lowercase_def hex_encode_byte_def)
next
  assume "to_ascii_lowercase [c, d] = hex_encode_byte b"
  then have "nibble c = Some (of_nat (unat (drop_bit 4 b)))" "nibble d = Some (of_nat (unat (b AND 0x0F)))"
    by (auto intro!: nibble_lowercase unat_nibbles simp: to_ascii_lowercase_def hex_encode_byte_def
        simp del: of_nat_unat)
  then show "hex_decode_pair [c, d] = Some b"
    by (simp add: hex_decode_pair_def nibbles_rejoin)
qed

lemma hex_decode_Nil [simp]: "hex_decode [] = Some []"
  by (simp add: hex_decode_def)

lemma hex_decode_Cons2:
  "hex_decode (c # d # s) = Option.bind (hex_decode_pair [c, d]) (\<lambda>b. map_option ((#) b) (hex_decode s))"
  using chunks_append [of "[c, d]" 2 s]
  by (cases "hex_decode_pair [c, d]"; cases "traverse_opt hex_decode_pair (chunks 2 s)") (auto simp: hex_decode_def)

text \<open>
  URL-safe base64 is canonical: a text decodes to given bytes exactly when it is the text the
  encoder writes for them. So nothing is lost, padding, stray characters and non-zero unused bits
  are refused, and no two texts denote the same bytes.
\<close>

lemma b64_canonical: "b64_decode s = Some bs \<longleftrightarrow> s = b64_encode bs"
  using b64.dec_iff by simp

text \<open>
  Hexadecimal decoding accepts exactly the encoder's text in any mixture of cases: a text
  decodes to given bytes exactly when its lowercase form is their encoding.
\<close>

lemma hex_decode_spec: "hex_decode s = Some bs \<longleftrightarrow> to_ascii_lowercase s = hex_encode bs"
proof (induction s arbitrary: bs rule: groups_induct [where n = 2])
  case (Last s)
  then consider "s = []" | c where "s = [c]" | c d where "s = [c, d]"
    by (cases s rule: remdups_adj.cases) auto
  then show ?case
  proof cases
    case 1
    then show ?thesis by (cases bs) (auto simp: hex_decode_def hex_encode_def to_ascii_lowercase_def hex_encode_byte_def)
  next
    case (2 c)
    have "length (to_ascii_lowercase [c]) \<noteq> length (hex_encode bs)"
      by (simp add: to_ascii_lowercase_def)
    moreover have "hex_decode [c] = None" by (simp add: hex_decode_def)
    ultimately show ?thesis unfolding 2 by (metis option.distinct(1))
  next
    case (3 c d)
    have "to_ascii_lowercase [c, d] = hex_encode bs \<longleftrightarrow> (\<exists>b. bs = [b] \<and> to_ascii_lowercase [c, d] = hex_encode_byte b)"
      by (cases bs; cases "tl bs") (auto simp: hex_encode_def to_ascii_lowercase_def hex_encode_byte_def)
    moreover have "hex_decode [c, d] = Some bs \<longleftrightarrow> (\<exists>b. bs = [b] \<and> hex_decode_pair [c, d] = Some b)"
      by (cases "hex_decode_pair [c, d]") (auto simp: hex_decode_Cons2)
    ultimately show ?thesis
      unfolding 3 by (simp only: hex_decode_pair_iff)
  qed
next
  case (Group s rest)
  then obtain c d where s: "s = [c, d]" by (auto simp: numeral_2_eq_2 length_Suc_conv)
  have "to_ascii_lowercase (c # d # rest) = hex_encode bs \<longleftrightarrow>
      (\<exists>b bs'. bs = b # bs' \<and> to_ascii_lowercase [c, d] = hex_encode_byte b \<and> to_ascii_lowercase rest = hex_encode bs')"
    by (cases bs) (auto simp: hex_encode_def to_ascii_lowercase_def hex_encode_byte_def)
  then show ?case
    by (auto simp: s hex_decode_Cons2 hex_decode_pair_iff bind_eq_Some_conv Group.IH)
qed simp

end
