(* ===== verification/Aead.thy ===== *)
theory Aead
  imports Codec World
begin

text \<open>
  \<open>ls-core/src/crypto/aead.rs\<close>: sealing and opening values under a 256-bit key, with associated
  data that names the slot a ciphertext belongs to. AES-256-GCM is a parameter, the record \<open>gcm\<close>;
  what its documentation promises is the predicate \<open>gcm_ok\<close>, and what authenticity means for the
  associated data is \<open>gcm_binds\<close>. The encoding of the associated data is proved injective outright.
\<close>

section \<open>Big-endian counts\<close>

text \<open>\<open>to_be_bytes\<close> of a \<open>k\<close>-byte unsigned integer, of which the cast kept the low bytes.\<close>

primrec be_bytes :: "nat \<Rightarrow> nat \<Rightarrow> bytes" where
  "be_bytes 0 n = []"
| "be_bytes (Suc k) n = be_bytes k (n div 256) @ [of_nat n]"

definition from_be_bytes :: "bytes \<Rightarrow> nat" where
  "from_be_bytes bs = fold (\<lambda>b acc. acc * 256 + unat b) bs 0"

lemma length_be_bytes [simp]: "length (be_bytes k n) = k"
  by (induction k arbitrary: n) auto

lemma from_be_be [simp, codec_simps]: "from_be_bytes (be_bytes k n) = n mod 256 ^ k"
proof (induction k arbitrary: n)
  case (Suc k)
  have "from_be_bytes (be_bytes (Suc k) n) = from_be_bytes (be_bytes k (n div 256)) * 256 + n mod 256"
    by (simp add: from_be_bytes_def unat_of_nat)
  also have "\<dots> = n mod (256 * 256 ^ k)"
    unfolding Suc by (simp add: mod_mult2_eq)
  finally show ?case by simp
qed (simp add: from_be_bytes_def)

interpretation be: codec "be_bytes k" "\<lambda>bs. Some (from_be_bytes bs)" "\<lambda>n. n < 256 ^ k" for k
  by unfold_locales simp

section \<open>The cipher the code calls\<close>

record gcm =
  gcm_encrypt :: "bytes \<Rightarrow> bytes \<Rightarrow> bytes \<Rightarrow> bytes \<Rightarrow> bytes option"
  gcm_decrypt :: "bytes \<Rightarrow> bytes \<Rightarrow> bytes \<Rightarrow> bytes \<Rightarrow> bytes option"

definition key_len :: nat where "key_len = 32"
definition nonce_len :: nat where "nonce_len = 12"
definition max_plaintext_len :: nat where "max_plaintext_len = 64 * 1024"
definition tag_len :: nat where "tag_len = 16"

text \<open>
  Documented behaviour, as \<open>gcm_encrypt key nonce msg aad\<close>: messages far below GCM's limit are
  always encrypted, the tag adds 16 bytes, and decryption under the same key, nonce and associated
  data returns the message.
\<close>

definition gcm_ok :: "gcm \<Rightarrow> bool" where
  "gcm_ok g \<longleftrightarrow> (\<forall>k n m a. length k = key_len \<longrightarrow> length n = nonce_len \<longrightarrow> length m \<le> 2 ^ 30 \<longrightarrow>
     (\<exists>c. gcm_encrypt g k n m a = Some c \<and> length c = length m + tag_len \<and> gcm_decrypt g k n c a = Some m))"

text \<open>
  Authenticity of the associated data \<open>a\<close>: what was encrypted with it does not authenticate with any
  other. (It is stated for one \<open>a\<close> at a time. No cipher with a tag of fixed length has it for all
  associated data at once, so a theorem that assumed that would be about nothing.)
\<close>

definition gcm_binds :: "gcm \<Rightarrow> bytes \<Rightarrow> bool" where
  "gcm_binds g a \<longleftrightarrow> (\<forall>k n m c b m'. gcm_encrypt g k n m a = Some c \<longrightarrow> gcm_decrypt g k n c b = Some m' \<longrightarrow> b = a)"

section \<open>The code\<close>

datatype aead_error = AeadDecrypt | PlaintextTooLarge nat nat | AeadEncrypt | AeadEntropy

datatype aad = Aad (aad_bytes: bytes)

definition push_field :: "bytes \<Rightarrow> bytes \<Rightarrow> bytes" where
  "push_field buf field = buf @ be_bytes 8 (length field) @ field"

definition aad_new :: "str \<Rightarrow> str list \<Rightarrow> aad" where
  "aad_new domain fs =
     (let buf = push_field [] (as_bytes domain);
          buf = buf @ be_bytes 8 (length fs)
      in Aad (fold (\<lambda>field buf. push_field buf (as_bytes field)) fs buf))"

definition secret_slot :: "str \<Rightarrow> str \<Rightarrow> str \<Rightarrow> aad" where
  "secret_slot project_id environment_id key = aad_new ''localsecrets.secret.v1'' [project_id, environment_id, key]"

definition key_wrap :: "str \<Rightarrow> str \<Rightarrow> aad" where
  "key_wrap purpose owner_id = aad_new ''localsecrets.keywrap.v1'' [purpose, owner_id]"

record envelope =
  env_nonce :: bytes
  env_ciphertext :: bytes

datatype data_key = DataKey (key_bytes: bytes)

definition key_generate :: "(entropy_error, data_key) io" where
  "key_generate = bindio (random_bytes key_len) (\<lambda>bs. ret (DataKey bs))"

definition key_from_bytes :: "bytes \<Rightarrow> data_key option" where
  "key_from_bytes bs = (if length bs = key_len then Some (DataKey bs) else None)"

definition aead_seal :: "gcm \<Rightarrow> data_key \<Rightarrow> bytes \<Rightarrow> aad \<Rightarrow> (aead_error, envelope) io" where
  "aead_seal g key plaintext aad =
     (if length plaintext > max_plaintext_len then fail (PlaintextTooLarge (length plaintext) max_plaintext_len)
      else bindio (mapE (\<lambda>_. AeadEntropy) (random_bytes nonce_len)) (\<lambda>nonce.
        (case gcm_encrypt g (key_bytes key) nonce plaintext (aad_bytes aad) of
           None \<Rightarrow> fail AeadEncrypt
         | Some c \<Rightarrow> ret \<lparr>env_nonce = nonce, env_ciphertext = c\<rparr>)))"

definition aead_open :: "gcm \<Rightarrow> data_key \<Rightarrow> envelope \<Rightarrow> aad \<Rightarrow> aead_error + bytes" where
  "aead_open g key envelope aad =
     (if length (env_nonce envelope) \<noteq> nonce_len then Inl AeadDecrypt
      else ok_or AeadDecrypt (gcm_decrypt g (key_bytes key) (env_nonce envelope) (env_ciphertext envelope) (aad_bytes aad)))"

definition wrap_key :: "gcm \<Rightarrow> data_key \<Rightarrow> data_key \<Rightarrow> aad \<Rightarrow> (aead_error, envelope) io" where
  "wrap_key g self key aad = aead_seal g self (key_bytes key) aad"

definition unwrap_key :: "gcm \<Rightarrow> data_key \<Rightarrow> envelope \<Rightarrow> aad \<Rightarrow> aead_error + data_key" where
  "unwrap_key g self envelope aad =
     and_then (aead_open g self envelope aad) (\<lambda>material. ok_or AeadDecrypt (key_from_bytes material))"

section \<open>The associated data names its context\<close>

definition fits64 :: "str \<Rightarrow> bool" where
  "fits64 s \<longleftrightarrow> length s < 2 ^ 64"

lemma push_field_fold:
  "fold (\<lambda>field buf. push_field buf (as_bytes field)) fs buf =
     buf @ concat (map (\<lambda>f. push_field [] (as_bytes f)) fs)"
  by (induction fs arbitrary: buf) (simp_all add: push_field_def)

lemma be8_inj: "m < 2 ^ 64 \<Longrightarrow> n < 2 ^ 64 \<Longrightarrow> be_bytes 8 m = be_bytes 8 n \<longleftrightarrow> m = n"
  using be.enc_inj [of m 8 n] by auto

lemma push_field_inj:
  assumes "fits64 s" and "fits64 t" and "push_field [] (as_bytes s) @ u = push_field [] (as_bytes t) @ v"
  shows "s = t \<and> u = v"
proof -
  from assms(3) have "be_bytes 8 (length s) = be_bytes 8 (length t) \<and> as_bytes s @ u = as_bytes t @ v"
    by (simp add: push_field_def)
  with assms(1,2) show ?thesis
    by (auto simp: fits64_def be8_inj)
qed

lemma push_fields_inj:
  assumes "list_all fits64 fs" and "list_all fits64 gs" and "length fs = length gs"
    and "concat (map (\<lambda>f. push_field [] (as_bytes f)) fs) = concat (map (\<lambda>f. push_field [] (as_bytes f)) gs)"
  shows "fs = gs"
  using assms(3,1,2,4) by (induction fs gs rule: list_induct2) (auto dest: push_field_inj)

lemma aad_new_eq:
  "aad_new d fs = Aad (push_field [] (as_bytes d) @ be_bytes 8 (length fs) @
     concat (map (\<lambda>f. push_field [] (as_bytes f)) fs))"
  by (simp add: aad_new_def push_field_fold Let_def)

lemma aad_new_inj:
  assumes "fits64 d" and "fits64 d'" and "list_all fits64 fs" and "list_all fits64 fs'"
    and "length fs < 2 ^ 64" and "length fs' < 2 ^ 64" and "aad_new d fs = aad_new d' fs'"
  shows "d = d' \<and> fs = fs'"
proof -
  from assms(7) have "push_field [] (as_bytes d) @ be_bytes 8 (length fs) @ concat (map (\<lambda>f. push_field [] (as_bytes f)) fs)
    = push_field [] (as_bytes d') @ be_bytes 8 (length fs') @ concat (map (\<lambda>f. push_field [] (as_bytes f)) fs')"
    by (simp add: aad_new_eq)
  from push_field_inj [OF assms(1,2) this] show ?thesis
    using assms(3-6) by (auto simp: be8_inj intro: push_fields_inj)
qed

section \<open>Sealing and opening\<close>

definition key_ok :: "data_key \<Rightarrow> bool" where
  "key_ok k \<longleftrightarrow> length (key_bytes k) = key_len"

lemma key_from_bytes_ok: "key_from_bytes bs = Some k \<longleftrightarrow> key_ok k \<and> bs = key_bytes k"
  by (cases k) (auto simp: key_from_bytes_def key_ok_def)

lemma key_generate_ok: "key_generate w = (Inr k, w') \<Longrightarrow> key_ok k"
  by (auto simp: key_generate_def key_ok_def bindio_eq_Inr ret_apply dest: random_bytes_length)

lemma aead_seal_Inr:
  assumes "aead_seal g k p a w = (Inr env, w')"
  shows "length p \<le> max_plaintext_len" and "length (env_nonce env) = nonce_len"
    and "gcm_encrypt g (key_bytes k) (env_nonce env) p (aad_bytes a) = Some (env_ciphertext env)"
proof -
  obtain n c where "length p \<le> max_plaintext_len" "random_bytes nonce_len w = (Inr n, w')"
    and "gcm_encrypt g (key_bytes k) n p (aad_bytes a) = Some c" "env = \<lparr>env_nonce = n, env_ciphertext = c\<rparr>"
    using assms by (auto simp: aead_seal_def fail_apply ret_apply bindio_eq_Inr mapE_eq_Inr not_less
        split: if_splits option.splits)
  then show "length p \<le> max_plaintext_len" and "length (env_nonce env) = nonce_len"
    and "gcm_encrypt g (key_bytes k) (env_nonce env) p (aad_bytes a) = Some (env_ciphertext env)"
    using random_bytes_length by simp_all
qed

lemma aead_seal_world: "snd (aead_seal g k p a w) = (if length p \<le> max_plaintext_len then w\<lparr>draws := Suc (draws w)\<rparr> else w)"
  by (auto simp: aead_seal_def fail_apply ret_apply bindio_def mapE_def random_bytes_def random_fill_def
      split: option.splits)

lemma aead_seal_worldD:
  "aead_seal g k p a w = (r, w') \<Longrightarrow> w' = (if length p \<le> max_plaintext_len then w\<lparr>draws := Suc (draws w)\<rparr> else w)"
  by (metis aead_seal_world snd_conv)

lemma max_plaintext_small: "length p \<le> max_plaintext_len \<Longrightarrow> length p \<le> 2 ^ 30"
  by (simp add: max_plaintext_len_def)

lemma gcm_okD:
  assumes "gcm_ok g" and "key_ok k" and "length n = nonce_len" and "length m \<le> max_plaintext_len"
  obtains c where "gcm_encrypt g (key_bytes k) n m a = Some c" and "length c = length m + tag_len"
    and "gcm_decrypt g (key_bytes k) n c a = Some m"
  using assms max_plaintext_small unfolding gcm_ok_def key_ok_def by blast

lemma aead_open_seal:
  assumes "gcm_ok g" and "key_ok k" and "aead_seal g k p a w = (Inr env, w')"
  shows "aead_open g k env a = Inr p"
proof -
  note s = aead_seal_Inr [OF assms(3)]
  from gcm_okD [OF assms(1,2) s(2,1), of "aad_bytes a"] s(3)
  have "gcm_decrypt g (key_bytes k) (env_nonce env) (env_ciphertext env) (aad_bytes a) = Some p" by auto
  with s(2) show ?thesis by (simp add: aead_open_def)
qed

lemma aead_seal_length:
  assumes "gcm_ok g" and "key_ok k" and "aead_seal g k p a w = (Inr env, w')"
  shows "length (env_ciphertext env) = length p + tag_len"
proof -
  note s = aead_seal_Inr [OF assms(3)]
  from gcm_okD [OF assms(1,2) s(2,1), of "aad_bytes a"] s(3) show ?thesis by auto
qed

lemma aead_seal_outcome:
  assumes "gcm_ok g" and "key_ok k"
  shows "aead_seal g k p a w =
     (if length p > max_plaintext_len then (Inl (PlaintextTooLarge (length p) max_plaintext_len), w)
      else (case entropy w (draws w) of
          None \<Rightarrow> (Inl AeadEntropy, w\<lparr>draws := Suc (draws w)\<rparr>)
        | Some f \<Rightarrow>
            (let nonce = map f [0..<nonce_len]
             in (Inr \<lparr>env_nonce = nonce, env_ciphertext = the (gcm_encrypt g (key_bytes k) nonce p (aad_bytes a))\<rparr>,
                 w\<lparr>draws := Suc (draws w)\<rparr>))))"
proof (cases "length p \<le> max_plaintext_len")
  case True
  note run = aead_seal_def fail_apply ret_apply bindio_def mapE_def random_bytes_def random_fill_def Let_def
  show ?thesis
  proof (cases "entropy w (draws w)")
    case (Some f)
    obtain c where "gcm_encrypt g (key_bytes k) (map f [0..<nonce_len]) p (aad_bytes a) = Some c"
      using gcm_okD [OF assms, of "map f [0..<nonce_len]" p "aad_bytes a"] True by auto
    with True Some show ?thesis by (simp add: run)
  qed (use True in \<open>simp add: run\<close>)
qed (simp add: aead_seal_def fail_apply)

lemma unwrap_wrap:
  assumes "gcm_ok g" and "key_ok self" and "key_ok k" and "wrap_key g self k a w = (Inr env, w')"
  shows "unwrap_key g self env a = Inr k"
  using aead_open_seal [OF assms(1,2) assms(4)[unfolded wrap_key_def]] assms(3)
  by (simp add: unwrap_key_def key_from_bytes_ok)

lemma unwrap_key_ok: "unwrap_key g self env a = Inr k \<Longrightarrow> key_ok k"
  by (auto simp: unwrap_key_def key_from_bytes_ok)

lemma unwrap_key_error: "unwrap_key g self env a = Inl e \<Longrightarrow> e = AeadDecrypt"
  by (auto simp: unwrap_key_def aead_open_def and_then_eq_Inl ok_or_def split: if_splits option.splits)

lemma aad_domain:
  assumes "fits64 d" and "fits64 d'" and "d \<noteq> d'"
  shows "aad_new d fs \<noteq> aad_new d' fs'"
  using push_field_inj [OF assms(1,2)] assms(3) by (auto simp: aad_new_eq)

lemma key_wrap_not_secret_slot: "key_wrap p q \<noteq> secret_slot a b c"
  unfolding key_wrap_def secret_slot_def by (rule aad_domain) (simp_all add: fits64_def)

section \<open>Properties\<close>

text \<open>
  What is sealed opens again: under the same key and the same associated data, an envelope
  gives back the plaintext, and a wrapped key unwraps to the very key.
\<close>

lemma seal_open_roundtrip:
  assumes "gcm_ok g" and "key_ok k"
  shows "(aead_seal g k p a w = (Inr env, w') \<longrightarrow> aead_open g k env a = Inr p) \<and>
    (key_ok k' \<longrightarrow> wrap_key g k k' a w = (Inr env, w') \<longrightarrow> unwrap_key g k env a = Inr k')"
  using aead_open_seal [OF assms] unwrap_wrap [OF assms] by blast

text \<open>
  The encoding of associated data is injective: two contexts with the same bytes have the same
  domain tag and the same fields, so no two slots, wrap purposes or record positions can be
  confused by moving characters between fields.
\<close>

lemma aad_names_its_context:
  assumes "list_all fits64 (d # fs)" and "list_all fits64 (d' # fs')"
    and "length fs < 2 ^ 64" and "length fs' < 2 ^ 64"
  shows "aad_new d fs = aad_new d' fs' \<longleftrightarrow> d = d' \<and> fs = fs'"
  using assms aad_new_inj [of d d' fs fs'] by auto

text \<open>
  C29: A value sealed for one slot never opens in another: with authentic decryption, an envelope
  sealed for a project, environment and key name is refused for every other triple, and for every
  key-wrapping context, under the same key.
\<close>

theorem secret_stays_in_its_slot:
  assumes "gcm_binds g (aad_bytes (secret_slot p e n))" and "list_all fits64 [p, e, n, p', e', n']"
    and "aead_seal g k v (secret_slot p e n) w = (Inr env, w')"
  shows "((p', e', n') \<noteq> (p, e, n) \<longrightarrow> aead_open g k env (secret_slot p' e' n') = Inl AeadDecrypt) \<and>
    aead_open g k env (key_wrap purpose owner) = Inl AeadDecrypt"
proof -
  note s = aead_seal_Inr [OF assms(3)]
  have other: "aead_open g k env b = Inl AeadDecrypt" if "b \<noteq> secret_slot p e n" for b
  proof -
    have "aad_bytes b \<noteq> aad_bytes (secret_slot p e n)"
      using that by (metis aad.expand)
    then have "gcm_decrypt g (key_bytes k) (env_nonce env) (env_ciphertext env) (aad_bytes b) = None"
      using assms(1) s(3) unfolding gcm_binds_def by (metis option.exhaust)
    then show ?thesis by (simp add: aead_open_def)
  qed
  have "secret_slot p' e' n' \<noteq> secret_slot p e n" if "(p', e', n') \<noteq> (p, e, n)"
    using that assms(2) aad_new_inj [of "''localsecrets.secret.v1''" "''localsecrets.secret.v1''" "[p', e', n']" "[p, e, n]"]
    by (auto simp: secret_slot_def fits64_def)
  then show ?thesis
    using other [of "secret_slot p' e' n'"] other [of "key_wrap purpose owner"] key_wrap_not_secret_slot by blast
qed

text \<open>
  A concrete cipher with the documented behaviour, for the witnesses. Its tag only tells one chosen
  context from all the others.
\<close>

definition sample_tag :: "bytes \<Rightarrow> bytes \<Rightarrow> bytes" where
  "sample_tag x a = replicate 16 (if a = x then 1 else 2)"

definition sample_gcm_for :: "aad \<Rightarrow> gcm" where
  "sample_gcm_for x = \<lparr>gcm_encrypt = (\<lambda>k n m a. Some (m @ sample_tag (aad_bytes x) a)),
     gcm_decrypt = (\<lambda>k n c a. if 16 \<le> length c \<and> drop (length c - 16) c = sample_tag (aad_bytes x) a
       then Some (take (length c - 16) c) else None)\<rparr>"

definition sample_gcm :: gcm where
  "sample_gcm = sample_gcm_for (secret_slot ''p1'' ''dev'' ''KEY'')"

definition sample_key :: data_key where
  "sample_key = DataKey (replicate 32 7)"

definition sample_world :: world where
  "sample_world = \<lparr>entropy = (\<lambda>n. Some (\<lambda>i. of_nat (7 + n + i))), draws = 0, clock = (\<lambda>n. 1700000000 + int n),
     looks = 0, fault = (\<lambda>n. None), calls = 0, dir = Map.empty, contents = (\<lambda>i. []), next_inode = 0\<rparr>"

lemma sample_key_ok [simp]: "key_ok sample_key"
  by (simp add: sample_key_def key_ok_def key_len_def)

lemma length_sample_tag [simp]: "length (sample_tag x a) = 16"
  by (simp add: sample_tag_def)

lemma sample_gcm_for_ok [simp]: "gcm_ok (sample_gcm_for x)"
  by (simp add: gcm_ok_def sample_gcm_for_def tag_len_def)

lemma sample_gcm_for_binds: "gcm_binds (sample_gcm_for x) (aad_bytes x)"
  by (simp add: gcm_binds_def sample_gcm_for_def sample_tag_def)

lemma sample_gcm_ok [simp]: "gcm_ok sample_gcm"
  by (simp add: sample_gcm_def)

lemma sample_gcm_binds: "gcm_binds sample_gcm (aad_bytes (secret_slot ''p1'' ''dev'' ''KEY''))"
  unfolding sample_gcm_def by (rule sample_gcm_for_binds)

lemma sample_seal_for:
  assumes "length p \<le> max_plaintext_len"
  shows "aead_seal (sample_gcm_for x) sample_key p a sample_world =
     (Inr \<lparr>env_nonce = map (\<lambda>i. of_nat (7 + i)) [0..<12], env_ciphertext = p @ sample_tag (aad_bytes x) (aad_bytes a)\<rparr>,
      sample_world\<lparr>draws := 1\<rparr>)"
  using assms unfolding aead_seal_outcome [OF sample_gcm_for_ok sample_key_ok]
  by (simp add: sample_world_def sample_gcm_for_def nonce_len_def Let_def)

lemmas sample_seal = sample_seal_for [of _ "secret_slot ''p1'' ''dev'' ''KEY''", folded sample_gcm_def]

theorem seal_open_roundtrip_witness:
  "aead_open sample_gcm sample_key (projr (fst (aead_seal sample_gcm sample_key [1, 2, 3] (key_wrap ''a'' ''b'') sample_world)))
     (key_wrap ''a'' ''b'') = Inr [1, 2, 3]"
  using seal_open_roundtrip [OF sample_gcm_ok sample_key_ok, of "[1, 2, 3]" "key_wrap ''a'' ''b''" sample_world]
  by (simp add: sample_seal max_plaintext_len_def)

theorem aad_names_its_context_witness:
  "aad_new ''t'' [''ab'', ''c''] \<noteq> aad_new ''t'' [''a'', ''bc'']"
  using aad_names_its_context [of "''t''" "[''ab'', ''c'']" "''t''" "[''a'', ''bc'']"] by (simp add: fits64_def)

theorem secret_stays_in_its_slot_witness:
  "aead_open sample_gcm sample_key (projr (fst (aead_seal sample_gcm sample_key [9] (secret_slot ''p1'' ''dev'' ''KEY'') sample_world)))
     (secret_slot ''p1'' ''prod'' ''KEY'') = Inl AeadDecrypt"
  using secret_stays_in_its_slot [OF sample_gcm_binds, of "''p1''" "''prod''" "''KEY''" sample_key "[9]" sample_world]
  by (simp add: sample_seal max_plaintext_len_def fits64_def)

end
