(* ===== verification/Event.thy ===== *)
theory Event
  imports Json_Roundtrip Encoding Timestamp Aead
begin

text \<open>
  \<open>ls-store/src/lib.rs\<close> and \<open>event.rs\<close>: the errors of the store, the events and their JSON form.

  An event is one constructor per kind with the source's fields in order. Writing goes through the
  JSON renderer and reading through the strict parser, so that an event survives storage; reading
  refuses an event of a kind or a sealed value of a format this build does not know.
\<close>

section \<open>Errors of the store\<close>

definition header_len :: nat where "header_len = 8"
definition max_record_len :: nat where "max_record_len = 1024 * 1024"

datatype store_error =
    NotALog
  | UnsupportedVersion byte
  | Unreadable nat
  | RecordTooLarge nat nat
  | StoreCrypto
  | MalformedEvent str
  | StoreBroken
  | Corrupt nat str
  | StoreIo io_error

section \<open>Sealed values\<close>

record sealed =
  sl_nonce :: bytes
  sl_ciphertext :: bytes

definition sealed_of_envelope :: "envelope \<Rightarrow> sealed" where
  "sealed_of_envelope e = \<lparr>sl_nonce = env_nonce e, sl_ciphertext = env_ciphertext e\<rparr>"

definition envelope_of_sealed :: "sealed \<Rightarrow> envelope" where
  "envelope_of_sealed s = \<lparr>env_nonce = sl_nonce s, env_ciphertext = sl_ciphertext s\<rparr>"

lemma envelope_of_sealed_of_envelope [simp]: "envelope_of_sealed (sealed_of_envelope e) = e"
  by (simp add: envelope_of_sealed_def sealed_of_envelope_def)

definition sealed_format :: int where "sealed_format = 1"

section \<open>Fields of a value\<close>

definition text_field :: "json \<Rightarrow> str \<Rightarrow> store_error + str" where
  "text_field v name = ok_or (MalformedEvent name) (Option.bind (json_get name v) as_str)"

definition optional_text_field :: "json \<Rightarrow> str \<Rightarrow> store_error + str option" where
  "optional_text_field v name =
     (case json_get name v of
        None \<Rightarrow> Inr None
      | Some JNull \<Rightarrow> Inr None
      | Some (JString s) \<Rightarrow> Inr (Some s)
      | Some _ \<Rightarrow> Inl (MalformedEvent name))"

definition time_field :: "json \<Rightarrow> str \<Rightarrow> store_error + timestamp" where
  "time_field v name =
     ok_or (MalformedEvent name) (Option.bind (Option.bind (json_get name v) as_str) parse_rfc3339)"

definition optional_time_field :: "json \<Rightarrow> str \<Rightarrow> store_error + timestamp option" where
  "optional_time_field v name =
     (case json_get name v of
        None \<Rightarrow> Inr None
      | Some JNull \<Rightarrow> Inr None
      | Some (JString s) \<Rightarrow> ok_or (MalformedEvent name) (map_option Some (parse_rfc3339 s))
      | Some _ \<Rightarrow> Inl (MalformedEvent name))"

definition bytes_field :: "json \<Rightarrow> str \<Rightarrow> store_error + bytes" where
  "bytes_field v name =
     ok_or (MalformedEvent name) (Option.bind (Option.bind (json_get name v) as_str) hex_decode)"

definition time_value :: "timestamp \<Rightarrow> json" where
  "time_value at = JString (to_rfc3339 at)"

definition optional_text :: "str option \<Rightarrow> json" where
  "optional_text t = (case t of Some s \<Rightarrow> JString s | None \<Rightarrow> JNull)"

definition optional_time :: "timestamp option \<Rightarrow> json" where
  "optional_time at = (case at of Some t \<Rightarrow> time_value t | None \<Rightarrow> JNull)"

definition sealed_to_value :: "sealed \<Rightarrow> json" where
  "sealed_to_value s =
     json_object [(''v'', JInt sealed_format),
                  (''nonce'', JString (hex_encode (sl_nonce s))),
                  (''ciphertext'', JString (hex_encode (sl_ciphertext s)))]"

definition sealed_from_value :: "json \<Rightarrow> store_error + sealed" where
  "sealed_from_value v =
     (case Option.bind (json_get ''v'' v) as_i64 of
        Some f \<Rightarrow>
          if f \<noteq> sealed_format then Inl (MalformedEvent ''unknown sealed value format'')
          else and_then (bytes_field v ''nonce'') (\<lambda>nonce.
               and_then (bytes_field v ''ciphertext'') (\<lambda>ciphertext.
                 Inr \<lparr>sl_nonce = nonce, sl_ciphertext = ciphertext\<rparr>))
      | None \<Rightarrow> Inl (MalformedEvent ''sealed value has no format marker''))"

section \<open>Events\<close>

datatype token_kind = RootToken | SessionToken | MachineToken

definition kind_name :: "token_kind \<Rightarrow> str" where
  "kind_name k = (case k of RootToken \<Rightarrow> ''root'' | SessionToken \<Rightarrow> ''session'' | MachineToken \<Rightarrow> ''machine'')"

definition parse_kind :: "str \<Rightarrow> token_kind option" where
  "parse_kind t =
     (if t = ''root'' then Some RootToken
      else if t = ''session'' then Some SessionToken
      else if t = ''machine'' then Some MachineToken
      else None)"

text \<open>
  The fields of each kind, in the source's order. \<open>UserCreated\<close>: id, email, password hash, created
  at. \<open>TokenIssued\<close>: id, token hash, kind, user, project, environment, label, expires at, created
  at. \<open>TokenRevoked\<close>: id, at. \<open>ProjectCreated\<close>: id, slug, name, data key, created at.
  \<open>EnvironmentCreated\<close>: id, project, slug, name, created at. \<open>SecretSet\<close>: project, environment,
  key, value, at. \<open>SecretDeleted\<close>: project, environment, key, at. \<open>Audited\<close>: at, actor, action,
  target, outcome.
\<close>

datatype event =
    UserCreated str str str timestamp
  | TokenIssued str bytes token_kind "str option" "str option" "str option" "str option"
      "timestamp option" timestamp
  | TokenRevoked str timestamp
  | ProjectCreated str str str sealed timestamp
  | EnvironmentCreated str str str str timestamp
  | SecretSet str str str sealed timestamp
  | SecretDeleted str str str timestamp
  | Audited timestamp str str str str

fun type_name :: "event \<Rightarrow> str" where
  "type_name (UserCreated _ _ _ _) = ''user.created''"
| "type_name (TokenIssued _ _ _ _ _ _ _ _ _) = ''token.issued''"
| "type_name (TokenRevoked _ _) = ''token.revoked''"
| "type_name (ProjectCreated _ _ _ _ _) = ''project.created''"
| "type_name (EnvironmentCreated _ _ _ _ _) = ''environment.created''"
| "type_name (SecretSet _ _ _ _ _) = ''secret.set''"
| "type_name (SecretDeleted _ _ _ _) = ''secret.deleted''"
| "type_name (Audited _ _ _ _ _) = ''audit''"

fun event_body :: "event \<Rightarrow> (str \<times> json) list" where
  "event_body (UserCreated i email password_hash created_at) =
     [(''id'', JString i), (''email'', JString email), (''password_hash'', JString password_hash),
      (''created_at'', time_value created_at)]"
| "event_body (TokenIssued i token_hash kind user_id project_id environment_id label expires_at created_at) =
     [(''id'', JString i), (''token_hash'', JString (hex_encode token_hash)),
      (''kind'', JString (kind_name kind)), (''user_id'', optional_text user_id),
      (''project_id'', optional_text project_id), (''environment_id'', optional_text environment_id),
      (''label'', optional_text label), (''expires_at'', optional_time expires_at),
      (''created_at'', time_value created_at)]"
| "event_body (TokenRevoked i at) = [(''id'', JString i), (''at'', time_value at)]"
| "event_body (ProjectCreated i slug name data_key created_at) =
     [(''id'', JString i), (''slug'', JString slug), (''name'', JString name),
      (''data_key'', sealed_to_value data_key), (''created_at'', time_value created_at)]"
| "event_body (EnvironmentCreated i project_id slug name created_at) =
     [(''id'', JString i), (''project_id'', JString project_id), (''slug'', JString slug),
      (''name'', JString name), (''created_at'', time_value created_at)]"
| "event_body (SecretSet project_id environment_id key val at) =
     [(''project_id'', JString project_id), (''environment_id'', JString environment_id),
      (''key'', JString key), (''value'', sealed_to_value val), (''at'', time_value at)]"
| "event_body (SecretDeleted project_id environment_id key at) =
     [(''project_id'', JString project_id), (''environment_id'', JString environment_id),
      (''key'', JString key), (''at'', time_value at)]"
| "event_body (Audited at actor action target outcome) =
     [(''at'', time_value at), (''actor'', JString actor), (''action'', JString action),
      (''target'', JString target), (''outcome'', JString outcome)]"

definition event_to_value :: "event \<Rightarrow> json" where
  "event_to_value e = json_object ((''type'', JString (type_name e)) # event_body e)"

definition event_to_bytes :: "event \<Rightarrow> bytes" where
  "event_to_bytes e = as_bytes (render (event_to_value e))"

text \<open>Reading back, one definition per arm of the match.\<close>

definition read_user_created :: "json \<Rightarrow> store_error + event" where
  "read_user_created v =
     and_then (text_field v ''id'') (\<lambda>i.
     and_then (text_field v ''email'') (\<lambda>email.
     and_then (text_field v ''password_hash'') (\<lambda>password_hash.
     and_then (time_field v ''created_at'') (\<lambda>created_at.
       Inr (UserCreated i email password_hash created_at)))))"

definition read_token_issued :: "json \<Rightarrow> store_error + event" where
  "read_token_issued v =
     and_then (text_field v ''id'') (\<lambda>i.
     and_then (bytes_field v ''token_hash'') (\<lambda>token_hash.
     and_then (text_field v ''kind'') (\<lambda>kind_text.
     and_then (ok_or (MalformedEvent ''unknown token kind'') (parse_kind kind_text)) (\<lambda>kind.
     and_then (optional_text_field v ''user_id'') (\<lambda>user_id.
     and_then (optional_text_field v ''project_id'') (\<lambda>project_id.
     and_then (optional_text_field v ''environment_id'') (\<lambda>environment_id.
     and_then (optional_text_field v ''label'') (\<lambda>label.
     and_then (optional_time_field v ''expires_at'') (\<lambda>expires_at.
     and_then (time_field v ''created_at'') (\<lambda>created_at.
       Inr (TokenIssued i token_hash kind user_id project_id environment_id label expires_at
              created_at)))))))))))"

definition read_token_revoked :: "json \<Rightarrow> store_error + event" where
  "read_token_revoked v =
     and_then (text_field v ''id'') (\<lambda>i.
     and_then (time_field v ''at'') (\<lambda>at. Inr (TokenRevoked i at)))"

definition read_project_created :: "json \<Rightarrow> store_error + event" where
  "read_project_created v =
     and_then (text_field v ''id'') (\<lambda>i.
     and_then (text_field v ''slug'') (\<lambda>slug.
     and_then (text_field v ''name'') (\<lambda>name.
     and_then (ok_or (MalformedEvent ''missing data_key'') (json_get ''data_key'' v)) (\<lambda>k.
     and_then (sealed_from_value k) (\<lambda>data_key.
     and_then (time_field v ''created_at'') (\<lambda>created_at.
       Inr (ProjectCreated i slug name data_key created_at)))))))"

definition read_environment_created :: "json \<Rightarrow> store_error + event" where
  "read_environment_created v =
     and_then (text_field v ''id'') (\<lambda>i.
     and_then (text_field v ''project_id'') (\<lambda>project_id.
     and_then (text_field v ''slug'') (\<lambda>slug.
     and_then (text_field v ''name'') (\<lambda>name.
     and_then (time_field v ''created_at'') (\<lambda>created_at.
       Inr (EnvironmentCreated i project_id slug name created_at))))))"

definition read_secret_set :: "json \<Rightarrow> store_error + event" where
  "read_secret_set v =
     and_then (text_field v ''project_id'') (\<lambda>project_id.
     and_then (text_field v ''environment_id'') (\<lambda>environment_id.
     and_then (text_field v ''key'') (\<lambda>key.
     and_then (ok_or (MalformedEvent ''missing value'') (json_get ''value'' v)) (\<lambda>x.
     and_then (sealed_from_value x) (\<lambda>val.
     and_then (time_field v ''at'') (\<lambda>at.
       Inr (SecretSet project_id environment_id key val at)))))))"

definition read_secret_deleted :: "json \<Rightarrow> store_error + event" where
  "read_secret_deleted v =
     and_then (text_field v ''project_id'') (\<lambda>project_id.
     and_then (text_field v ''environment_id'') (\<lambda>environment_id.
     and_then (text_field v ''key'') (\<lambda>key.
     and_then (time_field v ''at'') (\<lambda>at.
       Inr (SecretDeleted project_id environment_id key at)))))"

definition read_audited :: "json \<Rightarrow> store_error + event" where
  "read_audited v =
     and_then (time_field v ''at'') (\<lambda>at.
     and_then (text_field v ''actor'') (\<lambda>actor.
     and_then (text_field v ''action'') (\<lambda>action.
     and_then (text_field v ''target'') (\<lambda>target.
     and_then (text_field v ''outcome'') (\<lambda>outcome.
       Inr (Audited at actor action target outcome))))))"

definition event_from_value :: "json \<Rightarrow> store_error + event" where
  "event_from_value v =
     and_then (text_field v ''type'') (\<lambda>kind.
       if kind = ''user.created'' then read_user_created v
       else if kind = ''token.issued'' then read_token_issued v
       else if kind = ''token.revoked'' then read_token_revoked v
       else if kind = ''project.created'' then read_project_created v
       else if kind = ''environment.created'' then read_environment_created v
       else if kind = ''secret.set'' then read_secret_set v
       else if kind = ''secret.deleted'' then read_secret_deleted v
       else if kind = ''audit'' then read_audited v
       else Inl (MalformedEvent ''unknown event type''))"

definition event_from_bytes :: "bytes \<Rightarrow> store_error + event" where
  "event_from_bytes bs =
     and_then (ok_or (MalformedEvent ''not UTF-8'') (from_utf8 bs)) (\<lambda>t.
     and_then (map_err (\<lambda>_. MalformedEvent ''not JSON'') (json_parse t)) (\<lambda>v.
       event_from_value v))"

section \<open>Events survive storage\<close>

lemma parse_kind_name [simp, codec_simps]: "parse_kind (kind_name k) = Some k"
  by (cases k) (simp_all add: parse_kind_def kind_name_def)

text \<open>An event whose texts are text and whose times can be written.\<close>

definition opt_ok :: "('a \<Rightarrow> bool) \<Rightarrow> 'a option \<Rightarrow> bool" where
  "opt_ok p x = (case x of None \<Rightarrow> True | Some y \<Rightarrow> p y)"

fun event_ok :: "event \<Rightarrow> bool" where
  "event_ok (UserCreated i email password_hash at) \<longleftrightarrow>
     utf8_valid i \<and> utf8_valid email \<and> utf8_valid password_hash \<and> in_range at"
| "event_ok (TokenIssued i token_hash kind user_id project_id environment_id label expires_at at) \<longleftrightarrow>
     utf8_valid i \<and> opt_ok utf8_valid user_id \<and> opt_ok utf8_valid project_id \<and>
     opt_ok utf8_valid environment_id \<and> opt_ok utf8_valid label \<and> opt_ok in_range expires_at \<and> in_range at"
| "event_ok (TokenRevoked i at) \<longleftrightarrow> utf8_valid i \<and> in_range at"
| "event_ok (ProjectCreated i slug name data_key at) \<longleftrightarrow>
     utf8_valid i \<and> utf8_valid slug \<and> utf8_valid name \<and> in_range at"
| "event_ok (EnvironmentCreated i project_id slug name at) \<longleftrightarrow>
     utf8_valid i \<and> utf8_valid project_id \<and> utf8_valid slug \<and> utf8_valid name \<and> in_range at"
| "event_ok (SecretSet project_id environment_id key val at) \<longleftrightarrow>
     utf8_valid project_id \<and> utf8_valid environment_id \<and> utf8_valid key \<and> in_range at"
| "event_ok (SecretDeleted project_id environment_id key at) \<longleftrightarrow>
     utf8_valid project_id \<and> utf8_valid environment_id \<and> utf8_valid key \<and> in_range at"
| "event_ok (Audited at actor action target outcome) \<longleftrightarrow>
     in_range at \<and> utf8_valid actor \<and> utf8_valid action \<and> utf8_valid target \<and> utf8_valid outcome"

lemma opt_ok_simps [simp]: "opt_ok p None" "opt_ok p (Some x) = p x"
  by (simp_all add: opt_ok_def)

lemma json_get_object [simp]:
  "json_get n (JObject []) = None"
  "json_get n (JObject ((m, v) # fs)) = (if m = n then Some v else json_get n (JObject fs))"
  by (simp_all add: json_get_def)

lemma as_str_JString [simp]: "as_str (JString s) = Some s"
  by (simp add: as_str_def)

lemma hex_encode_ascii: "c \<in> set (hex_encode bs) \<Longrightarrow> code c < 128"
  using hex_encode_lowercase [of c bs] by (auto simp: is_ascii_digit_def)

lemma hex_encode_utf8 [simp]: "utf8_valid (hex_encode bs)"
  by (rule utf8_valid_ascii) (rule hex_encode_ascii)

lemma to_rfc3339_utf8 [simp]: "utf8_valid (to_rfc3339 t)"
  by (rule utf8_valid_ascii)
    (auto simp: to_rfc3339_def pad_zero_def Let_def dest: show_nat_ascii split: prod.splits)

lemma sealed_roundtrip [simp, codec_simps]: "sealed_from_value (sealed_to_value s) = Inr s"
  by (simp add: sealed_from_value_def sealed_to_value_def json_object_def bytes_field_def as_i64_def
      hex.dec_enc)

interpretation sealed_json: codec sealed_to_value
    "\<lambda>v. case sealed_from_value v of Inl _ \<Rightarrow> None | Inr s \<Rightarrow> Some s" "\<lambda>_. True"
  by unfold_locales simp

lemma field_simps [codec_simps]:
  "json_get n v = Some (JString s) \<Longrightarrow> text_field v n = Inr s"
  "json_get n v = Some (JString s) \<Longrightarrow> s = hex_encode bs \<Longrightarrow> bytes_field v n = Inr bs"
  "json_get n v = Some (time_value at) \<Longrightarrow> in_range at \<Longrightarrow> time_field v n = Inr at"
  "json_get n v = Some (optional_text t) \<Longrightarrow> optional_text_field v n = Inr t"
  "json_get n v = Some (optional_time a) \<Longrightarrow> opt_ok in_range a \<Longrightarrow> optional_time_field v n = Inr a"
  by (auto simp: text_field_def bytes_field_def time_field_def time_value_def rfc3339.dec_enc hex.dec_enc
      optional_text_field_def optional_text_def optional_time_field_def optional_time_def split: option.splits)

lemma event_from_to_value: "event_ok e \<Longrightarrow> event_from_value (event_to_value e) = Inr e"
  by (cases e) (simp_all add: event_to_value_def json_object_def event_from_value_def codec_simps
      read_user_created_def read_token_issued_def read_token_revoked_def read_project_created_def
      read_environment_created_def read_secret_set_def read_secret_deleted_def read_audited_def)

text \<open>What is written is a value the renderer and the parser agree on.\<close>

definition storable :: "nat \<Rightarrow> json \<Rightarrow> bool" where
  "storable n v \<longleftrightarrow> json_wf v \<and> no_float v \<and> nest v \<le> n"

lemma literal_utf8 [simp]: "list_all (\<lambda>c. code c < 128) s \<Longrightarrow> utf8_valid s"
  by (rule utf8_valid_ascii) (simp add: list_all_iff)

lemma storable_leaf [simp]:
  "storable n (JString s) = utf8_valid s" "storable n JNull"
  "storable n (time_value t)" "storable n (optional_time a)"
  "opt_ok utf8_valid u \<Longrightarrow> storable n (optional_text u)"
  by (simp_all add: storable_def time_value_def optional_time_def optional_text_def opt_ok_def split: option.splits)

lemma storable_object:
  assumes "distinct (map fst fs)"
    and "list_all (\<lambda>(m, v). utf8_valid m \<and> storable n v) fs"
  shows "storable (Suc n) (json_object fs)"
proof -
  have "Max (insert 0 ((\<lambda>(m, v). nest v) ` set fs)) \<le> n"
    using assms(2) by (intro Max.boundedI) (auto simp: list_all_iff storable_def)
  with assms show ?thesis
    by (auto simp: storable_def json_object_def list_all_iff)
qed

lemma storable_sealed: "storable (Suc n) (sealed_to_value s)"
  unfolding sealed_to_value_def
  by (rule storable_object)
    (simp_all add: sealed_format_def storable_def i64_min_def i64_max_def)

lemma type_name_utf8: "utf8_valid (type_name e)"
  by (cases e) simp_all

lemma kind_name_utf8 [simp]: "utf8_valid (kind_name k)"
  by (cases k) (simp_all add: kind_name_def)

lemma storable_event: "event_ok e \<Longrightarrow> storable 2 (event_to_value e)"
  unfolding event_to_value_def numeral_2_eq_2
  by (rule storable_object; cases e) (simp_all add: type_name_utf8 storable_sealed del: type_name.simps)

lemma event_to_bytes_parse:
  "event_ok e \<Longrightarrow> json_parse (render (event_to_value e)) = Inr (event_to_value e)"
  using storable_event [of e] by (intro json_parse_render) (auto simp: storable_def max_depth_def)

lemma event_from_to_bytes: "event_ok e \<Longrightarrow> event_from_bytes (event_to_bytes e) = Inr e"
  using storable_event [of e] event_to_bytes_parse [of e]
  by (simp add: event_from_bytes_def event_to_bytes_def storable_def render_utf8 event_from_to_value)

interpretation event_record: codec event_to_bytes
    "\<lambda>bs. case event_from_bytes bs of Inl _ \<Rightarrow> None | Inr e \<Rightarrow> Some e" event_ok
  by unfold_locales (simp add: event_from_to_bytes)

section \<open>Whatever is read back is well formed\<close>

lemma json_get_wf: "json_wf v \<Longrightarrow> json_get n v = Some x \<Longrightarrow> json_wf x"
  by (cases v) (fastforce simp: json_get_def find_Some_iff dest: nth_mem)+

lemma as_str_Some: "as_str v = Some s \<longleftrightarrow> v = JString s"
  by (cases v) (auto simp: as_str_def)

lemma text_field_ok: "text_field v n = Inr s \<Longrightarrow> json_wf v \<Longrightarrow> utf8_valid s"
  by (auto simp: text_field_def bind_eq_Some_conv as_str_Some dest: json_get_wf)

lemma time_field_ok: "time_field v n = Inr t \<Longrightarrow> in_range t"
  by (auto simp: time_field_def bind_eq_Some_conv dest: rfc3339.dec_canonical)

lemma optional_text_field_ok: "optional_text_field v n = Inr t \<Longrightarrow> json_wf v \<Longrightarrow> opt_ok utf8_valid t"
  by (auto simp: optional_text_field_def dest: json_get_wf split: option.splits json.splits)

lemma optional_time_field_ok: "optional_time_field v n = Inr t \<Longrightarrow> opt_ok in_range t"
  by (auto simp: optional_time_field_def dest: rfc3339.dec_canonical split: option.splits json.splits)

lemmas fields_read_ok = text_field_ok time_field_ok optional_text_field_ok optional_time_field_ok

lemma event_from_value_ok: "event_from_value v = Inr e \<Longrightarrow> json_wf v \<Longrightarrow> event_ok e"
  by (auto simp: event_from_value_def read_user_created_def read_token_issued_def
      read_token_revoked_def read_project_created_def read_environment_created_def
      read_secret_set_def read_secret_deleted_def read_audited_def dest: fields_read_ok split: if_splits)

lemma event_from_bytes_ok: "event_from_bytes bs = Inr e \<Longrightarrow> event_ok e"
  by (auto simp: event_from_bytes_def dest!: json_parse_accepts intro: event_from_value_ok)

text \<open>The stored form is at least twice as long as the ciphertext it carries.\<close>

lemma length_separated: "x \<in> set xs \<Longrightarrow> length x \<le> length (separated xs)"
proof (induction xs)
  case (Cons y ys)
  have "length x \<le> length (concat (map (\<lambda>z. CHR '','' # z) zs))" if "x \<in> set zs" for zs
    using that by (induction zs) auto
  with Cons.prems show ?case by (auto simp: separated_def intro: trans_le_add2)
qed simp

lemma length_member: "(n, v) \<in> set fs \<Longrightarrow> length (render v) \<le> length (render (JObject fs))"
proof -
  assume "(n, v) \<in> set fs"
  then have "write_string n @ '':'' @ render v \<in> set (map (\<lambda>(n, v). write_string n @ '':'' @ render v) fs)"
    by force
  from length_separated [OF this] show ?thesis by simp
qed

lemma length_render_hex: "length (render (JString (hex_encode bs))) = 2 * length bs + 2"
proof -
  have "write_char [c] = [c]" if "c \<in> set (hex_encode bs)" for c
  proof -
    from hex_encode_lowercase [OF that]
    have r: "48 \<le> code c" "c \<noteq> CHR 0x5C" by (auto simp: is_ascii_digit_def)
    then have "c \<noteq> d" if "code d < 48" for d using that by auto
    with r show ?thesis by (simp add: write_char_def)
  qed
  then have "map write_char (map (\<lambda>c. [c]) (hex_encode bs)) = map (\<lambda>c. [c]) (hex_encode bs)"
    by simp
  moreover have "chars (hex_encode bs) = map (\<lambda>c. [c]) (hex_encode bs)"
    by (rule chars_ascii) (rule hex_encode_ascii)
  ultimately have "write_string (hex_encode bs) = CHR 0x22 # concat (map (\<lambda>c. [c]) (hex_encode bs)) @ [CHR 0x22]"
    by (simp only: write_string_def)
  then show ?thesis by (simp add: length_concat o_def sum_list_triv)
qed

lemma event_carries_ciphertext:
  "2 * length (sl_ciphertext val) \<le> length (event_to_bytes (SecretSet p q key val at))"
proof -
  have "2 * length (sl_ciphertext val) \<le> length (render (sealed_to_value val))"
    using length_render_hex [of "sl_ciphertext val"]
      length_member [of "''ciphertext''" "JString (hex_encode (sl_ciphertext val))"
        "[(''v'', JInt sealed_format), (''nonce'', JString (hex_encode (sl_nonce val))),
          (''ciphertext'', JString (hex_encode (sl_ciphertext val)))]"]
    by (simp add: sealed_to_value_def json_object_def del: render.simps)
  also have "\<dots> \<le> length (render (event_to_value (SecretSet p q key val at)))"
    unfolding event_to_value_def json_object_def by (rule length_member [of "''value''"]) simp
  finally show ?thesis by (simp add: event_to_bytes_def)
qed

section \<open>Properties\<close>

text \<open>
  C28: An event survives storage: whatever its kind, an event whose texts are text and whose times
  can be written is read back from its stored form unchanged.
\<close>

theorem event_roundtrip:
  assumes "event_ok e"
  shows "event_from_bytes (event_to_bytes e) = Inr e"
  using assms by (rule event_from_to_bytes)

theorem event_roundtrip_witness:
  "\<exists>e. event_from_bytes (event_to_bytes e) = Inr e \<and>
     e = SecretDeleted ''p1'' ''e1'' ''KEY'' (from_unix 0)"
  by (intro exI conjI event_roundtrip) simp_all

text \<open>
  Reading is strict: an event read from storage is well formed, a sealed value of another
  format and an event of an unknown kind are refused, whatever else the record holds.
\<close>

lemma event_reading_is_strict:
  "(\<forall>bs e. event_from_bytes bs = Inr e \<longrightarrow> event_ok e) \<and>
   (\<forall>v f. json_get ''v'' v = Some (JInt f) \<longrightarrow> f \<noteq> 1 \<longrightarrow>
      sealed_from_value v = Inl (MalformedEvent ''unknown sealed value format'')) \<and>
   (\<forall>v k. json_get ''type'' v = Some (JString k) \<longrightarrow> k \<notin> range type_name \<longrightarrow>
      event_from_value v = Inl (MalformedEvent ''unknown event type''))"
proof (intro conjI allI impI)
  fix v k assume k: "json_get ''type'' v = Some (JString k)" "k \<notin> range type_name"
  have "type_name e \<noteq> k" for e using k(2) by blast
  from this [of "UserCreated _ _ _ _"] this [of "TokenIssued _ _ _ _ _ _ _ _ _"]
    this [of "TokenRevoked _ _"] this [of "ProjectCreated _ _ _ _ _"]
    this [of "EnvironmentCreated _ _ _ _ _"] this [of "SecretSet _ _ _ _ _"]
    this [of "SecretDeleted _ _ _ _"] this [of "Audited _ _ _ _ _"] k(1)
  show "event_from_value v = Inl (MalformedEvent ''unknown event type'')"
    by (simp add: event_from_value_def text_field_def)
qed (auto simp: sealed_from_value_def as_i64_def sealed_format_def intro: event_from_bytes_ok)

theorem event_reading_is_strict_witness:
  "sealed_from_value (json_object [(''v'', JInt 2)]) = Inl (MalformedEvent ''unknown sealed value format'')"
  by (rule event_reading_is_strict [THEN conjunct2, THEN conjunct1, rule_format, of _ 2]) (simp_all add: json_object_def)

end
