(* ===== verification/State.thy ===== *)
theory State
  imports Event "HOL-Library.Char_ord" "HOL-Library.List_Lexorder"
begin

text \<open>
  \<open>ls-store/src/state.rs\<close>: the state is what replaying the log builds. Each \<open>Vec\<close> is a list in
  the source's order, each lookup the first match. Text is ordered by its bytes, as \<open>str::cmp\<close>
  orders it.

  The contract of the secrets is stated as a locale of keyed stores and shown of the list the code
  keeps; the map from slots to values is the abstract view the operations refine.
\<close>

section \<open>Data\<close>

record user =
  u_id :: str
  u_email :: str
  u_password_hash :: str
  u_created_at :: timestamp

record token =
  t_id :: str
  t_token_hash :: bytes
  t_kind :: token_kind
  t_user_id :: "str option"
  t_project_id :: "str option"
  t_environment_id :: "str option"
  t_label :: "str option"
  t_expires_at :: "timestamp option"
  t_revoked_at :: "timestamp option"
  t_created_at :: timestamp

record project =
  p_id :: str
  p_slug :: str
  p_name :: str
  p_data_key :: sealed
  p_created_at :: timestamp

record environment =
  e_id :: str
  e_project_id :: str
  e_slug :: str
  e_name :: str
  e_created_at :: timestamp

record secret =
  s_project_id :: str
  s_environment_id :: str
  s_key :: str
  s_value :: sealed
  s_updated_at :: timestamp

record state =
  users :: "user list"
  tokens :: "token list"
  projects :: "project list"
  environments :: "environment list"
  secrets :: "secret list"

definition empty_state :: state where
  "empty_state = \<lparr>users = [], tokens = [], projects = [], environments = [], secrets = []\<rparr>"

definition is_valid_at :: "token \<Rightarrow> timestamp \<Rightarrow> bool" where
  "is_valid_at t instant =
     (if t_revoked_at t \<noteq> None then False
      else (case t_expires_at t of Some expiry \<Rightarrow> instant < expiry | None \<Rightarrow> True))"

section \<open>Folding events\<close>

text \<open>\<open>iter_mut().find(p)\<close> followed by an assignment.\<close>

fun update_first :: "('a \<Rightarrow> bool) \<Rightarrow> ('a \<Rightarrow> 'a) \<Rightarrow> 'a list \<Rightarrow> 'a list" where
  "update_first p f [] = []"
| "update_first p f (x # xs) = (if p x then f x # xs else x # update_first p f xs)"

definition at_slot :: "str \<Rightarrow> str \<Rightarrow> str \<Rightarrow> secret \<Rightarrow> bool" where
  "at_slot p e k s \<longleftrightarrow> s_project_id s = p \<and> s_environment_id s = e \<and> s_key s = k"

fun apply_event :: "event \<Rightarrow> state \<Rightarrow> state" where
  "apply_event (UserCreated i email password_hash created_at) st =
     st\<lparr>users := users st @ [\<lparr>u_id = i, u_email = email, u_password_hash = password_hash,
                              u_created_at = created_at\<rparr>]\<rparr>"
| "apply_event (TokenIssued i token_hash kind user_id project_id environment_id label expires_at created_at) st =
     st\<lparr>tokens := tokens st @ [\<lparr>t_id = i, t_token_hash = token_hash, t_kind = kind,
        t_user_id = user_id, t_project_id = project_id, t_environment_id = environment_id,
        t_label = label, t_expires_at = expires_at, t_revoked_at = None, t_created_at = created_at\<rparr>]\<rparr>"
| "apply_event (TokenRevoked i at) st =
     st\<lparr>tokens := update_first (\<lambda>t. t_id t = i) (\<lambda>t. t\<lparr>t_revoked_at := Some at\<rparr>) (tokens st)\<rparr>"
| "apply_event (ProjectCreated i slug name data_key created_at) st =
     st\<lparr>projects := projects st @ [\<lparr>p_id = i, p_slug = slug, p_name = name, p_data_key = data_key,
                                    p_created_at = created_at\<rparr>]\<rparr>"
| "apply_event (EnvironmentCreated i project_id slug name created_at) st =
     st\<lparr>environments := environments st @ [\<lparr>e_id = i, e_project_id = project_id, e_slug = slug,
                                            e_name = name, e_created_at = created_at\<rparr>]\<rparr>"
| "apply_event (SecretSet project_id environment_id key val at) st =
     (if list_ex (at_slot project_id environment_id key) (secrets st)
      then st\<lparr>secrets := update_first (at_slot project_id environment_id key)
                (\<lambda>s. s\<lparr>s_value := val, s_updated_at := at\<rparr>) (secrets st)\<rparr>
      else st\<lparr>secrets := secrets st @ [\<lparr>s_project_id = project_id, s_environment_id = environment_id,
                s_key = key, s_value = val, s_updated_at = at\<rparr>]\<rparr>)"
| "apply_event (SecretDeleted project_id environment_id key at) st =
     st\<lparr>secrets := filter (\<lambda>s. \<not> at_slot project_id environment_id key s) (secrets st)\<rparr>"
| "apply_event (Audited at actor action target outcome) st = st"

text \<open>Replaying a log, oldest event first.\<close>

definition replay :: "event list \<Rightarrow> state" where
  "replay es = fold apply_event es empty_state"

section \<open>Lookups\<close>

definition user_by_email :: "str \<Rightarrow> state \<Rightarrow> user option" where
  "user_by_email email st =
     (let wanted = to_ascii_lowercase (trim email) in List.find (\<lambda>u. u_email u = wanted) (users st))"

definition find_user :: "str \<Rightarrow> state \<Rightarrow> user option" where
  "find_user i st = List.find (\<lambda>u. u_id u = i) (users st)"

definition token_by_hash :: "bytes \<Rightarrow> state \<Rightarrow> token option" where
  "token_by_hash h st = List.find (\<lambda>t. t_token_hash t = h) (tokens st)"

definition find_token :: "str \<Rightarrow> state \<Rightarrow> token option" where
  "find_token i st = List.find (\<lambda>t. t_id t = i) (tokens st)"

definition project_by_slug :: "str \<Rightarrow> state \<Rightarrow> project option" where
  "project_by_slug slug st = List.find (\<lambda>p. p_slug p = slug) (projects st)"

definition find_project :: "str \<Rightarrow> state \<Rightarrow> project option" where
  "find_project i st = List.find (\<lambda>p. p_id p = i) (projects st)"

definition environment_by_slug :: "str \<Rightarrow> str \<Rightarrow> state \<Rightarrow> environment option" where
  "environment_by_slug project_id slug st =
     List.find (\<lambda>e. e_project_id e = project_id \<and> e_slug e = slug) (environments st)"

definition environments_in :: "str \<Rightarrow> state \<Rightarrow> environment list" where
  "environments_in project_id st = filter (\<lambda>e. e_project_id e = project_id) (environments st)"

definition find_secret :: "str \<Rightarrow> str \<Rightarrow> str \<Rightarrow> state \<Rightarrow> secret option" where
  "find_secret project_id environment_id key st =
     List.find (at_slot project_id environment_id key) (secrets st)"

definition secrets_in :: "str \<Rightarrow> str \<Rightarrow> state \<Rightarrow> secret list" where
  "secrets_in project_id environment_id st =
     sort_key s_key (filter (\<lambda>s. s_project_id s = project_id \<and> s_environment_id s = environment_id)
                       (secrets st))"

section \<open>The contract of a keyed store\<close>

locale keyed_store =
  fixes lookup :: "'k \<Rightarrow> 's \<Rightarrow> 'v option"
    and put :: "'k \<Rightarrow> 'v \<Rightarrow> 's \<Rightarrow> 's"
    and remove :: "'k \<Rightarrow> 's \<Rightarrow> 's"
    and ok :: "'s \<Rightarrow> bool"
  assumes lookup_put: "lookup k (put k' v s) = (if k = k' then Some v else lookup k s)"
    and lookup_remove: "lookup k (remove k' s) = (if k = k' then None else lookup k s)"
    and ok_put: "ok s \<Longrightarrow> ok (put k v s)"
    and ok_remove: "ok s \<Longrightarrow> ok (remove k s)"
begin

text \<open>The map a store stands for, and what the operations do to it.\<close>

lemma put_refines: "(\<lambda>k. lookup k (put k' v s)) = (\<lambda>k. lookup k s)(k' \<mapsto> v)"
  by (auto simp: lookup_put)

lemma remove_refines: "(\<lambda>k. lookup k (remove k' s)) = (\<lambda>k. lookup k s)(k' := None)"
  by (auto simp: lookup_remove)

lemma lookup_put_put: "lookup k (put k v (put k w s)) = Some v"
  by (simp add: lookup_put)

lemma lookup_remove_put: "lookup k (remove k (put k v s)) = None"
  by (simp add: lookup_remove)

end

section \<open>The list of secrets is one\<close>

lemma find_update_first_same:
  assumes "\<And>x. p (f x) = p x"
  shows "List.find p (update_first p f xs) = map_option f (List.find p xs)"
  using assms by (induction xs) auto

lemma find_update_first_other:
  assumes "\<And>x. q (f x) = q x" and "\<And>x. q x \<Longrightarrow> \<not> p x"
  shows "List.find q (update_first p f xs) = List.find q xs"
  using assms by (induction xs) auto

lemma find_append: "List.find p (xs @ ys) = (case List.find p xs of None \<Rightarrow> List.find p ys | Some x \<Rightarrow> Some x)"
  by (induction xs) auto

lemma find_filter: "(\<And>x. p x \<Longrightarrow> q x) \<Longrightarrow> List.find p (filter q xs) = List.find p xs"
  by (induction xs) auto

lemma map_update_first: "(\<And>x. g (f x) = g x) \<Longrightarrow> map g (update_first p f xs) = map g xs"
  by (induction xs) auto

lemma list_ex_find: "list_ex p xs \<longleftrightarrow> List.find p xs \<noteq> None"
  by (induction xs) auto

type_synonym slot = "str \<times> str \<times> str"

definition slot_of :: "secret \<Rightarrow> slot" where
  "slot_of s = (s_project_id s, s_environment_id s, s_key s)"

definition lookup_slot :: "slot \<Rightarrow> state \<Rightarrow> (sealed \<times> timestamp) option" where
  "lookup_slot k st = (case k of (p, e, n) \<Rightarrow>
     map_option (\<lambda>s. (s_value s, s_updated_at s)) (find_secret p e n st))"

definition put_slot :: "slot \<Rightarrow> sealed \<times> timestamp \<Rightarrow> state \<Rightarrow> state" where
  "put_slot k v st = (case k of (p, e, n) \<Rightarrow> case v of (x, at) \<Rightarrow> apply_event (SecretSet p e n x at) st)"

definition delete_slot :: "slot \<Rightarrow> state \<Rightarrow> state" where
  "delete_slot k st = (case k of (p, e, n) \<Rightarrow> apply_event (SecretDeleted p e n (Timestamp 0)) st)"

definition slots_distinct :: "state \<Rightarrow> bool" where
  "slots_distinct st \<longleftrightarrow> distinct (map slot_of (secrets st))"

lemma at_slot_slot_of: "at_slot p e k s \<longleftrightarrow> slot_of s = (p, e, k)"
  by (simp add: at_slot_def slot_of_def)

lemma slot_of_set [simp]: "slot_of (s\<lparr>s_value := v, s_updated_at := a\<rparr>) = slot_of s"
  by (simp add: slot_of_def)

lemma find_secret_set:
  "find_secret p' e' k' (apply_event (SecretSet p e k v at) st) =
     (if (p', e', k') = (p, e, k)
      then Some (case find_secret p e k st of
          Some s \<Rightarrow> s\<lparr>s_value := v, s_updated_at := at\<rparr>
        | None \<Rightarrow> \<lparr>s_project_id = p, s_environment_id = e, s_key = k, s_value = v, s_updated_at = at\<rparr>)
      else find_secret p' e' k' st)"
proof -
  let ?f = "\<lambda>s. s\<lparr>s_value := v, s_updated_at := at\<rparr>"
  have "List.find (at_slot p e k) (update_first (at_slot p e k) ?f xs) = map_option ?f (List.find (at_slot p e k) xs)" for xs
    by (rule find_update_first_same) (simp add: at_slot_slot_of)
  moreover have "List.find (at_slot p' e' k') (update_first (at_slot p e k) ?f xs) = List.find (at_slot p' e' k') xs"
    if "(p', e', k') \<noteq> (p, e, k)" for xs
    by (rule find_update_first_other) (use that in \<open>auto simp: at_slot_slot_of\<close>)
  ultimately show ?thesis
    by (auto simp: find_secret_def list_ex_find find_append at_slot_def split: option.splits)
qed

lemma find_secret_deleted:
  "find_secret p' e' k' (apply_event (SecretDeleted p e k at) st) =
     (if (p', e', k') = (p, e, k) then None else find_secret p' e' k' st)"
proof -
  have "List.find (at_slot p e k) (filter (\<lambda>s. \<not> at_slot p e k s) xs) = None" for xs
    by (induction xs) auto
  moreover have "List.find (at_slot p' e' k') (filter (\<lambda>s. \<not> at_slot p e k s) xs) = List.find (at_slot p' e' k') xs"
    if "(p', e', k') \<noteq> (p, e, k)" for xs
    by (rule find_filter) (use that in \<open>auto simp: at_slot_slot_of\<close>)
  ultimately show ?thesis by (simp add: find_secret_def)
qed

lemma apply_event_slots_distinct: "slots_distinct st \<Longrightarrow> slots_distinct (apply_event e st)"
proof (cases e)
  case (SecretSet p e' k v at)
  have "map slot_of (update_first q (\<lambda>s. s\<lparr>s_value := v, s_updated_at := at\<rparr>) xs) = map slot_of xs" for q xs
    by (rule map_update_first) simp
  moreover assume "slots_distinct st"
  ultimately show ?thesis
    using SecretSet by (auto simp: slots_distinct_def list_ex_iff at_slot_slot_of slot_of_def)
next
  case (SecretDeleted p e' k at)
  assume "slots_distinct st"
  with SecretDeleted show ?thesis
    by (simp add: slots_distinct_def distinct_map_filter)
qed (simp_all add: slots_distinct_def)

interpretation secret_slots: keyed_store lookup_slot put_slot delete_slot slots_distinct
proof unfold_locales
  fix k k' :: slot and v st
  show "lookup_slot k (put_slot k' v st) = (if k = k' then Some v else lookup_slot k st)"
    by (cases k; cases k'; cases v)
      (simp add: lookup_slot_def put_slot_def find_secret_set del: apply_event.simps split: option.splits)
  show "lookup_slot k (delete_slot k' st) = (if k = k' then None else lookup_slot k st)"
    by (cases k; cases k')
      (simp add: lookup_slot_def delete_slot_def find_secret_deleted del: apply_event.simps)
qed (auto simp: put_slot_def delete_slot_def apply_event_slots_distinct simp del: apply_event.simps
    split: prod.splits)

section \<open>Replaying\<close>

lemma replay_Nil [simp]: "replay [] = empty_state"
  by (simp add: replay_def)

lemma replay_append [simp]: "replay (es @ fs) = fold apply_event fs (replay es)"
  by (simp add: replay_def)

lemma replay_induct [case_names empty step]:
  assumes "P empty_state" and "\<And>st e. P st \<Longrightarrow> P (apply_event e st)"
  shows "P (replay es)"
  by (induction es rule: rev_induct) (use assms in auto)

lemma fold_apply_induct:
  assumes "P st" and "\<And>st e. P st \<Longrightarrow> P (apply_event e st)"
  shows "P (fold apply_event es st)"
  using assms(1) by (induction es arbitrary: st) (simp_all add: assms(2))

text \<open>The abstract machine of secrets: a map from slots to values.\<close>

fun slot_step :: "event \<Rightarrow> (slot \<rightharpoonup> sealed \<times> timestamp) \<Rightarrow> (slot \<rightharpoonup> sealed \<times> timestamp)" where
  "slot_step (SecretSet p e k v at) m = m((p, e, k) \<mapsto> (v, at))"
| "slot_step (SecretDeleted p e k at) m = m((p, e, k) := None)"
| "slot_step _ m = m"

lemma apply_event_refines:
  "(\<lambda>k. lookup_slot k (apply_event e st)) = slot_step e (\<lambda>k. lookup_slot k st)"
proof (cases e)
  case (SecretSet p q k v at)
  then have "apply_event e st = put_slot (p, q, k) (v, at) st"
    by (simp add: put_slot_def del: apply_event.simps)
  with SecretSet secret_slots.put_refines show ?thesis by simp
next
  case (SecretDeleted p q k at)
  then have "apply_event e st = delete_slot (p, q, k) st"
    by (simp add: delete_slot_def)
  with SecretDeleted secret_slots.remove_refines show ?thesis by simp
qed (auto simp: lookup_slot_def find_secret_def split: prod.splits)

lemma replay_refines: "(\<lambda>k. lookup_slot k (replay es)) = fold slot_step es Map.empty"
proof (induction es rule: rev_induct)
  case Nil
  show ?case by (auto simp: lookup_slot_def find_secret_def empty_state_def split: prod.splits)
next
  case (snoc e es)
  then show ?case by (simp add: apply_event_refines)
qed

lemma replay_slots_distinct: "slots_distinct (replay es)"
  by (rule replay_induct) (simp_all add: apply_event_slots_distinct, simp add: slots_distinct_def empty_state_def)

lemma find_secret_iff:
  assumes "slots_distinct st"
  shows "find_secret p e k st = Some s \<longleftrightarrow> s \<in> set (secrets st) \<and> slot_of s = (p, e, k)"
proof -
  have "List.find (at_slot p e k) xs = Some s \<longleftrightarrow> s \<in> set xs \<and> slot_of s = (p, e, k)"
    if "distinct (map slot_of xs)" for xs
    using that by (induction xs) (auto simp: at_slot_slot_of image_iff)
  with assms show ?thesis by (simp add: find_secret_def slots_distinct_def)
qed

text \<open>The listing of an environment: ascending keys, and exactly what lookups find there.\<close>

lemma secrets_in_spec:
  assumes "slots_distinct st"
  shows "sorted_wrt (<) (map s_key (secrets_in p e st)) \<and>
    (s \<in> set (secrets_in p e st) \<longleftrightarrow>
       s_project_id s = p \<and> s_environment_id s = e \<and> find_secret p e (s_key s) st = Some s)"
proof -
  let ?xs = "filter (\<lambda>s. s_project_id s = p \<and> s_environment_id s = e) (secrets st)"
  have d: "distinct (map slot_of (secrets st))"
    using assms by (simp add: slots_distinct_def)
  have "inj_on s_key (set ?xs)"
    using d by (auto simp: inj_on_def distinct_map slot_of_def)
  moreover have "distinct ?xs"
    using d by (simp add: distinct_map)
  ultimately have "distinct (map s_key (sort_key s_key ?xs))"
    by (simp add: distinct_map)
  then have "sorted_wrt (<) (map s_key (secrets_in p e st))"
    by (simp add: secrets_in_def strict_sorted_iff)
  then show ?thesis
    by (auto simp: secrets_in_def find_secret_iff [OF assms] slot_of_def)
qed

text \<open>Tokens: a revocation stays, an identifier keeps its place.\<close>

definition revoked :: "str \<Rightarrow> state \<Rightarrow> bool" where
  "revoked i st \<longleftrightarrow> (\<exists>t. find_token i st = Some t \<and> t_revoked_at t \<noteq> None)"

lemma find_token_revoke:
  "find_token i (apply_event (TokenRevoked j at) st) =
     (if i = j then map_option (\<lambda>t. t\<lparr>t_revoked_at := Some at\<rparr>) (find_token i st) else find_token i st)"
proof (cases "i = j")
  case True
  have "List.find (\<lambda>t. t_id t = j) (update_first (\<lambda>t. t_id t = j) (\<lambda>t. t\<lparr>t_revoked_at := Some at\<rparr>) xs) =
      map_option (\<lambda>t. t\<lparr>t_revoked_at := Some at\<rparr>) (List.find (\<lambda>t. t_id t = j) xs)" for xs
    by (rule find_update_first_same) simp
  with True show ?thesis by (simp add: find_token_def)
next
  case False
  have "List.find (\<lambda>t. t_id t = i) (update_first (\<lambda>t. t_id t = j) (\<lambda>t. t\<lparr>t_revoked_at := Some at\<rparr>) xs) =
      List.find (\<lambda>t. t_id t = i) xs" for xs
    by (rule find_update_first_other) (use False in auto)
  with False show ?thesis by (simp add: find_token_def)
qed

lemma revoked_stays: "revoked i st \<Longrightarrow> revoked i (apply_event e st)"
proof (cases e)
  case (TokenRevoked j at)
  assume "revoked i st"
  with TokenRevoked show ?thesis
    by (auto simp: revoked_def find_token_revoke simp del: apply_event.simps)
qed (auto simp: revoked_def find_token_def find_append)

lemma ids_grow:
  "\<exists>us ts ps ns. map u_id (users (apply_event e st)) = map u_id (users st) @ us \<and>
     map t_id (tokens (apply_event e st)) = map t_id (tokens st) @ ts \<and>
     map p_id (projects (apply_event e st)) = map p_id (projects st) @ ps \<and>
     map e_id (environments (apply_event e st)) = map e_id (environments st) @ ns"
proof (cases e)
  case (TokenRevoked i at)
  have "map t_id (update_first q (\<lambda>t. t\<lparr>t_revoked_at := Some at\<rparr>) xs) = map t_id xs" for q and xs :: "token list"
    by (rule map_update_first) simp
  with TokenRevoked show ?thesis by auto
qed auto

section \<open>Properties\<close>

text \<open>
  C18: Replaying the log implements the abstract machine of secrets: after any sequence of events, in
  any interleaving of writes, overwrites, deletions and unrelated events, each slot holds what the
  last event about that slot left there.
\<close>

theorem replay_refines_slots:
  "(\<lambda>k. lookup_slot k (replay es)) = fold slot_step es Map.empty"
  by (rule replay_refines)

text \<open>
  No replay ever holds two entries for one slot, so a lookup, which returns the first match,
  returns the only one.
\<close>

lemma one_secret_per_slot:
  "distinct (map (\<lambda>s. (s_project_id s, s_environment_id s, s_key s)) (secrets (replay es))) \<and>
   (find_secret p e k (replay es) = Some s \<longleftrightarrow>
      s \<in> set (secrets (replay es)) \<and> s_project_id s = p \<and> s_environment_id s = e \<and> s_key s = k)"
  using replay_slots_distinct [of es] find_secret_iff [OF replay_slots_distinct]
  by (simp add: slots_distinct_def slot_of_def [abs_def])

text \<open>
  C19: Revocation is final: once the log revokes a token that exists, no later event, in any order,
  makes it valid again, at any moment one asks about.
\<close>

theorem revocation_is_final:
  assumes "find_token i (replay es) = Some t"
  shows "\<exists>t'. find_token i (replay (es @ TokenRevoked i at # fs)) = Some t' \<and> (\<forall>instant. \<not> is_valid_at t' instant)"
proof -
  have "revoked i (apply_event (TokenRevoked i at) (replay es))"
    using assms by (simp add: revoked_def find_token_revoke del: apply_event.simps)
  then have "revoked i (fold apply_event fs (apply_event (TokenRevoked i at) (replay es)))"
    by (rule fold_apply_induct) (rule revoked_stays)
  then show ?thesis
    by (auto simp: revoked_def is_valid_at_def)
qed

theorem revocation_is_final_witness:
  "\<exists>t'. find_token ''t'' (replay ([TokenIssued ''t'' [] MachineToken None None None None None (Timestamp 0)] @
      TokenRevoked ''t'' (Timestamp 1) # [Audited (Timestamp 2) [] [] [] []])) = Some t' \<and>
    (\<forall>instant. \<not> is_valid_at t' instant)"
  by (rule revocation_is_final) (simp add: replay_def empty_state_def find_token_def)

text \<open>
  History only grows: whatever is appended to a log, the accounts, tokens, projects and
  environments it had keep their identifiers and their places.
\<close>

lemma history_only_grows:
  "\<exists>us ts ps ns. map u_id (users (replay (es @ fs))) = map u_id (users (replay es)) @ us \<and>
     map t_id (tokens (replay (es @ fs))) = map t_id (tokens (replay es)) @ ts \<and>
     map p_id (projects (replay (es @ fs))) = map p_id (projects (replay es)) @ ps \<and>
     map e_id (environments (replay (es @ fs))) = map e_id (environments (replay es)) @ ns"
  unfolding replay_append
proof (rule fold_apply_induct)
  fix st :: state and e
  let ?P = "\<lambda>st :: state. \<exists>us ts ps ns. map u_id (users st) = map u_id (users (replay es)) @ us \<and>
     map t_id (tokens st) = map t_id (tokens (replay es)) @ ts \<and>
     map p_id (projects st) = map p_id (projects (replay es)) @ ps \<and>
     map e_id (environments st) = map e_id (environments (replay es)) @ ns"
  assume "?P st"
  moreover note ids_grow [of e st]
  ultimately show "?P (apply_event e st)" by (elim exE conjE) simp
qed simp

end
