(* ===== verification/Log.thy ===== *)
theory Log
  imports State "HOL-Library.Sublist"
begin

text \<open>
  \<open>ls-store/src/log.rs\<close>: the append-only file. An open \<open>log_file\<close> is the source's struct, a
  handle included; an operation on \<open>&mut self\<close> takes the log and the world and returns its result
  with both as it leaves them. The fault oracle of the world decides which file operation fails, so
  that every error path is taken by some world, a write that stops halfway included.
\<close>

section \<open>The file\<close>

definition magic :: bytes where "magic = as_bytes ''LSLOG1''"
definition format_version :: byte where "format_version = 1"
definition kind_plain :: byte where "kind_plain = 0"
definition kind_sealed :: byte where "kind_sealed = 1"

record log_record =
  lr_sealed :: bool
  lr_payload :: bytes

record log_file =
  lg_path :: path
  lg_file :: handle
  lg_count :: nat
  lg_broken :: bool
  lg_repaired :: bool

type_synonym 'a log_op = "log_file \<Rightarrow> world \<Rightarrow> (store_error + 'a) \<times> log_file \<times> world"

definition open_private :: "path \<Rightarrow> (store_error, handle) io" where
  "open_private p = mapE StoreIo (fs_open_create p)"

section \<open>Reading frames\<close>

text \<open>\<open>read_exact\<close> of the header, any failure of which is \<open>NotALog\<close>.\<close>

definition read_header :: "handle \<Rightarrow> (store_error, bytes \<times> handle) io" where
  "read_header file =
     bindio (mapE (\<lambda>_. NotALog) (fs_read file header_len)) (\<lambda>(bs, h).
       if length bs < header_len then fail NotALog else ret (bs, h))"

definition check_header :: "handle \<Rightarrow> (store_error, unit) io" where
  "check_header file =
     bindio (mapE StoreIo (fs_seek 0 file)) (\<lambda>file.
     bindio (read_header file) (\<lambda>(header, _).
       if take (length magic) header \<noteq> magic then fail NotALog
       else if header ! (header_len - 1) \<noteq> format_version
       then fail (UnsupportedVersion (header ! (header_len - 1)))
       else ret ()))"

lemma fs_read_Inr:
  "fs_read h n w = (Inr (bs, h'), w') \<Longrightarrow>
     bs = take n (drop (h_offset h) (contents w (h_inode h))) \<and> h' = h\<lparr>h_offset := h_offset h + length bs\<rparr> \<and>
     w' = w\<lparr>calls := Suc (calls w)\<rparr>"
  by (auto simp: fs_read_def next_fault_def Let_def split: prod.splits option.splits)

abbreviation unread :: "handle \<Rightarrow> world \<Rightarrow> nat" where
  "unread h w \<equiv> length (contents w (h_inode h)) - h_offset h"

lemma fs_read_unread:
  "fs_read h n w = (Inr (bs, h'), w') \<Longrightarrow> 0 < length bs \<Longrightarrow> unread h' w' < unread h w"
  by (auto dest!: fs_read_Inr)

lemma fs_read_unread_le: "fs_read h n w = (Inr (bs, h'), w') \<Longrightarrow> unread h' w' \<le> unread h w"
  by (auto dest!: fs_read_Inr)

lemma frame_unread:
  assumes "fs_read h 4 w = (Inr (length_bytes, h1), w1)" and "\<not> length length_bytes < 4"
    and "fs_read h1 n w1 = (Inr (body, h2), w2)"
  shows "unread h2 w2 < unread h w"
proof -
  have "0 < length length_bytes" using assms(2) by linarith
  with fs_read_unread [OF assms(1)] fs_read_unread_le [OF assms(3)] show ?thesis by linarith
qed

text \<open>Walking the frames: the number of complete records and the length they take up.\<close>

function scan_loop :: "nat \<Rightarrow> nat \<Rightarrow> handle \<Rightarrow> world \<Rightarrow> (store_error + nat \<times> nat) \<times> world" where
  "scan_loop count good_len h w =
     (case fs_read h 4 w of
        (Inl e, w1) \<Rightarrow> (Inl (StoreIo e), w1)
      | (Inr (length_bytes, h1), w1) \<Rightarrow>
          if length length_bytes < 4 then (Inr (count, good_len), w1)
          else let len = from_be_bytes length_bytes in
            if len = 0 then (Inl (Corrupt good_len ''a record frame claims to be empty''), w1)
            else if len > max_record_len
            then (Inl (Corrupt good_len ''a record frame claims a length this build never writes''), w1)
            else (case fs_read h1 len w1 of
                (Inl e, w2) \<Rightarrow> (Inl (StoreIo e), w2)
              | (Inr (body, h2), w2) \<Rightarrow>
                  if length body \<noteq> len then (Inr (count, good_len), w2)
                  else scan_loop (count + 1) (good_len + 4 + len) h2 w2))"
  by pat_completeness auto
termination
proof (relation "measure (\<lambda>(_, _, h, w). unread h w)", goal_cases)
  case (2 count good_len h w r w1 b length_bytes h1 len r2 w2 b2 body h2)
  then have "fs_read h 4 w = (Inr (length_bytes, h1), w1)" "\<not> length length_bytes < 4"
    "fs_read h1 len w1 = (Inr (body, h2), w2)" by simp_all
  from frame_unread [OF this] show ?case by simp
qed simp

definition scan :: "handle \<Rightarrow> (store_error, nat \<times> nat) io" where
  "scan file =
     bindio (mapE StoreIo (fs_seek header_len file)) (\<lambda>h. scan_loop 0 header_len h)"

text \<open>Handing each complete record to a visitor, which keeps a result and may stop with an error.\<close>

function visit_loop ::
  "(nat \<Rightarrow> byte \<Rightarrow> bytes \<Rightarrow> 'a \<Rightarrow> store_error + 'a) \<Rightarrow> nat \<Rightarrow> nat \<Rightarrow> 'a \<Rightarrow> handle \<Rightarrow> world \<Rightarrow>
     (store_error + 'a) \<times> world" where
  "visit_loop visit sequence offset out h w =
     (case fs_read h 4 w of
        (Inl e, w1) \<Rightarrow> (Inl (StoreIo e), w1)
      | (Inr (length_bytes, h1), w1) \<Rightarrow>
          if length length_bytes < 4 then (Inr out, w1)
          else let len = from_be_bytes length_bytes in
            if len = 0 \<or> len > max_record_len
            then (Inl (Corrupt offset ''a record frame claims an impossible length''), w1)
            else (case fs_read h1 len w1 of
                (Inl e, w2) \<Rightarrow> (Inl (StoreIo e), w2)
              | (Inr (body, h2), w2) \<Rightarrow>
                  if length body \<noteq> len then (Inr out, w2)
                  else (case visit sequence (hd body) (tl body) out of
                      Inl e \<Rightarrow> (Inl e, w2)
                    | Inr out' \<Rightarrow> visit_loop visit (sequence + 1) (offset + 4 + len) out' h2 w2)))"
  by pat_completeness auto
termination
proof (relation "measure (\<lambda>(_, _, _, _, h, w). unread h w)", goal_cases)
  case (2 visit sequence offset out h w r w1 b length_bytes h1 len r2 w2 b2 body h2 out')
  then have "fs_read h 4 w = (Inr (length_bytes, h1), w1)" "\<not> length length_bytes < 4"
    "fs_read h1 len w1 = (Inr (body, h2), w2)" by simp_all
  from frame_unread [OF this] show ?case by simp
qed simp

declare scan_loop.simps [simp del] visit_loop.simps [simp del]

definition for_each_record ::
  "path \<Rightarrow> (nat \<Rightarrow> byte \<Rightarrow> bytes \<Rightarrow> 'a \<Rightarrow> store_error + 'a) \<Rightarrow> 'a \<Rightarrow> (store_error, 'a) io" where
  "for_each_record p visit out =
     bindio (mapE StoreIo (fs_open_read p)) (\<lambda>file.
     bindio (read_header file) (\<lambda>(_, h).
       visit_loop visit 0 header_len out h))"

section \<open>Opening\<close>

text \<open>The branch that writes the header of an empty file, and the one that takes up an existing log.\<close>

definition start_log :: "path \<Rightarrow> handle \<Rightarrow> (store_error, log_file) io" where
  "start_log p file =
     bindio (mapE StoreIo (fs_write_all file (magic @ [0, format_version]))) (\<lambda>file.
     bindio (mapE StoreIo (fs_sync file)) (\<lambda>_.
       ret \<lparr>lg_path = p, lg_file = file, lg_count = 0, lg_broken = False, lg_repaired = False\<rparr>))"

definition resume_log :: "path \<Rightarrow> handle \<Rightarrow> (store_error, log_file) io" where
  "resume_log p file =
     bindio (check_header file) (\<lambda>_.
     bindio (scan file) (\<lambda>(count, good_len).
     bindio (mapE StoreIo (fs_len file)) (\<lambda>n.
       let repaired = (n \<noteq> good_len) in
       bindio (if repaired
               then bindio (mapE StoreIo (fs_set_len file good_len)) (\<lambda>_. mapE StoreIo (fs_sync file))
               else ret ()) (\<lambda>_.
       bindio (mapE StoreIo (fs_seek_end file)) (\<lambda>file.
         ret \<lparr>lg_path = p, lg_file = file, lg_count = count, lg_broken = False,
              lg_repaired = repaired\<rparr>)))))"

definition log_open :: "path \<Rightarrow> (store_error, log_file) io" where
  "log_open p w =
     (case fs_exists p w of (existed, w1) \<Rightarrow>
        bindio (open_private p) (\<lambda>file.
        bindio (if \<not> existed then ret True
                else bindio (mapE StoreIo (fs_len file)) (\<lambda>n. ret (n = 0))) (\<lambda>empty.
          if empty then start_log p file else resume_log p file)) w1)"

section \<open>Appending\<close>

definition record_context :: "nat \<Rightarrow> aad" where
  "record_context sequence = aad_new ''localsecrets.log.v1'' [show_nat sequence]"

definition seal_record :: "gcm \<Rightarrow> data_key \<Rightarrow> nat \<Rightarrow> bytes \<Rightarrow> (store_error, bytes) io" where
  "seal_record g key sequence payload =
     bindio (mapE (\<lambda>_. StoreCrypto) (aead_seal g key payload (record_context sequence))) (\<lambda>envelope.
       ret (env_nonce envelope @ env_ciphertext envelope))"

definition open_record :: "gcm \<Rightarrow> data_key \<Rightarrow> nat \<Rightarrow> bytes \<Rightarrow> store_error + bytes" where
  "open_record g key sequence payload =
     (if length payload < nonce_len then Inl (Unreadable sequence)
      else map_err (\<lambda>_. Unreadable sequence)
        (aead_open g key \<lparr>env_nonce = take nonce_len payload, env_ciphertext = drop nonce_len payload\<rparr>
           (record_context sequence)))"

definition write_record :: "byte \<Rightarrow> bytes \<Rightarrow> unit log_op" where
  "write_record kind payload lg w =
     (if lg_broken lg then (Inl StoreBroken, lg, w)
      else let len = length payload + 1 in
        if len > max_record_len then (Inl (RecordTooLarge (length payload) max_record_len), lg, w)
        else let framed = be_bytes 4 len @ kind # payload in
          (case bindio (fs_write_all (lg_file lg) framed) (\<lambda>h. bindio (fs_sync h) (\<lambda>_. ret h)) w of
             (Inl e, w1) \<Rightarrow> (Inl (StoreIo e), lg\<lparr>lg_broken := True\<rparr>, w1)
           | (Inr h, w1) \<Rightarrow> (Inr (), lg\<lparr>lg_file := h, lg_count := lg_count lg + 1\<rparr>, w1)))"

definition append_plain :: "bytes \<Rightarrow> unit log_op" where
  "append_plain payload = write_record kind_plain payload"

definition log_append :: "gcm \<Rightarrow> data_key \<Rightarrow> bytes \<Rightarrow> unit log_op" where
  "log_append g key payload lg w =
     (if length payload > max_record_len
      then (Inl (RecordTooLarge (length payload) max_record_len), lg, w)
      else (case seal_record g key (lg_count lg) payload w of
          (Inl e, w1) \<Rightarrow> (Inl e, lg, w1)
        | (Inr sealed_bytes, w1) \<Rightarrow> write_record kind_sealed sealed_bytes lg w1))"

section \<open>Reading back\<close>

text \<open>The closures the two readers hand to the walk.\<close>

definition collect_plain :: "nat \<Rightarrow> byte \<Rightarrow> bytes \<Rightarrow> bytes list \<Rightarrow> store_error + bytes list" where
  "collect_plain sequence kind payload out = Inr (if kind = kind_plain then out @ [payload] else out)"

definition collect_record ::
  "gcm \<Rightarrow> data_key \<Rightarrow> nat \<Rightarrow> byte \<Rightarrow> bytes \<Rightarrow> log_record list \<Rightarrow> store_error + log_record list" where
  "collect_record g key sequence kind payload out =
     (if kind = kind_plain then Inr (out @ [\<lparr>lr_sealed = False, lr_payload = payload\<rparr>])
      else and_then (open_record g key sequence payload) (\<lambda>opened.
        Inr (out @ [\<lparr>lr_sealed = True, lr_payload = opened\<rparr>])))"

definition read_plain :: "log_file \<Rightarrow> (store_error, bytes list) io" where
  "read_plain lg = for_each_record (lg_path lg) collect_plain []"

definition read_records :: "gcm \<Rightarrow> data_key \<Rightarrow> log_file \<Rightarrow> (store_error, log_record list) io" where
  "read_records g key lg = for_each_record (lg_path lg) (collect_record g key) []"

definition read_all :: "gcm \<Rightarrow> data_key \<Rightarrow> log_file \<Rightarrow> (store_error, bytes list) io" where
  "read_all g key lg = bindio (read_records g key lg) (\<lambda>rs. ret (map lr_payload rs))"

section \<open>Compacting\<close>

fun append_each :: "(bytes \<Rightarrow> unit log_op) \<Rightarrow> bytes list \<Rightarrow> unit log_op" where
  "append_each f [] lg w = (Inr (), lg, w)"
| "append_each f (r # rs) lg w =
     (case f r lg w of
        (Inl e, lg1, w1) \<Rightarrow> (Inl e, lg1, w1)
      | (Inr _, lg1, w1) \<Rightarrow> append_each f rs lg1 w1)"

text \<open>An operation on a log the caller owns: on an error the log is dropped.\<close>

definition run_log :: "unit log_op \<Rightarrow> log_file \<Rightarrow> (store_error, log_file) io" where
  "run_log op lg w =
     (case op lg w of (Inl e, _, w1) \<Rightarrow> (Inl e, w1) | (Inr _, lg1, w1) \<Rightarrow> (Inr lg1, w1))"

definition clear_temporary :: "path \<Rightarrow> (store_error, unit) io" where
  "clear_temporary p w =
     (case fs_remove p w of
        (Inr _, w1) \<Rightarrow> (Inr (), w1)
      | (Inl IoNotFound, w1) \<Rightarrow> (Inr (), w1)
      | (Inl e, w1) \<Rightarrow> (Inl (StoreIo e), w1))"

definition build_fresh :: "gcm \<Rightarrow> data_key \<Rightarrow> bytes list \<Rightarrow> bytes list \<Rightarrow> path \<Rightarrow> (store_error, log_file) io" where
  "build_fresh g key plain sealed_payloads temporary =
     bindio (log_open temporary) (\<lambda>fresh.
     bindio (run_log (append_each append_plain plain) fresh) (\<lambda>fresh.
     bindio (run_log (append_each (log_append g key) sealed_payloads) fresh) (\<lambda>fresh.
     bindio (mapE StoreIo (fs_sync (lg_file fresh))) (\<lambda>_. ret fresh))))"

definition compact :: "gcm \<Rightarrow> data_key \<Rightarrow> bytes list \<Rightarrow> bytes list \<Rightarrow> unit log_op" where
  "compact g key plain sealed_payloads lg w =
     (let temporary = with_extension ''compacting'' (lg_path lg) in
      case bindio (clear_temporary temporary) (\<lambda>_.
           bindio (build_fresh g key plain sealed_payloads temporary) (\<lambda>fresh.
           bindio (mapE StoreIo (fs_rename temporary (lg_path lg))) (\<lambda>_. ret fresh))) w of
        (Inl e, w1) \<Rightarrow> (Inl e, lg, w1)
      | (Inr fresh, w1) \<Rightarrow>
          (Inr (), lg\<lparr>lg_file := lg_file fresh, lg_count := lg_count fresh, lg_broken := False,
                     lg_repaired := False\<rparr>, flush_directory w1))"

end
