(* ===== verification/Log_Safety.thy ===== *)
theory Log_Safety
  imports Log
begin

text \<open>
  What the log file guarantees. A file is described by the records written to it: \<open>log_image rs\<close> is the
  header and the frames of \<open>rs\<close>, and \<open>torn t\<close> says that \<open>t\<close> is what an interrupted write of one
  more record leaves, a strict prefix of its frame.
\<close>

section \<open>The shape of the file\<close>

type_synonym raw_record = "byte \<times> bytes"

definition header :: bytes where "header = magic @ [0, format_version]"

definition frame :: "raw_record \<Rightarrow> bytes" where
  "frame r = be_bytes 4 (length (snd r) + 1) @ fst r # snd r"

definition record_fits :: "raw_record \<Rightarrow> bool" where
  "record_fits r \<longleftrightarrow> length (snd r) + 1 \<le> max_record_len"

definition frames :: "raw_record list \<Rightarrow> bytes" where "frames rs = concat (map frame rs)"

definition log_image :: "raw_record list \<Rightarrow> bytes" where "log_image rs = header @ frames rs"

definition torn :: "bytes \<Rightarrow> bool" where
  "torn t \<longleftrightarrow> (\<exists>r. record_fits r \<and> strict_prefix t (frame r))"

lemma frames_simps [simp]:
  "frames [] = []" "frames (r # rs) = frame r @ frames rs" "frames (rs @ qs) = frames rs @ frames qs"
  by (simp_all add: frames_def)

lemma length_header [simp]: "length header = header_len"
  by (simp add: header_def magic_def header_len_def)

lemma length_frame: "length (frame r) = 5 + length (snd r)"
  by (simp add: frame_def)

lemma log_image_append: "log_image (rs @ qs) = log_image rs @ frames qs"
  by (simp add: log_image_def)

lemma torn_Nil [simp]: "torn []"
proof -
  have "record_fits (0, []) \<and> strict_prefix [] (frame (0, []))"
    by (simp add: record_fits_def max_record_len_def frame_def strict_prefix_def)
  then show ?thesis unfolding torn_def by blast
qed

text \<open>The length field of a frame.\<close>

lemma frame_length_field: "record_fits r \<Longrightarrow> from_be_bytes (be_bytes 4 (length (snd r) + 1)) = length (snd r) + 1"
  by (simp add: record_fits_def max_record_len_def)

lemma frame_body: "drop 4 (frame r) = fst r # snd r"
  by (simp add: frame_def)

section \<open>Worlds that differ in how many file operations have been made\<close>

definition only_calls :: "world \<Rightarrow> world \<Rightarrow> bool" where
  "only_calls w w' \<longleftrightarrow> (\<exists>n \<ge> calls w. w' = w\<lparr>calls := n\<rparr>)"

lemma only_calls_set [simp]: "calls w \<le> n \<Longrightarrow> only_calls w (w\<lparr>calls := n\<rparr>)"
  unfolding only_calls_def by blast

lemma only_calls_refl [simp]: "only_calls w w"
  using only_calls_set [of w "calls w"] by simp

lemma only_calls_trans [trans]:
  assumes "only_calls w w1" and "only_calls w1 w2"
  shows "only_calls w w2"
proof -
  from assms(1) obtain m where m: "calls w \<le> m" "w1 = w\<lparr>calls := m\<rparr>" by (auto simp: only_calls_def)
  with assms(2) obtain n where "m \<le> n" "w2 = w1\<lparr>calls := n\<rparr>" by (auto simp: only_calls_def)
  with m show ?thesis by simp
qed

lemma only_callsD:
  assumes "only_calls w w'"
  shows "contents w' = contents w" "dir w' = dir w" "next_inode w' = next_inode w"
    "entropy w' = entropy w" "draws w' = draws w" "fault w' = fault w"
    "fs_healthy w \<Longrightarrow> fs_healthy w'"
  using assms by (auto simp: only_calls_def fs_healthy_def)

text \<open>How a read ends.\<close>

lemma fs_read_eq:
  "fs_read h n w =
     (if fault w (calls w) \<noteq> None then (Inl IoFailed, w\<lparr>calls := Suc (calls w)\<rparr>)
      else (Inr (take n (drop (h_offset h) (contents w (h_inode h))),
              h\<lparr>h_offset := h_offset h + min n (unread h w)\<rparr>), w\<lparr>calls := Suc (calls w)\<rparr>))"
  by (simp add: fs_read_def next_fault_def Let_def min.commute split: option.split)

lemma healthy_now: "fs_healthy w \<Longrightarrow> fault w (calls w) = None"
  by (simp add: fs_healthy_def)

lemma strict_prefix_take: "strict_prefix t s \<Longrightarrow> t = take (length t) s \<and> length t < length s"
  by (auto simp: strict_prefix_def prefix_def)

text \<open>The first frame of what is left to read, and what a torn frame looks like to the reader.\<close>

lemma read_frame:
  assumes "contents w (h_inode h) = pre @ frame r @ rest" and "h_offset h = length pre"
  shows "take 4 (drop (h_offset h) (contents w (h_inode h))) = be_bytes 4 (length (snd r) + 1)"
    and "min 4 (unread h w) = 4"
  using assms by (simp_all add: frame_def)

lemma torn_cases:
  assumes "torn t"
  obtains "length t < 4"
  | r where "record_fits r" and "take 4 t = be_bytes 4 (length (snd r) + 1)" and "4 \<le> length t"
    and "length t - 4 < length (snd r) + 1"
proof -
  from assms obtain r where r: "record_fits r" "strict_prefix t (frame r)"
    by (auto simp: torn_def)
  note t = strict_prefix_take [OF r(2)]
  show ?thesis
  proof (cases "length t < 4")
    case False
    have "take 4 t = take 4 (frame r)"
      using t False by (metis min_def not_less take_take)
    then have "take 4 t = be_bytes 4 (length (snd r) + 1)"
      by (simp add: frame_def)
    with r(1) t False length_frame [of r] show ?thesis by (intro that(2)) auto
  qed (rule that(1))
qed

section \<open>Walking the frames\<close>

definition ends_as :: "world \<Rightarrow> (store_error + 'a) \<times> world \<Rightarrow> store_error + 'a \<Rightarrow> bool" where
  "ends_as w res r \<longleftrightarrow> only_calls w (snd res) \<and>
     (fst res = r \<or> fst res = Inl (StoreIo IoFailed) \<and> \<not> fs_healthy w)"

lemma ends_as_healthy: "ends_as w res r \<Longrightarrow> fs_healthy w \<Longrightarrow> \<exists>w'. res = (r, w') \<and> only_calls w w'"
  by (cases res) (auto simp: ends_as_def)

lemma ends_as_fault: "fault w (calls w) \<noteq> None \<Longrightarrow> ends_as w (Inl (StoreIo IoFailed), w\<lparr>calls := Suc (calls w)\<rparr>) r"
  by (auto simp: ends_as_def dest: healthy_now)

lemma ends_as_step: "ends_as w1 res r \<Longrightarrow> only_calls w w1 \<Longrightarrow> ends_as w res r"
  by (auto simp: ends_as_def only_callsD intro: only_calls_trans)

lemma ends_as_here: "only_calls w w' \<Longrightarrow> ends_as w (r, w') r"
  by (simp add: ends_as_def)

lemma ends_as_read:
  assumes "ends_as (w\<lparr>calls := Suc (calls w)\<rparr>) (k (take n (drop (h_offset h) (contents w (h_inode h))))
     (h\<lparr>h_offset := h_offset h + min n (unread h w)\<rparr>) (w\<lparr>calls := Suc (calls w)\<rparr>)) r"
  shows "ends_as w (case fs_read h n w of
      (Inl e, w1) \<Rightarrow> (Inl (StoreIo e), w1) | (Inr (bs, h1), w1) \<Rightarrow> k bs h1 w1) r"
proof (cases "fault w (calls w)")
  case None
  then show ?thesis using ends_as_step [OF assms] by (simp add: fs_read_eq)
qed (simp add: fs_read_eq ends_as_fault)

lemma scan_torn:
  assumes "contents w (h_inode h) = pre @ t" and "h_offset h = length pre" and "torn t"
  shows "ends_as w (scan_loop c n h w) (Inr (c, n))"
  using assms(3)
proof (cases rule: torn_cases)
  case 1
  with assms(1,2) show ?thesis
    by (subst scan_loop.simps) (rule ends_as_read, simp add: ends_as_here)
next
  case (2 r)
  have len: "from_be_bytes (take 4 t) = length (snd r) + 1" "length (snd r) + 1 \<le> max_record_len"
    using frame_length_field [OF 2(1)] 2(1,2) by (simp_all add: record_fits_def)
  show ?thesis
    unfolding scan_loop.simps [of c n h w]
    apply (rule ends_as_read)
    using assms(1,2) 2 len
    apply (simp add: Let_def)
    apply (rule ends_as_read)
    apply (simp add: ends_as_here)
    done
qed

lemma scan_image:
  assumes "contents w (h_inode h) = pre @ frames rs @ t" and "h_offset h = length pre"
    and "\<And>r. r \<in> set rs \<Longrightarrow> record_fits r" and "torn t"
  shows "ends_as w (scan_loop c n h w) (Inr (c + length rs, n + length (frames rs)))"
  using assms
proof (induction rs arbitrary: pre c n h w)
  case Nil
  then show ?case using scan_torn by simp
next
  case (Cons r rs)
  let ?w2 = "w\<lparr>calls := Suc (Suc (calls w))\<rparr>" and ?h2 = "h\<lparr>h_offset := length (pre @ frame r)\<rparr>"
  have fits: "record_fits r" using Cons.prems(3) by simp
  have len: "length (snd r) + 1 \<le> max_record_len" using fits by (simp add: record_fits_def)
  have ih: "ends_as ?w2 (scan_loop (c + 1) (n + 4 + (length (snd r) + 1)) ?h2 ?w2)
      (Inr (c + 1 + length rs, n + 4 + (length (snd r) + 1) + length (frames rs)))"
    by (rule Cons.IH [of _ _ "pre @ frame r"]) (use Cons.prems in auto)
  note fr = read_frame [of w h pre r "frames rs @ t"]
  show ?case
    unfolding scan_loop.simps [of c n h w]
    apply (rule ends_as_read)
    using fr Cons.prems(1,2) frame_length_field [OF fits] len
    apply (simp add: Let_def del: from_be_be)
    apply (rule ends_as_read)
    using ih
    apply (simp add: length_frame ac_simps)
    done
qed

text \<open>Visiting the records is a pure fold over them.\<close>

primrec visit_all ::
  "(nat \<Rightarrow> byte \<Rightarrow> bytes \<Rightarrow> 'a \<Rightarrow> store_error + 'a) \<Rightarrow> nat \<Rightarrow> 'a \<Rightarrow> raw_record list \<Rightarrow> store_error + 'a" where
  "visit_all visit sequence out [] = Inr out"
| "visit_all visit sequence out (r # rs) =
     and_then (visit sequence (fst r) (snd r) out) (\<lambda>out'. visit_all visit (sequence + 1) out' rs)"

lemma visit_torn:
  assumes "contents w (h_inode h) = pre @ t" and "h_offset h = length pre" and "torn t"
  shows "ends_as w (visit_loop visit c n out h w) (Inr out)"
  using assms(3)
proof (cases rule: torn_cases)
  case 1
  with assms(1,2) show ?thesis
    by (subst visit_loop.simps) (rule ends_as_read, simp add: ends_as_here)
next
  case (2 r)
  have len: "from_be_bytes (take 4 t) = length (snd r) + 1" "length (snd r) + 1 \<le> max_record_len"
    using frame_length_field [OF 2(1)] 2(1,2) by (simp_all add: record_fits_def)
  show ?thesis
    unfolding visit_loop.simps [of visit c n out h w]
    apply (rule ends_as_read)
    using assms(1,2) 2 len
    apply (simp add: Let_def)
    apply (rule ends_as_read)
    apply (simp add: ends_as_here)
    done
qed

lemma visit_image:
  assumes "contents w (h_inode h) = pre @ frames rs @ t" and "h_offset h = length pre"
    and "\<And>r. r \<in> set rs \<Longrightarrow> record_fits r" and "torn t"
  shows "ends_as w (visit_loop visit c n out h w) (visit_all visit c out rs)"
  using assms
proof (induction rs arbitrary: pre c n out h w)
  case Nil
  then show ?case using visit_torn by simp
next
  case (Cons r rs)
  let ?w2 = "w\<lparr>calls := Suc (Suc (calls w))\<rparr>" and ?h2 = "h\<lparr>h_offset := length (pre @ frame r)\<rparr>"
  have fits: "record_fits r" using Cons.prems(3) by simp
  have len: "length (snd r) + 1 \<le> max_record_len" using fits by (simp add: record_fits_def)
  have ih: "ends_as ?w2 (visit_loop visit (c + 1) (n + 4 + (length (snd r) + 1)) out' ?h2 ?w2)
      (visit_all visit (c + 1) out' rs)" for out'
    by (rule Cons.IH [of _ _ "pre @ frame r"]) (use Cons.prems in auto)
  note fr = read_frame [of w h pre r "frames rs @ t"]
  show ?case
    unfolding visit_loop.simps [of visit c n out h w]
    apply (rule ends_as_read)
    using fr Cons.prems(1,2) frame_length_field [OF fits] len
    apply (simp add: Let_def del: from_be_be)
    apply (rule ends_as_read)
    using ih
    apply (cases "visit c (fst r) (snd r) out")
    apply (simp_all add: length_frame frame_body ends_as_here ac_simps)
    done
qed

section \<open>Reading the file back\<close>

lemma triple_readI:
  assumes "only_calls w w1" and "\<And>n. calls w \<le> n \<Longrightarrow> P (w\<lparr>calls := n\<rparr>)"
  shows "P w1"
  using assms by (auto simp: only_calls_def)

lemma read_header_image:
  assumes "fs_healthy w" and "contents w i = log_image rs @ t"
  shows "read_header \<lparr>h_inode = i, h_offset = 0\<rparr> w =
     (Inr (header, \<lparr>h_inode = i, h_offset = header_len\<rparr>), w\<lparr>calls := Suc (calls w)\<rparr>)"
  using assms by (simp add: read_header_def bindio_def mapE_def ret_def healthy_simps log_image_def)

lemma for_each_record_image:
  assumes "fs_healthy w" and "dir w p = Some i" and "contents w i = log_image rs @ t"
    and "\<And>r. r \<in> set rs \<Longrightarrow> record_fits r" and "torn t"
  shows "\<exists>w'. for_each_record p visit out w = (visit_all visit 0 out rs, w') \<and> only_calls w w'"
proof -
  let ?w = "w\<lparr>calls := Suc (Suc (calls w))\<rparr>" and ?h = "\<lparr>h_inode = i, h_offset = header_len\<rparr>"
  have "ends_as ?w (visit_loop visit 0 header_len out ?h ?w) (visit_all visit 0 out rs)"
    by (rule visit_image [of _ _ header]) (use assms in \<open>simp_all add: log_image_def\<close>)
  from ends_as_healthy [OF this] assms(1) obtain w' where "visit_loop visit 0 header_len out ?h ?w = (visit_all visit 0 out rs, w')"
    "only_calls ?w w'" by auto
  moreover from this(2) have "only_calls w w'"
    by (rule only_calls_trans [rotated]) simp
  ultimately show ?thesis
    using assms(1-3) read_header_image [of "w\<lparr>calls := Suc (calls w)\<rparr>" i rs t]
    by (simp add: for_each_record_def bindio_def mapE_def healthy_simps)
qed

lemma visit_all_append:
  "visit_all visit n out (rs @ qs) =
     and_then (visit_all visit n out rs) (\<lambda>out'. visit_all visit (n + length rs) out' qs)"
proof (induction rs arbitrary: n out)
  case (Cons r rs)
  then show ?case by (cases "visit n (fst r) (snd r) out") simp_all
qed simp

text \<open>What a list of raw records decodes to.\<close>

definition decoded :: "gcm \<Rightarrow> data_key \<Rightarrow> raw_record list \<Rightarrow> store_error + log_record list" where
  "decoded g key rs = visit_all (collect_record g key) 0 [] rs"

definition plain_of :: "raw_record list \<Rightarrow> bytes list" where
  "plain_of rs = map snd (filter (\<lambda>r. fst r = kind_plain) rs)"

lemma decoded_Nil [simp]: "decoded g key [] = Inr []"
  by (simp add: decoded_def)

lemma decoded_snoc:
  "decoded g key (rs @ [r]) =
     and_then (decoded g key rs) (\<lambda>out. collect_record g key (length rs) (fst r) (snd r) out)"
  by (cases "visit_all (collect_record g key) 0 [] rs";
      cases "collect_record g key (length rs) (fst r) (snd r) (projr (visit_all (collect_record g key) 0 [] rs))")
    (simp_all add: decoded_def visit_all_append)

lemma collect_plain_all: "visit_all collect_plain n out rs = Inr (out @ plain_of rs)"
  by (induction rs arbitrary: n out) (simp_all add: collect_plain_def plain_of_def)

text \<open>A log that is in step with its file.\<close>

definition stored :: "raw_record list \<Rightarrow> log_file \<Rightarrow> world \<Rightarrow> bool" where
  "stored rs lg w \<longleftrightarrow> (\<forall>r\<in>set rs. record_fits r) \<and> \<not> lg_broken lg \<and> lg_count lg = length rs \<and>
     dir w (lg_path lg) = Some (h_inode (lg_file lg)) \<and>
     contents w (h_inode (lg_file lg)) = log_image rs \<and> h_offset (lg_file lg) = length (log_image rs)"

lemma read_records_stored:
  assumes "fs_healthy w" and "stored rs lg w"
  shows "\<exists>w'. read_records g key lg w = (decoded g key rs, w') \<and> only_calls w w'"
  using for_each_record_image [OF assms(1), of "lg_path lg" _ rs "[]" "collect_record g key" "[]"] assms(2)
  by (simp add: read_records_def decoded_def stored_def)

lemma read_plain_stored:
  assumes "fs_healthy w" and "stored rs lg w"
  shows "\<exists>w'. read_plain lg w = (Inr (plain_of rs), w') \<and> only_calls w w'"
  using for_each_record_image [OF assms(1), of "lg_path lg" _ rs "[]" collect_plain "[]"] assms(2)
  by (simp add: read_plain_def stored_def collect_plain_all)

section \<open>Opening\<close>

lemma check_header_image:
  assumes "fs_healthy w" and "contents w i = log_image rs @ t"
  shows "check_header \<lparr>h_inode = i, h_offset = k\<rparr> w = (Inr (), w\<lparr>calls := Suc (Suc (calls w))\<rparr>)"
proof -
  have "header ! (header_len - 1) = format_version" "take (length magic) header = magic"
    by (simp_all add: header_def magic_def header_len_def as_bytes_def)
  with assms read_header_image [of "w\<lparr>calls := Suc (calls w)\<rparr>" i rs t] show ?thesis
    by (simp add: check_header_def bindio_def mapE_def ret_def healthy_simps)
qed

lemma scan_file:
  assumes "fs_healthy w" and "contents w i = log_image rs @ t" and "\<And>r. r \<in> set rs \<Longrightarrow> record_fits r" and "torn t"
  shows "\<exists>w'. scan \<lparr>h_inode = i, h_offset = k\<rparr> w = (Inr (length rs, length (log_image rs)), w') \<and> only_calls w w'"
proof -
  let ?w = "w\<lparr>calls := Suc (calls w)\<rparr>" and ?h = "\<lparr>h_inode = i, h_offset = header_len\<rparr>"
  have "ends_as ?w (scan_loop 0 header_len ?h ?w) (Inr (0 + length rs, header_len + length (frames rs)))"
    by (rule scan_image [of _ _ header]) (use assms in \<open>simp_all add: log_image_def\<close>)
  from ends_as_healthy [OF this] assms(1) obtain w' where "scan_loop 0 header_len ?h ?w = (Inr (length rs, length (log_image rs)), w')"
    "only_calls ?w w'" by (auto simp: log_image_def)
  moreover from this(2) have "only_calls w w'"
    by (rule only_calls_trans [rotated]) simp
  ultimately show ?thesis
    using assms(1) by (simp add: scan_def bindio_def mapE_def healthy_simps)
qed

lemma log_image_nonempty [simp]: "log_image rs \<noteq> []"
  using length_header by (auto simp: log_image_def header_len_def simp del: length_header)

lemma log_open_image:
  assumes "fs_healthy w" and "dir w p = Some i" and "contents w i = log_image rs @ t"
    and "\<And>r. r \<in> set rs \<Longrightarrow> record_fits r" and "torn t"
  shows "\<exists>n. calls w \<le> n \<and> log_open p w =
     (Inr \<lparr>lg_path = p, lg_file = \<lparr>h_inode = i, h_offset = length (log_image rs)\<rparr>, lg_count = length rs,
           lg_broken = False, lg_repaired = (t \<noteq> [])\<rparr>,
      set_contents i (log_image rs) (w\<lparr>calls := n\<rparr>))"
proof -
  let ?h = "\<lparr>h_inode = i, h_offset = 0\<rparr>"
  define w1 where "w1 = w\<lparr>calls := Suc (Suc (Suc (calls w)))\<rparr>"
  have w1: "fs_healthy w1" "contents w1 i = log_image rs @ t" "calls w \<le> calls w1"
    using assms by (simp_all add: w1_def)
  let ?w2 = "w1\<lparr>calls := Suc (Suc (calls w1))\<rparr>"
  obtain m where scan: "scan ?h ?w2 = (Inr (length rs, length (log_image rs)), w1\<lparr>calls := m\<rparr>)"
    and m: "calls w1 \<le> m"
    using scan_file [of ?w2 i rs t 0] w1 assms(4,5) by (fastforce simp: only_calls_def)
  have head: "log_open p w = resume_log p ?h w1"
    using assms(1-3) by (simp add: log_open_def open_private_def bindio_def mapE_def ret_def healthy_simps w1_def)
  have hm: "fs_healthy (w1\<lparr>calls := n\<rparr>)" if "m \<le> n" for n
    using w1 m that by simp
  show ?thesis
  proof (cases "t = []")
    case True
    have "log_open p w = (Inr \<lparr>lg_path = p, lg_file = \<lparr>h_inode = i, h_offset = length (log_image rs)\<rparr>,
        lg_count = length rs, lg_broken = False, lg_repaired = False\<rparr>, w1\<lparr>calls := Suc (Suc m)\<rparr>)"
      unfolding head resume_log_def using True w1 scan check_header_image [OF w1(1,2)]
      by (simp add: bindio_def mapE_def ret_def healthy_simps hm)
    moreover have "w1\<lparr>calls := Suc (Suc m)\<rparr> = set_contents i (log_image rs) (w\<lparr>calls := Suc (Suc m)\<rparr>)"
      using True assms(3) by (auto simp: w1_def set_contents_def intro!: world.equality)
    ultimately show ?thesis using True m w1(3) by (intro exI [of _ "Suc (Suc m)"]) simp
  next
    case False
    let ?n = "Suc (Suc (Suc (Suc m)))"
    have "log_open p w = (Inr \<lparr>lg_path = p, lg_file = \<lparr>h_inode = i, h_offset = length (log_image rs)\<rparr>,
        lg_count = length rs, lg_broken = False, lg_repaired = True\<rparr>,
        (set_contents i (log_image rs) (w1\<lparr>calls := Suc (Suc m)\<rparr>))\<lparr>calls := ?n\<rparr>)"
      unfolding head resume_log_def using False w1 scan check_header_image [OF w1(1,2)]
      by (simp add: bindio_def mapE_def ret_def healthy_simps hm)
    moreover have "(set_contents i (log_image rs) (w1\<lparr>calls := Suc (Suc m)\<rparr>))\<lparr>calls := ?n\<rparr> =
        set_contents i (log_image rs) (w\<lparr>calls := ?n\<rparr>)"
      by (simp add: w1_def set_contents_def)
    ultimately show ?thesis using False m w1(3) by (intro exI [of _ ?n]) simp
  qed
qed

section \<open>Appending\<close>

definition on_disk :: "raw_record list \<Rightarrow> inode \<Rightarrow> world \<Rightarrow> bool" where
  "on_disk rs i w \<longleftrightarrow> (\<forall>r\<in>set rs. record_fits r) \<and> (\<exists>t. torn t \<and> contents w i = log_image rs @ t)"

lemma stored_on_disk: "stored rs lg w \<Longrightarrow> on_disk rs (h_inode (lg_file lg)) w"
  by (auto simp: stored_def on_disk_def intro: exI [of _ "[]"])

lemma torn_take: "record_fits r \<Longrightarrow> k < length (frame r) \<Longrightarrow> torn (take k (frame r))"
proof -
  assume r: "record_fits r" and "k < length (frame r)"
  then have "strict_prefix (take k (frame r)) (frame r)"
    by (auto simp: strict_prefix_def take_is_prefix dest: arg_cong [where f = length])
  with r show ?thesis unfolding torn_def by blast
qed

text \<open>What any prefix of one more frame leaves on disk: the record, or a torn tail.\<close>

lemma on_disk_prefix:
  assumes "\<forall>r\<in>set rs. record_fits r" and "record_fits r" and "contents w i = log_image rs @ take k (frame r)"
  shows "on_disk rs i w \<or> on_disk (rs @ [r]) i w"
proof (cases "k < length (frame r)")
  case True
  with assms(2) have "torn (take k (frame r))" by (rule torn_take)
  with assms show ?thesis unfolding on_disk_def by blast
next
  case False
  with assms show ?thesis
    by (auto simp: on_disk_def log_image_append intro!: exI [of _ "[]"])
qed

text \<open>Every way a write of one record can end.\<close>

lemma write_record_cases:
  assumes "stored rs lg w" and "write_record kind payload lg w = (res, lg', w')"
  obtains (too_large) "\<not> record_fits (kind, payload)" "res = Inl (RecordTooLarge (length payload) max_record_len)"
      "lg' = lg" "w' = w"
  | (ok) "record_fits (kind, payload)" "res = Inr ()" "stored (rs @ [(kind, payload)]) lg' w'" "dir w' = dir w"
      "lg_path lg' = lg_path lg" "h_inode (lg_file lg') = h_inode (lg_file lg)"
  | (broken) k where "record_fits (kind, payload)" "res = Inl (StoreIo IoFailed)" "lg' = lg\<lparr>lg_broken := True\<rparr>"
      "dir w' = dir w" "contents w' (h_inode (lg_file lg)) = log_image rs @ take k (frame (kind, payload))"
proof (cases "record_fits (kind, payload)")
  case False
  with assms show ?thesis
    by (intro too_large) (auto simp: write_record_def stored_def record_fits_def Let_def)
next
  case True
  note s = assms(1) [unfolded stored_def]
  have w0: "contents w (h_inode (lg_file lg)) = log_image rs" "h_offset (lg_file lg) = length (log_image rs)" "\<not> lg_broken lg"
    using s by auto
  have len: "\<not> length payload + 1 > max_record_len" using True by (simp add: record_fits_def)
  have fr: "be_bytes 4 (length payload + 1) @ kind # payload = frame (kind, payload)" by (simp add: frame_def)
  note run = assms(2) [unfolded write_record_def Let_def if_not_P [OF w0(3)] if_not_P [OF len] fr]
  show ?thesis
  proof (cases "fault w (calls w)")
    case (Some k)
    with run w0 True show ?thesis
      by (intro broken [of k]) (auto simp: bindio_def fs_write_all_def next_fault_def write_at_end)
  next
    case written: None
    show ?thesis
    proof (cases "fault w (Suc (calls w))")
      case (Some k)
      with run w0 written True show ?thesis
        by (intro broken [of "length (frame (kind, payload))"])
          (auto simp: bindio_def fs_write_all_def fs_sync_def next_fault_def write_at_end)
    next
      case None
      with run w0 written True s show ?thesis
        by (intro ok) (auto simp: bindio_def fs_write_all_def fs_sync_def next_fault_def write_at_end ret_def
            stored_def log_image_append)
    qed
  qed
qed

lemma write_record_healthy:
  "stored rs lg w \<Longrightarrow> fs_healthy w \<Longrightarrow> record_fits (kind, payload) \<Longrightarrow> fst (write_record kind payload lg w) = Inr ()"
  by (simp add: write_record_def Let_def stored_def record_fits_def bindio_def ret_def healthy_simps split: prod.splits sum.splits)

text \<open>Appends leave every other file alone, whatever happens.\<close>

lemma write_record_frame:
  assumes "write_record kind payload lg w = (res, lg', w')"
  shows "dir w' = dir w \<and> next_inode w' = next_inode w \<and> lg_path lg' = lg_path lg \<and>
     h_inode (lg_file lg') = h_inode (lg_file lg) \<and> (\<forall>i. i \<noteq> h_inode (lg_file lg) \<longrightarrow> contents w' i = contents w i)"
  using assms
  by (auto simp: write_record_def Let_def bindio_def fs_write_all_def fs_sync_def next_fault_def ret_def
      split: if_splits option.splits)

lemma seal_record_world: "seal_record g key n p w = (r, w') \<Longrightarrow> \<exists>d. w' = w\<lparr>draws := d\<rparr>"
  using aead_seal_worldD [of g key p "record_context n" w]
  by (auto simp: seal_record_def bindio_def mapE_def ret_def split: prod.splits sum.splits if_splits)
    (metis world.unfold_congs(2) world.surjective world.update_convs(2))+

lemma stored_draws [simp]: "stored rs lg (w\<lparr>draws := d\<rparr>) = stored rs lg w"
  by (simp add: stored_def)

lemma open_seal_record:
  assumes "gcm_ok g" and "key_ok key" and "seal_record g key n payload w = (Inr body, w')"
  shows "open_record g key n body = Inr payload"
proof -
  obtain env where env: "aead_seal g key payload (record_context n) w = (Inr env, w')"
    and body: "body = env_nonce env @ env_ciphertext env"
    using assms(3) by (auto simp: seal_record_def bindio_eq_Inr mapE_eq_Inr ret_apply)
  note opened = aead_open_seal [OF assms(1,2) env] and len = aead_seal_Inr(2) [OF env]
  show ?thesis
    using opened len by (cases env) (simp add: open_record_def body)
qed

text \<open>Every way a sealed append can end.\<close>

lemma log_append_cases:
  assumes "gcm_ok g" and "key_ok key" and "stored rs lg w" and "decoded g key rs = Inr out"
    and "log_append g key payload lg w = (res, lg', w')"
  obtains (refused) e where "res = Inl e" "lg' = lg" "dir w' = dir w" "contents w' = contents w" "stored rs lg w'"
  | (ok) r where "res = Inr ()" "stored (rs @ [r]) lg' w'" "dir w' = dir w" "lg_path lg' = lg_path lg"
      "h_inode (lg_file lg') = h_inode (lg_file lg)"
      "decoded g key (rs @ [r]) = Inr (out @ [\<lparr>lr_sealed = True, lr_payload = payload\<rparr>])"
  | (broken) r k where "res = Inl (StoreIo IoFailed)" "lg' = lg\<lparr>lg_broken := True\<rparr>" "dir w' = dir w" "record_fits r"
      "contents w' (h_inode (lg_file lg)) = log_image rs @ take k (frame r)"
      "decoded g key (rs @ [r]) = Inr (out @ [\<lparr>lr_sealed = True, lr_payload = payload\<rparr>])"
proof (cases "length payload > max_record_len")
  case True
  with assms show ?thesis by (intro refused) (auto simp: log_append_def)
next
  case fits: False
  obtain r1 w1 where seal: "seal_record g key (lg_count lg) payload w = (r1, w1)" by fastforce
  from seal_record_world [OF seal] obtain d where w1: "w1 = w\<lparr>draws := d\<rparr>" by blast
  show ?thesis
  proof (cases r1)
    case (Inl e)
    with assms fits seal w1 show ?thesis by (intro refused) (auto simp: log_append_def)
  next
    case (Inr body)
    have dec: "decoded g key (rs @ [(kind_sealed, body)]) = Inr (out @ [\<lparr>lr_sealed = True, lr_payload = payload\<rparr>])"
      using open_seal_record [OF assms(1,2) seal [unfolded Inr]] assms(3,4)
      by (simp add: decoded_snoc collect_record_def kind_sealed_def kind_plain_def stored_def)
    have st: "stored rs lg w1" using assms(3) w1 by simp
    have "write_record kind_sealed body lg w1 = (res, lg', w')"
      using assms(5) fits seal Inr by (simp add: log_append_def)
    with st show ?thesis
    proof (cases rule: write_record_cases)
      case too_large
      with w1 st show ?thesis by (intro refused) simp_all
    next
      case ok
      with w1 dec show ?thesis by (intro that(2)) simp_all
    next
      case (broken k)
      with w1 dec show ?thesis by (intro that(3)) simp_all
    qed
  qed
qed

section \<open>Opening in any world\<close>

text \<open>
  Opening an existing log, whatever fails: the records on disk stay, and a log that was opened is in
  step with them, as long as the file could be looked at.
\<close>

definition intact :: "path \<Rightarrow> inode \<Rightarrow> raw_record list \<Rightarrow> bytes \<Rightarrow> world \<Rightarrow> bool" where
  "intact p i rs t w \<longleftrightarrow> dir w p = Some i \<and> contents w i = log_image rs @ t"

definition kept :: "path \<Rightarrow> inode \<Rightarrow> raw_record list \<Rightarrow> bytes \<Rightarrow> world \<Rightarrow> bool" where
  "kept p i rs t w \<longleftrightarrow>
     dir w p = Some i \<and> (contents w i = log_image rs @ t \<or> contents w i = log_image rs)"

lemma intact_kept: "intact p i rs t w \<Longrightarrow> kept p i rs t w"
  by (simp add: intact_def kept_def)

lemma intact_only_calls: "intact p i rs t w \<Longrightarrow> only_calls w w' \<Longrightarrow> intact p i rs t w'"
  by (simp add: intact_def only_callsD)

lemma triple_pure: "(Q \<Longrightarrow> triple P m R E) \<Longrightarrow> triple (\<lambda>w. P w \<and> Q) m R E"
  by (auto simp: triple_def)

lemma triple_reading:
  assumes "\<And>w. only_calls w (snd (m w))" and "\<And>w x w'. intact p i rs t w \<Longrightarrow> m w = (Inr x, w') \<Longrightarrow> Q x"
  shows "triple (intact p i rs t) m (\<lambda>x w. intact p i rs t w \<and> Q x) (\<lambda>_. kept p i rs t)"
proof (rule tripleI)
  fix w r w' assume a: "intact p i rs t w" "m w = (r, w')"
  have "intact p i rs t w'"
    using intact_only_calls [OF a(1)] assms(1) [of w] a(2) by simp
  with assms(2) [OF a(1)] a(2) show "case r of Inr x \<Rightarrow> intact p i rs t w' \<and> Q x | Inl e \<Rightarrow> kept p i rs t w'"
    by (auto simp: intact_kept split: sum.splits)
qed

lemma reading_only_calls:
  "only_calls w (snd (fs_len h w))" "only_calls w (snd (fs_seek n h w))" "only_calls w (snd (fs_read h n w))"
  "only_calls w (snd (fs_sync h w))" "only_calls w (snd (fs_seek_end h w))" "only_calls w (snd (fs_open_read p w))"
  by (auto simp: fs_len_def fs_seek_def fs_read_def fs_sync_def fs_seek_end_def fs_open_read_def next_fault_def Let_def
      split: option.splits)

lemma only_calls_bindio:
  "(\<And>w. only_calls w (snd (m w))) \<Longrightarrow> (\<And>x w. only_calls w (snd (f x w))) \<Longrightarrow> only_calls w (snd (bindio m f w))"
  by (auto simp: bindio_def split: prod.splits sum.splits) (metis only_calls_trans snd_conv)+

lemma only_calls_mapE: "(\<And>w. only_calls w (snd (m w))) \<Longrightarrow> only_calls w (snd (mapE h m w))"
  by (auto simp: mapE_def split: prod.splits) (metis snd_conv)

lemma only_calls_leaf: "only_calls w (snd (ret x w))" "only_calls w (snd (fail e w))"
  by (simp_all add: ret_def fail_def)

lemma check_header_only_calls: "only_calls w (snd (check_header h w))"
  unfolding check_header_def read_header_def
  by (intro only_calls_bindio only_calls_mapE reading_only_calls)
    (auto simp: only_calls_leaf intro!: only_calls_bindio only_calls_mapE reading_only_calls split: prod.splits)

lemma scan_loop_only_calls: "only_calls w (snd (scan_loop c n h w))"
proof (induction c n h w rule: scan_loop.induct)
  case (1 c n h w)
  show ?case
  proof (cases "fst (fs_read h 4 w)")
    case (Inl e)
    then show ?thesis
      using reading_only_calls(3) [of w h 4] by (subst scan_loop.simps) (auto split: prod.splits)
  next
    case (Inr x)
    then obtain lb h1 w1 where r1: "fs_read h 4 w = (Inr (lb, h1), w1)" by (metis prod.collapse)
    then have oc1: "only_calls w w1" using reading_only_calls(3) [of w h 4] by simp
    obtain r2 w2 where r2: "fs_read h1 (from_be_bytes lb) w1 = (r2, w2)" by fastforce
    then have oc2: "only_calls w w2"
      using only_calls_trans [OF oc1] reading_only_calls(3) [of w1 h1 "from_be_bytes lb"] by simp
    show ?thesis
      using r1 r2 oc1 oc2 "1" [OF r1 [symmetric] refl refl _ refl _ _ r2 [symmetric]]
      by (subst scan_loop.simps) (auto simp: Let_def split: sum.splits intro: only_calls_trans)
  qed
qed

lemma scan_intact:
  assumes "\<And>r. r \<in> set rs \<Longrightarrow> record_fits r" and "torn t"
  shows "triple (intact p i rs t) (scan \<lparr>h_inode = i, h_offset = k\<rparr>)
     (\<lambda>x w. intact p i rs t w \<and> x = (length rs, length (log_image rs))) (\<lambda>_. kept p i rs t)"
proof (rule triple_reading)
  show "only_calls w (snd (scan \<lparr>h_inode = i, h_offset = k\<rparr> w))" for w
    unfolding scan_def by (intro only_calls_bindio only_calls_mapE reading_only_calls scan_loop_only_calls)
next
  fix w x w' assume w: "intact p i rs t w" "scan \<lparr>h_inode = i, h_offset = k\<rparr> w = (Inr x, w')"
  then obtain w1 where w1: "only_calls w w1" "scan_loop 0 header_len \<lparr>h_inode = i, h_offset = header_len\<rparr> w1 = (Inr x, w')"
    by (intro that [of "w\<lparr>calls := Suc (calls w)\<rparr>"]) (auto simp: scan_def bindio_eq_Inr mapE_eq_Inr fs_seek_def next_fault_def split: option.splits)
  have "contents w1 i = log_image rs @ t"
    using w(1) only_callsD(1) [OF w1(1)] by (simp add: intact_def)
  then have "ends_as w1 (scan_loop 0 header_len \<lparr>h_inode = i, h_offset = header_len\<rparr> w1)
      (Inr (0 + length rs, header_len + length (frames rs)))"
    by (intro scan_image [of _ _ header]) (use assms in \<open>simp_all add: log_image_def\<close>)
  with w1(2) show "x = (length rs, length (log_image rs))"
    by (simp add: ends_as_def log_image_def)
qed

lemma log_open_any:
  assumes "\<And>r. r \<in> set rs \<Longrightarrow> record_fits r" and "torn t"
  shows "triple (\<lambda>w. intact p i rs t w \<and> fault w (calls w) = None) (log_open p)
     (\<lambda>lg w. stored rs lg w \<and> lg_path lg = p \<and> h_inode (lg_file lg) = i) (\<lambda>_. kept p i rs t)"
proof -
  let ?h = "\<lparr>h_inode = i, h_offset = 0\<rparr>" and ?A = "intact p i rs t" and ?K = "\<lambda>_. kept p i rs t"
  let ?B = "\<lambda>w. dir w p = Some i \<and> contents w i = log_image rs"
  have create: "triple ?A (open_private p) (\<lambda>h w. ?A w \<and> h = ?h) ?K"
    unfolding open_private_def
    by (rule triple_mapE, rule tripleI)
      (auto simp: fs_open_create_def next_fault_def intact_def kept_def split: option.splits)
  have len: "triple ?A (mapE StoreIo (fs_len ?h)) (\<lambda>n w. ?A w \<and> n = length (log_image rs @ t)) ?K"
    by (rule triple_mapE, rule triple_reading)
      (auto simp: reading_only_calls fs_len_def next_fault_def intact_def split: option.splits)
  have chk: "triple ?A (check_header ?h) (\<lambda>_ w. ?A w \<and> True) ?K"
    by (rule triple_reading) (simp_all add: check_header_only_calls)
  have scn: "triple ?A (scan ?h) (\<lambda>x w. ?A w \<and> x = (length rs, length (log_image rs))) ?K"
    by (rule scan_intact) (use assms in auto)
  have fix_tail: "triple ?A (if length (log_image rs @ t) \<noteq> length (log_image rs)
      then bindio (mapE StoreIo (fs_set_len ?h (length (log_image rs)))) (\<lambda>_. mapE StoreIo (fs_sync ?h))
      else ret ()) (\<lambda>_. ?B) ?K"
    by (auto simp: intact_def kept_def bindio_def mapE_def ret_def fs_set_len_def fs_sync_def next_fault_def Let_def
        intro!: tripleI split: option.splits if_splits sum.splits)
  have seek: "triple ?B (mapE StoreIo (fs_seek_end ?h))
      (\<lambda>h w. ?B w \<and> h = \<lparr>h_inode = i, h_offset = length (log_image rs)\<rparr>) ?K"
    by (rule triple_mapE, rule tripleI)
      (auto simp: fs_seek_end_def next_fault_def kept_def split: option.splits)
  have final: "triple (\<lambda>w. ?B w \<and> h = \<lparr>h_inode = i, h_offset = length (log_image rs)\<rparr>)
      (ret \<lparr>lg_path = p, lg_file = h, lg_count = length rs, lg_broken = False, lg_repaired = b\<rparr>)
      (\<lambda>lg w. stored rs lg w \<and> lg_path lg = p \<and> h_inode (lg_file lg) = i) ?K" for h b
    by (rule triple_ret) (use assms(1) in \<open>simp add: stored_def\<close>)
  have rest: "triple ?A (resume_log p ?h)
      (\<lambda>lg w. stored rs lg w \<and> lg_path lg = p \<and> h_inode (lg_file lg) = i) ?K"
    unfolding resume_log_def
    apply (rule triple_bind [OF chk], simp)
    apply (rule triple_bind [OF scn])
    apply (rule triple_pure, hypsubst, unfold prod.case)
    apply (rule triple_bind [OF len])
    apply (rule triple_pure, hypsubst, unfold Let_def)
    apply (rule triple_bind [OF fix_tail])
    apply (rule triple_bind [OF seek])
    apply (rule final)
    done
  let ?body = "\<lambda>file. bindio (bindio (mapE StoreIo (fs_len file)) (\<lambda>n. ret (n = 0))) (\<lambda>empty.
      if empty then start_log p file else resume_log p file)"
  have "triple ?A (bindio (open_private p) ?body)
      (\<lambda>lg w. stored rs lg w \<and> lg_path lg = p \<and> h_inode (lg_file lg) = i) ?K"
    apply (rule triple_bind [OF create])
    apply (rule triple_pure)
    apply hypsubst
    apply (rule triple_bind [where R = "\<lambda>e w. ?A w \<and> \<not> e"])
     apply (rule triple_bind [OF len])
     apply (rule triple_ret, simp)
    apply (rule triple_pure, simp only: if_False)
    apply (rule rest)
    done
  then show ?thesis
    by (auto simp: triple_def log_open_def fs_exists_def next_fault_def intact_def
        split: prod.splits sum.splits dest!: spec [of _ "_\<lparr>calls := _\<rparr>"])
qed

lemma write_header_again: "write_at 0 (take k header) (log_image rs @ t) = log_image rs @ t"
proof -
  have "take k header @ drop (length (take k header)) (header @ xs) = header @ xs" for xs
    by (cases "k \<le> length header") (simp_all add: append_assoc [symmetric] del: append_assoc)
  from this [of "frames rs @ t"] show ?thesis by (simp add: write_at_def log_image_def)
qed

text \<open>
  Opening keeps the records, wherever it fails and whatever it answers; this includes an open to which
  the file looked absent, because what it writes is the header that is there.
\<close>

lemma log_open_keeps:
  assumes "\<And>r. r \<in> set rs \<Longrightarrow> record_fits r" and "torn t" and "intact p i rs t w" and "log_open p w = (r, w')"
  shows "kept p i rs t w' \<and> (\<forall>lg. r = Inr lg \<longrightarrow> lg_path lg = p)"
proof (cases "fault w (calls w)")
  case None
  with assms(3) have w: "intact p i rs t w \<and> fault w (calls w) = None" by simp
  note any = log_open_any [OF assms(1,2), where p = p and i = i]
  show ?thesis
  proof (cases r)
    case (Inl e)
    with triple_Inl [OF any w] assms(4) show ?thesis by simp
  next
    case (Inr lg)
    with triple_Inr [OF any w] assms(4) show ?thesis by (auto simp: stored_def kept_def)
  qed
next
  case (Some n)
  have "magic @ [0, format_version] = header" by (simp add: header_def)
  with Some assms(3,4) write_header_again [of _ rs t] write_header_again [of "length header" rs t] show ?thesis
    by (auto simp: log_open_def start_log_def fs_exists_def open_private_def fs_open_create_def fs_write_all_def
        fs_sync_def bindio_def mapE_def ret_def next_fault_def set_contents_def intact_def kept_def
        split: option.splits if_splits)
qed

lemma log_open_new:
  assumes "dir w p = None" and "log_open p w = (r, w')"
  shows "(\<forall>q. q \<noteq> p \<longrightarrow> dir w' q = dir w q) \<and> (\<forall>j. j \<noteq> next_inode w \<longrightarrow> contents w' j = contents w j) \<and>
     (\<forall>lg. r = Inr lg \<longrightarrow> stored [] lg w' \<and> lg_path lg = p \<and> h_inode (lg_file lg) = next_inode w)"
proof -
  have "write_at 0 (magic @ [0, format_version]) [] = log_image []"
    by (simp add: write_at_def log_image_def header_def)
  moreover have "length (magic @ [0, format_version]) = length (log_image [])"
    by (simp add: log_image_def header_def)
  ultimately show ?thesis
    using assms
    by (auto simp: log_open_def start_log_def fs_exists_def open_private_def fs_open_create_def fs_write_all_def
        fs_sync_def bindio_def mapE_def ret_def next_fault_def set_contents_def stored_def
        split: option.splits if_splits)
qed

end
