(* ===== verification/Log_Machine.thy ===== *)
theory Log_Machine
  imports Log_Safety
begin

text \<open>
  The log over time: a machine that opens, appends and crashes in a world where any file operation
  may fail, compaction, and the properties of the store's file.
\<close>

section \<open>A log in use\<close>

text \<open>
  A machine that opens, appends and crashes, in a world where any file operation may fail. It keeps
  the log it holds in memory (none after a crash), the world, and the payloads whose append returned
  success, oldest first.
\<close>

datatype log_machine = Machine (lm_log: "log_file option") (lm_world: world) (lm_acked: "bytes list")

inductive log_step :: "gcm \<Rightarrow> data_key \<Rightarrow> path \<Rightarrow> log_machine \<Rightarrow> log_machine \<Rightarrow> bool"
  for g key p where
  reopen: "log_open p w = (r, w') \<Longrightarrow>
     log_step g key p (Machine None w acked)
       (Machine (case r of Inr lg \<Rightarrow> Some lg | Inl _ \<Rightarrow> None) w' acked)"
| append: "log_append g key payload lg w = (r, lg', w') \<Longrightarrow>
     log_step g key p (Machine (Some lg) w acked)
       (Machine (Some lg') w' (case r of Inr _ \<Rightarrow> acked @ [payload] | Inl _ \<Rightarrow> acked))"
| crash: "log_step g key p (Machine (Some lg) w acked) (Machine None w acked)"

inductive_cases log_step_cases: "log_step g key p m m'"

text \<open>
  The one step after which the file need not be what was acknowledged: a reopening that goes through
  although \<open>exists()\<close>, its first file operation, could not look at the file and so answered that there is
  none.
\<close>

definition blind_reopening :: "log_machine \<Rightarrow> log_machine \<Rightarrow> bool" where
  "blind_reopening m m' \<longleftrightarrow> lm_log m = None \<and> lm_log m' \<noteq> None \<and> fault (lm_world m) (calls (lm_world m)) \<noteq> None"

abbreviation sighted_step :: "gcm \<Rightarrow> data_key \<Rightarrow> path \<Rightarrow> log_machine \<Rightarrow> log_machine \<Rightarrow> bool" where
  "sighted_step g key p m m' \<equiv> log_step g key p m m' \<and> \<not> blind_reopening m m'"

definition log_inv :: "gcm \<Rightarrow> data_key \<Rightarrow> path \<Rightarrow> log_machine \<Rightarrow> bool" where
  "log_inv g key p m \<longleftrightarrow> (\<exists>rs i out. dir (lm_world m) p = Some i \<and> on_disk rs i (lm_world m) \<and>
     decoded g key rs = Inr out \<and> subseq (lm_acked m) (map lr_payload out) \<and>
     (\<forall>lg. lm_log m = Some lg \<longrightarrow> lg_path lg = p \<and> (\<not> lg_broken lg \<longrightarrow> stored rs lg (lm_world m))))"

lemma log_invI:
  assumes "dir w p = Some i" and "on_disk rs i w" and "decoded g key rs = Inr out"
    and "subseq acked (map lr_payload out)"
    and "\<And>lg. l = Some lg \<Longrightarrow> lg_path lg = p \<and> (\<not> lg_broken lg \<longrightarrow> stored rs lg w)"
  shows "log_inv g key p (Machine l w acked)"
  unfolding log_inv_def using assms by auto

lemma subseq_snoc: "subseq xs ys \<Longrightarrow> subseq xs (ys @ [y])" "subseq xs ys \<Longrightarrow> subseq (xs @ [y]) (ys @ [y])"
  by (auto intro: subseq_rev_drop_many list_emb_append_mono)

lemma broken_append [simp]: "lg_broken lg \<Longrightarrow> log_append g key payload lg w = (r, lg', w') \<Longrightarrow>
    (\<exists>e. r = Inl e) \<and> lg' = lg \<and> dir w' = dir w \<and> contents w' = contents w"
  by (auto simp: log_append_def write_record_def dest!: seal_record_world split: if_splits prod.splits sum.splits)

lemma log_reopen_inv:
  assumes "log_open p w = (r, w')" and "\<forall>lg. r = Inr lg \<longrightarrow> fault w (calls w) = None"
    and "log_inv g key p (Machine None w acked)"
  shows "log_inv g key p (Machine (case r of Inr lg \<Rightarrow> Some lg | Inl _ \<Rightarrow> None) w' acked)"
proof -
  from assms(3) obtain rs i out where inv: "dir w p = Some i" "on_disk rs i w" "decoded g key rs = Inr out"
    "subseq acked (map lr_payload out)" by (auto simp: log_inv_def)
  then obtain t where t: "torn t" "contents w i = log_image rs @ t" and fits: "\<And>r. r \<in> set rs \<Longrightarrow> record_fits r"
    by (auto simp: on_disk_def)
  note open_t = log_open_any [where p = p and i = i, OF fits t(1)]
  have w: "intact p i rs t w" using inv(1) t(2) by (simp add: intact_def)
  show ?thesis
  proof (cases r)
    case (Inl e)
    with log_open_keeps [OF fits t(1) w] assms(1) have "kept p i rs t w'" by simp
    with t fits have "dir w' p = Some i" "on_disk rs i w'"
      by (auto simp: kept_def on_disk_def intro: exI [of _ "[]"])
    with inv Inl show ?thesis by (auto intro!: log_invI)
  next
    case (Inr lg)
    with triple_Inr [OF open_t conjI [OF w]] assms(1,2) have "stored rs lg w'" "lg_path lg = p" by simp_all
    moreover from this have "dir w' p = Some (h_inode (lg_file lg))" by (simp add: stored_def)
    ultimately show ?thesis
      using inv(3,4) Inr by (auto intro!: log_invI stored_on_disk)
  qed
qed

lemma log_append_inv:
  assumes "gcm_ok g" and "key_ok key" and "log_append g key payload lg w = (r, lg', w')"
    and "log_inv g key p (Machine (Some lg) w acked)"
  shows "log_inv g key p (Machine (Some lg') w' (case r of Inr _ \<Rightarrow> acked @ [payload] | Inl _ \<Rightarrow> acked))"
proof -
  from assms(4) obtain rs i out where inv: "dir w p = Some i" "on_disk rs i w" "decoded g key rs = Inr out"
    "subseq acked (map lr_payload out)" "lg_path lg = p" "\<not> lg_broken lg \<longrightarrow> stored rs lg w"
    by (auto simp: log_inv_def)
  show ?thesis
  proof (cases "lg_broken lg")
    case True
    with broken_append [OF True assms(3)] inv show ?thesis by (auto intro!: log_invI [of _ _ i rs _ _ out] simp: on_disk_def)
  next
    case False
    then have st: "stored rs lg w" using inv(6) by simp
    then have i: "h_inode (lg_file lg) = i" using inv(1,5) by (simp add: stored_def)
    from assms(1,2) st inv(3) assms(3) show ?thesis
    proof (cases rule: log_append_cases)
      case (refused e)
      with inv show ?thesis
        by (auto intro!: log_invI [of _ _ i rs _ _ out] simp: on_disk_def)
    next
      case (ok q)
      with inv i show ?thesis
        using stored_on_disk [OF ok(2)]
        by (auto intro!: log_invI [of _ _ i "rs @ [q]"] subseq_snoc)
    next
      case (broken q k)
      have disk: "on_disk rs i w' \<or> on_disk (rs @ [q]) i w'"
        by (rule on_disk_prefix [of _ _ _ _ k]) (use broken i inv(2) in \<open>auto simp: on_disk_def\<close>)
      then show ?thesis
      proof
        assume "on_disk rs i w'"
        with inv broken show ?thesis by (auto intro!: log_invI [of _ _ i rs])
      next
        assume "on_disk (rs @ [q]) i w'"
        with inv broken show ?thesis
          by (auto intro!: log_invI [of _ _ i "rs @ [q]"] subseq_snoc)
      qed
    qed
  qed
qed

lemma log_step_inv:
  assumes "gcm_ok g" and "key_ok key" and "log_step g key p m m'" and "\<not> blind_reopening m m'" and "log_inv g key p m"
  shows "log_inv g key p m'"
  using assms(3)
proof cases
  case (reopen w r w' acked)
  with assms(4,5) log_reopen_inv [OF reopen(3)] show ?thesis by (cases r) (auto simp: blind_reopening_def)
next
  case append
  with log_append_inv [OF assms(1,2)] assms(5) show ?thesis by simp
next
  case crash
  with assms(5) show ?thesis by (auto simp: log_inv_def)
qed

section \<open>Appending many records\<close>

definition same_else :: "log_file \<Rightarrow> world \<Rightarrow> log_file \<Rightarrow> world \<Rightarrow> bool" where
  "same_else lg w lg' w' \<longleftrightarrow> dir w' = dir w \<and> next_inode w' = next_inode w \<and> lg_path lg' = lg_path lg \<and>
     h_inode (lg_file lg') = h_inode (lg_file lg) \<and> (\<forall>j. j \<noteq> h_inode (lg_file lg) \<longrightarrow> contents w' j = contents w j)"

definition beside :: "path \<Rightarrow> world \<Rightarrow> world \<Rightarrow> bool" where
  "beside tmp w w' \<longleftrightarrow> (\<forall>q. q \<noteq> tmp \<longrightarrow> dir w' q = dir w q) \<and> (\<forall>j. j \<noteq> next_inode w \<longrightarrow> contents w' j = contents w j)"

text \<open>A log built beside the others: in its own new file, and holding the records \<open>out\<close>.\<close>

definition fresh_log :: "path \<Rightarrow> world \<Rightarrow> log_file \<Rightarrow> world \<Rightarrow> bool" where
  "fresh_log tmp w0 lg w \<longleftrightarrow> beside tmp w0 w \<and> dir w tmp = Some (h_inode (lg_file lg)) \<and>
     h_inode (lg_file lg) = next_inode w0 \<and> lg_path lg = tmp"

definition holds_records :: "gcm \<Rightarrow> data_key \<Rightarrow> log_record list \<Rightarrow> log_file \<Rightarrow> world \<Rightarrow> bool" where
  "holds_records g key out lg w \<longleftrightarrow>
     (gcm_ok g \<longrightarrow> key_ok key \<longrightarrow> (\<exists>rs. stored rs lg w \<and> decoded g key rs = Inr out))"

lemma fresh_log_same_else: "fresh_log tmp w0 lg w \<Longrightarrow> same_else lg w lg' w' \<Longrightarrow> fresh_log tmp w0 lg' w'"
  by (simp add: fresh_log_def beside_def same_else_def)

lemma run_log_cases:
  "run_log op lg w = (Inl e, w') \<Longrightarrow> \<exists>lg'. op lg w = (Inl e, lg', w')"
  "run_log op lg w = (Inr lg', w') \<Longrightarrow> op lg w = (Inr (), lg', w')"
  by (auto simp: run_log_def split: prod.splits sum.splits)

text \<open>
  The contract of an operation that appends one record: it touches its own file only, and when it
  succeeds the log holds one record more, which decodes to what \<open>made\<close> says.
\<close>

locale appender =
  fixes app :: "gcm \<Rightarrow> data_key \<Rightarrow> bytes \<Rightarrow> unit log_op"
    and made :: "bytes \<Rightarrow> log_record"
  assumes touches: "app g key b lg w = (r, lg', w') \<Longrightarrow> same_else lg w lg' w'"
    and adds: "gcm_ok g \<Longrightarrow> key_ok key \<Longrightarrow> stored rs lg w \<Longrightarrow> decoded g key rs = Inr out \<Longrightarrow>
      app g key b lg w = (Inr (), lg', w') \<Longrightarrow>
      \<exists>q. stored (rs @ [q]) lg' w' \<and> decoded g key (rs @ [q]) = Inr (out @ [made b])"
begin

lemma each_touches: "append_each (app g key) bs lg w = (r, lg', w') \<Longrightarrow> same_else lg w lg' w'"
proof (induction bs arbitrary: lg w)
  case Nil
  then show ?case by (simp add: same_else_def)
next
  case (Cons b bs)
  obtain r1 lg1 w1 where one: "app g key b lg w = (r1, lg1, w1)" by (metis prod_cases3)
  note t = touches [OF one]
  show ?case
  proof (cases r1)
    case (Inl e)
    with Cons.prems one t show ?thesis by simp
  next
    case (Inr u)
    with Cons.prems one have "append_each (app g key) bs lg1 w1 = (r, lg', w')" by simp
    from Cons.IH [OF this] t show ?thesis by (simp add: same_else_def)
  qed
qed

lemma each_adds:
  assumes "gcm_ok g" and "key_ok key"
  shows "stored rs lg w \<Longrightarrow> decoded g key rs = Inr out \<Longrightarrow>
    append_each (app g key) bs lg w = (Inr (), lg', w') \<Longrightarrow>
    \<exists>qs. stored (rs @ qs) lg' w' \<and> decoded g key (rs @ qs) = Inr (out @ map made bs)"
proof (induction bs arbitrary: rs out lg w)
  case Nil
  then show ?case by (auto intro: exI [of _ "[]"])
next
  case (Cons b bs)
  then obtain lg1 w1 where one: "app g key b lg w = (Inr (), lg1, w1)"
    and rest: "append_each (app g key) bs lg1 w1 = (Inr (), lg', w')"
    by (auto split: prod.splits sum.splits)
  from adds [OF assms Cons.prems(1,2) one] obtain q where
    q: "stored (rs @ [q]) lg1 w1" "decoded g key (rs @ [q]) = Inr (out @ [made b])" by blast
  from Cons.IH [OF q rest] obtain qs where "stored (rs @ q # qs) lg' w'"
    "decoded g key (rs @ q # qs) = Inr (out @ map made (b # bs))" by auto
  then show ?case by blast
qed

lemma run_each:
  "triple (\<lambda>w. fresh_log tmp w0 lg w \<and> holds_records g key out lg w) (run_log (append_each (app g key) bs) lg)
     (\<lambda>lg w. fresh_log tmp w0 lg w \<and> holds_records g key (out @ map made bs) lg w) (\<lambda>_ w. beside tmp w0 w)"
proof (rule tripleI)
  fix w r w' assume a: "fresh_log tmp w0 lg w \<and> holds_records g key out lg w"
    and run: "run_log (append_each (app g key) bs) lg w = (r, w')"
  show "case r of Inr lg \<Rightarrow> fresh_log tmp w0 lg w' \<and> holds_records g key (out @ map made bs) lg w'
      | Inl e \<Rightarrow> beside tmp w0 w'"
  proof (cases r)
    case (Inl e)
    with run run_log_cases(1) obtain lg' where "append_each (app g key) bs lg w = (Inl e, lg', w')" by blast
    from fresh_log_same_else [OF conjunct1 [OF a] each_touches [OF this]] Inl show ?thesis
      by (simp add: fresh_log_def)
  next
    case (Inr lg')
    with run run_log_cases(2) have run: "append_each (app g key) bs lg w = (Inr (), lg', w')" by simp
    have "holds_records g key (out @ map made bs) lg' w'"
      using a each_adds [OF _ _ _ _ run] unfolding holds_records_def by blast
    with fresh_log_same_else [OF conjunct1 [OF a] each_touches [OF run]] Inr show ?thesis by simp
  qed
qed

end

lemma write_record_same_else: "write_record kind payload lg w = (r, lg', w') \<Longrightarrow> same_else lg w lg' w'"
  using write_record_frame by (simp add: same_else_def)

lemma log_append_same_else: "log_append g key payload lg w = (r, lg', w') \<Longrightarrow> same_else lg w lg' w'"
  by (auto simp: log_append_def same_else_def dest!: seal_record_world write_record_frame
      split: if_splits prod.splits sum.splits)

interpretation plain_appender: appender "\<lambda>_ _. append_plain" "\<lambda>b. \<lparr>lr_sealed = False, lr_payload = b\<rparr>"
proof unfold_locales
  fix g :: gcm and key b lg w r lg' w'
  assume "append_plain b lg w = (r, lg', w')"
  then show "same_else lg w lg' w'" by (simp add: append_plain_def write_record_same_else)
next
  fix g key rs lg w out b lg' w'
  assume st: "stored rs lg w" and dec: "decoded g key rs = Inr out" and "append_plain b lg w = (Inr (), lg', w')"
  then have "write_record kind_plain b lg w = (Inr (), lg', w')" by (simp add: append_plain_def)
  with st have "stored (rs @ [(kind_plain, b)]) lg' w'" by (cases rule: write_record_cases) auto
  moreover have "decoded g key (rs @ [(kind_plain, b)]) = Inr (out @ [\<lparr>lr_sealed = False, lr_payload = b\<rparr>])"
    by (simp add: decoded_snoc dec collect_record_def)
  ultimately show "\<exists>q. stored (rs @ [q]) lg' w' \<and> decoded g key (rs @ [q]) = Inr (out @ [\<lparr>lr_sealed = False, lr_payload = b\<rparr>])"
    by blast
qed

interpretation sealed_appender: appender log_append "\<lambda>b. \<lparr>lr_sealed = True, lr_payload = b\<rparr>"
proof unfold_locales
  fix g key b lg w r lg' w'
  assume "log_append g key b lg w = (r, lg', w')"
  then show "same_else lg w lg' w'" by (rule log_append_same_else)
next
  fix g key rs lg w out b lg' w'
  assume "gcm_ok g" "key_ok key" "stored rs lg w" "decoded g key rs = Inr out"
    and "log_append g key b lg w = (Inr (), lg', w')"
  then show "\<exists>q. stored (rs @ [q]) lg' w' \<and> decoded g key (rs @ [q]) = Inr (out @ [\<lparr>lr_sealed = True, lr_payload = b\<rparr>])"
    by (cases rule: log_append_cases) auto
qed

section \<open>Compacting\<close>

definition inodes_ok :: "world \<Rightarrow> bool" where
  "inodes_ok w \<longleftrightarrow> (\<forall>q i. dir w q = Some i \<longrightarrow> i < next_inode w)"

lemma clear_temporary_cases:
  assumes "clear_temporary p w = (r, w')"
  shows "contents w' = contents w \<and> next_inode w' = next_inode w \<and> (\<forall>q. q \<noteq> p \<longrightarrow> dir w' q = dir w q) \<and>
     (r = Inr () \<longrightarrow> dir w' p = None)"
  using assms
  by (auto simp: clear_temporary_def fs_remove_def next_fault_def split: option.splits)

text \<open>Building the new file touches nothing but the new file, whether it succeeds or not.\<close>

lemma log_open_fresh:
  "triple (\<lambda>w. w = w0 \<and> dir w0 tmp = None) (log_open tmp)
     (\<lambda>lg w. fresh_log tmp w0 lg w \<and> holds_records g key [] lg w) (\<lambda>_ w. beside tmp w0 w)"
proof (rule tripleI)
  fix w r w' assume "w = w0 \<and> dir w0 tmp = None" "log_open tmp w = (r, w')"
  with log_open_new [of w0 tmp r w'] have n: "beside tmp w0 w'"
    "\<And>lg. r = Inr lg \<Longrightarrow> stored [] lg w' \<and> lg_path lg = tmp \<and> h_inode (lg_file lg) = next_inode w0"
    by (simp_all add: beside_def)
  show "case r of Inr lg \<Rightarrow> fresh_log tmp w0 lg w' \<and> holds_records g key [] lg w' | Inl e \<Rightarrow> beside tmp w0 w'"
  proof (cases r)
    case (Inr lg)
    from n(2) [OF this] have st: "stored [] lg w'" "lg_path lg = tmp" "h_inode (lg_file lg) = next_inode w0" by simp_all
    then have "holds_records g key [] lg w'" unfolding holds_records_def using decoded_Nil by blast
    with Inr n(1) st show ?thesis by (simp add: stored_def fresh_log_def)
  qed (simp add: n(1))
qed

lemma fresh_log_beside: "fresh_log tmp w0 lg w \<Longrightarrow> beside tmp w0 w"
  by (simp add: fresh_log_def)

lemma calls_irrelevant [simp]:
  "beside tmp w0 (w\<lparr>calls := n\<rparr>) = beside tmp w0 w"
  "stored rs lg (w\<lparr>calls := n\<rparr>) = stored rs lg w"
  "holds_records g key out lg (w\<lparr>calls := n\<rparr>) = holds_records g key out lg w"
  "fresh_log tmp w0 lg (w\<lparr>calls := n\<rparr>) = fresh_log tmp w0 lg w"
  by (simp_all add: stored_def holds_records_def fresh_log_def beside_def)

lemma sync_fresh:
  "triple (\<lambda>w. fresh_log tmp w0 lg w \<and> holds_records g key out lg w) (mapE StoreIo (fs_sync (lg_file lg)))
     (\<lambda>_ w. fresh_log tmp w0 lg w \<and> holds_records g key out lg w) (\<lambda>_ w. beside tmp w0 w)"
  by (rule triple_mapE, rule tripleI)
    (auto simp: fs_sync_def next_fault_def dest: fresh_log_beside split: option.splits)

definition rebuilt :: "bytes list \<Rightarrow> bytes list \<Rightarrow> log_record list" where
  "rebuilt plain sealed_payloads =
     map (\<lambda>b. \<lparr>lr_sealed = False, lr_payload = b\<rparr>) plain @
     map (\<lambda>b. \<lparr>lr_sealed = True, lr_payload = b\<rparr>) sealed_payloads"

lemma build_fresh_triple:
  "triple (\<lambda>w. w = w0 \<and> dir w0 tmp = None) (build_fresh g key plain sld tmp)
     (\<lambda>lg w. fresh_log tmp w0 lg w \<and> holds_records g key (rebuilt plain sld) lg w) (\<lambda>_ w. beside tmp w0 w)"
  unfolding build_fresh_def rebuilt_def
  by (rule triple_bind [OF log_open_fresh [where g = g and key = key]],
      rule triple_bind [OF plain_appender.run_each],
      rule triple_bind [OF sealed_appender.run_each], rule triple_bind [OF sync_fresh], rule triple_ret) simp

lemma flush_directory_only_calls: "only_calls w (flush_directory w)"
  by (auto simp: flush_directory_def next_fault_def split: option.splits)

lemma stored_only_calls: "only_calls w w' \<Longrightarrow> stored rs lg w \<Longrightarrow> stored rs lg w'"
  by (auto simp: only_calls_def)

lemma stored_renamed:
  "stored rs lg w \<Longrightarrow> contents w' = contents w \<Longrightarrow> dir w' q = Some (h_inode (lg_file lg)) \<Longrightarrow>
   stored rs (lg\<lparr>lg_path := q\<rparr>) w'"
  by (simp add: stored_def)

text \<open>Compacting is all or nothing.\<close>

text \<open>
  The three steps of compaction, next to the log they replace: until the rename the log is there as it
  was, and afterwards it is what was built.
\<close>

abbreviation temporary_of :: "log_file \<Rightarrow> str" where
  "temporary_of lg \<equiv> with_extension ''compacting'' (lg_path lg)"

abbreviation log_untouched :: "log_file \<Rightarrow> nat \<Rightarrow> world \<Rightarrow> world \<Rightarrow> bool" where
  "log_untouched lg i w w' \<equiv> dir w' (lg_path lg) = Some i \<and> contents w' i = contents w i"

abbreviation temporary_cleared :: "log_file \<Rightarrow> world \<Rightarrow> world \<Rightarrow> bool" where
  "temporary_cleared lg w w0 \<equiv> dir w0 (temporary_of lg) = None \<and> beside (temporary_of lg) w w0 \<and> next_inode w0 = next_inode w"

abbreviation fresh_holds :: "gcm \<Rightarrow> data_key \<Rightarrow> bytes list \<Rightarrow> bytes list \<Rightarrow> log_file \<Rightarrow> world \<Rightarrow> log_file \<Rightarrow> world \<Rightarrow> bool" where
  "fresh_holds g key plain sld lg w fresh v \<equiv>
     fresh_log (temporary_of lg) w fresh v \<and> holds_records g key (rebuilt plain sld) fresh v"

abbreviation rebuilt_in_place :: "gcm \<Rightarrow> data_key \<Rightarrow> bytes list \<Rightarrow> bytes list \<Rightarrow> log_file \<Rightarrow> log_file \<Rightarrow> world \<Rightarrow> bool" where
  "rebuilt_in_place g key plain sld lg fresh v \<equiv> gcm_ok g \<longrightarrow> key_ok key \<longrightarrow>
     (\<exists>rs. stored rs (fresh\<lparr>lg_path := lg_path lg\<rparr>) v \<and> decoded g key rs = Inr (rebuilt plain sld))"

lemma compact_clears:
  assumes ok: "inodes_ok w" and tmp: "temporary_of lg \<noteq> lg_path lg"
    and here: "dir w (lg_path lg) = Some i"
  shows "triple (\<lambda>v. v = w) (clear_temporary (temporary_of lg))
    (\<lambda>_. temporary_cleared lg w) (\<lambda>_. log_untouched lg i w)"
proof -
  have "i \<noteq> next_inode w" using ok here by (auto simp: inodes_ok_def)
  then show ?thesis
    by (intro tripleI) (use tmp here in \<open>auto dest!: clear_temporary_cases simp: beside_def split: sum.splits\<close>)
qed

lemma compact_builds:
  assumes ok: "inodes_ok w" and tmp: "temporary_of lg \<noteq> lg_path lg"
    and here: "dir w (lg_path lg) = Some i"
  shows "triple (temporary_cleared lg w) (build_fresh g key plain sld (temporary_of lg))
    (fresh_holds g key plain sld lg w) (\<lambda>_. log_untouched lg i w)"
proof (rule tripleI)
  let ?tmp = "(temporary_of lg)" and ?E = "\<lambda>_. log_untouched lg i w"
  have i: "i \<noteq> next_inode w" using ok here by (auto simp: inodes_ok_def)
  fix v r v' assume v: "temporary_cleared lg w v"
    and b: "build_fresh g key plain sld ?tmp v = (r, v')"
  have near: "beside ?tmp v u \<Longrightarrow> beside ?tmp w u" for u using v by (simp add: beside_def)
  have e: "beside ?tmp w u \<Longrightarrow> ?E e u" for u e using tmp here i by (simp add: beside_def)
  note t = build_fresh_triple [of v ?tmp g key plain sld]
  show "case r of Inr fresh \<Rightarrow> fresh_log ?tmp w fresh v' \<and> holds_records g key (rebuilt plain sld) fresh v'
      | Inl e \<Rightarrow> ?E e v'"
  proof (cases r)
    case (Inl e)
    with triple_Inl [OF t _ b [unfolded Inl]] v near e show ?thesis by simp
  next
    case (Inr fresh)
    with triple_Inr [OF t _ b [unfolded Inr]] v near show ?thesis by (auto simp: fresh_log_def)
  qed
qed

lemma compact_renames:
  assumes ok: "inodes_ok w" and tmp: "temporary_of lg \<noteq> lg_path lg"
    and here: "dir w (lg_path lg) = Some i"
  shows "triple (fresh_holds g key plain sld lg w fresh) (mapE StoreIo (fs_rename (temporary_of lg) (lg_path lg)))
    (\<lambda>_. rebuilt_in_place g key plain sld lg fresh) (\<lambda>_. log_untouched lg i w)"
proof (rule triple_mapE, rule tripleI)
  let ?tmp = "(temporary_of lg)" and ?E = "\<lambda>_. log_untouched lg i w"
  have i: "i \<noteq> next_inode w" using ok here by (auto simp: inodes_ok_def)
  fix v r v' assume v: "fresh_log ?tmp w fresh v \<and> holds_records g key (rebuilt plain sld) fresh v"
    and ren: "fs_rename ?tmp (lg_path lg) v = (r, v')"
  show "case r of Inr _ \<Rightarrow> rebuilt_in_place g key plain sld lg fresh v' | Inl e \<Rightarrow> ?E (StoreIo e) v'"
  proof (cases r)
    case (Inl e)
    with v ren tmp here i show ?thesis
      by (auto simp: fs_rename_def next_fault_def fresh_log_def beside_def split: option.splits)
  next
    case (Inr u)
    with v ren have d: "dir v' (lg_path lg) = Some (h_inode (lg_file fresh))" "contents v' = contents v"
      by (auto simp: fs_rename_def next_fault_def fresh_log_def split: option.splits)
    with v Inr show ?thesis
      using stored_renamed [OF _ d(2,1)] unfolding holds_records_def by auto
  qed
qed

lemma compact_cases:
  assumes ok: "inodes_ok w" and tmp: "temporary_of lg \<noteq> lg_path lg"
    and here: "dir w (lg_path lg) = Some i"
    and run: "compact g key plain sld lg w = (r, lg', w')"
  obtains (failed) e where "r = Inl e" "lg' = lg" "dir w' (lg_path lg) = Some i" "contents w' i = contents w i"
  | (rewritten) rs where "r = Inr ()" "lg_path lg' = lg_path lg"
      "gcm_ok g \<Longrightarrow> key_ok key \<Longrightarrow> stored rs lg' w' \<and> decoded g key rs = Inr (rebuilt plain sld)"
proof -
  let ?run = "bindio (clear_temporary (temporary_of lg)) (\<lambda>_. bindio (build_fresh g key plain sld (temporary_of lg)) (\<lambda>fresh.
      bindio (mapE StoreIo (fs_rename (temporary_of lg) (lg_path lg))) (\<lambda>_. ret fresh)))"
  have all: "triple (\<lambda>v. v = w) ?run (rebuilt_in_place g key plain sld lg) (\<lambda>_. log_untouched lg i w)"
    by (rule triple_bind [OF compact_clears [OF ok tmp here]], rule triple_bind [OF compact_builds [OF ok tmp here]],
        rule triple_bind [OF compact_renames [OF ok tmp here]], rule triple_ret) simp
  obtain r1 w1 where r1: "?run w = (r1, w1)" by fastforce
  show ?thesis
  proof (cases r1)
    case (Inl e)
    with r1 run triple_Inl [OF all refl r1 [unfolded Inl]] show ?thesis
      by (intro failed [of e]) (simp_all add: compact_def Let_def)
  next
    case (Inr fresh)
    with r1 run have out: "r = Inr ()" "w' = flush_directory w1"
      "lg' = lg\<lparr>lg_file := lg_file fresh, lg_count := lg_count fresh, lg_broken := False, lg_repaired := False\<rparr>"
      by (simp_all add: compact_def Let_def)
    have "\<exists>rs. gcm_ok g \<longrightarrow> key_ok key \<longrightarrow> stored rs lg' w' \<and> decoded g key rs = Inr (rebuilt plain sld)"
    proof (cases "gcm_ok g \<and> key_ok key")
      case True
      with triple_Inr [OF all refl r1 [unfolded Inr]] obtain rs where
        st: "stored rs (fresh\<lparr>lg_path := lg_path lg\<rparr>) w1" and dec: "decoded g key rs = Inr (rebuilt plain sld)" by blast
      from stored_only_calls [OF flush_directory_only_calls st] have "stored rs lg' w'"
        by (simp add: out stored_def)
      with dec show ?thesis by blast
    qed blast
    then obtain rs where "gcm_ok g \<longrightarrow> key_ok key \<longrightarrow> stored rs lg' w' \<and> decoded g key rs = Inr (rebuilt plain sld)" ..
    then show ?thesis using out by (intro rewritten) simp_all
  qed
qed

section \<open>A record is bound to its place\<close>

lemma record_context_inj:
  assumes "record_context i = record_context j" and "i < 2 ^ 64" and "j < 2 ^ 64"
  shows "i = j"
proof -
  have "length (show_nat n) < 2 ^ 64" if "n < 2 ^ 64" for n
    using length_show_nat_le [of n 20] that by simp
  then have "fits64 (show_nat i)" "fits64 (show_nat j)" using assms(2,3) by (simp_all add: fits64_def)
  with assms(1) show ?thesis
    using aad_new_inj [of "''localsecrets.log.v1''" "''localsecrets.log.v1''" "[show_nat i]" "[show_nat j]"]
    by (simp add: record_context_def fits64_def [of "''localsecrets.log.v1''"])
qed

lemma moved_record:
  assumes "gcm_binds g (aad_bytes (record_context i))" and "seal_record g key i payload w = (Inr body, w')"
    and "i \<noteq> j" and "i < 2 ^ 64" and "j < 2 ^ 64"
  shows "open_record g key j body = Inl (Unreadable j)"
proof -
  obtain env where env: "aead_seal g key payload (record_context i) w = (Inr env, w')"
    and body: "body = env_nonce env @ env_ciphertext env"
    using assms(2) by (auto simp: seal_record_def bindio_eq_Inr mapE_eq_Inr ret_apply)
  note s = aead_seal_Inr [OF env]
  have "aad_bytes (record_context j) \<noteq> aad_bytes (record_context i)"
    using record_context_inj [of i j] assms(3-5) by (metis aad.expand)
  with assms(1) s(3) have "gcm_decrypt g (key_bytes key) (env_nonce env) (env_ciphertext env) (aad_bytes (record_context j)) = None"
    unfolding gcm_binds_def by (metis option.exhaust)
  with s(2) show ?thesis
    by (cases env) (simp add: open_record_def body aead_open_def)
qed

lemma visit_all_Inr_append:
  "visit_all v n out (rs @ qs) = Inr y \<longleftrightarrow> (\<exists>x. visit_all v n out rs = Inr x \<and> visit_all v (n + length rs) x qs = Inr y)"
  by (auto simp: visit_all_append)

section \<open>Properties\<close>

text \<open>A world that works goes on working, and then appending succeeds.\<close>

lemma write_record_stays_healthy: "write_record kind bs lg w = (r, lg', w') \<Longrightarrow> fs_healthy w \<Longrightarrow> fs_healthy w'"
  by (auto simp: write_record_def Let_def bindio_def healthy_simps ret_def split: if_splits)

lemma seal_record_stays_healthy: "seal_record g k n bs w = (r, w') \<Longrightarrow> fs_healthy w \<Longrightarrow> fs_healthy w'"
  by (auto simp: seal_record_def bindio_def mapE_def ret_def fs_healthy_def dest!: aead_seal_worldD
      split: if_splits prod.splits sum.splits)

lemma log_append_stays_healthy: "log_append g k bs lg w = (r, lg', w') \<Longrightarrow> fs_healthy w \<Longrightarrow> fs_healthy w'"
  by (auto simp: log_append_def split: if_splits prod.splits sum.splits
      dest: seal_record_stays_healthy write_record_stays_healthy)

lemma log_append_healthy:
  assumes "gcm_ok g" and "key_ok key" and "stored rs lg w" and "fs_healthy w"
    and "length payload \<le> 65536" and "entropy w (draws w) \<noteq> None"
  shows "fst (log_append g key payload lg w) = Inr ()"
proof -
  obtain env w' where seal: "aead_seal g key payload (record_context (lg_count lg)) w = (Inr env, w')"
    using assms(5,6) unfolding aead_seal_outcome [OF assms(1,2)] by (auto simp: max_plaintext_len_def Let_def)
  have w': "w' = w\<lparr>draws := Suc (draws w)\<rparr>"
    using aead_seal_worldD [OF seal] assms(5,6) by (simp add: max_plaintext_len_def)
  have "record_fits (kind_sealed, env_nonce env @ env_ciphertext env)"
    using aead_seal_length [OF assms(1,2) seal] aead_seal_Inr(2) [OF seal] assms(5)
    by (simp add: record_fits_def max_record_len_def nonce_len_def tag_len_def)
  then have "fst (write_record kind_sealed (env_nonce env @ env_ciphertext env) lg w') = Inr ()"
    by (rule write_record_healthy [rotated 2]) (use assms(3,4) w' in \<open>simp_all add: fs_healthy_def\<close>)
  with assms(5) seal show ?thesis
    by (simp add: log_append_def seal_record_def bindio_def mapE_def ret_def max_record_len_def)
qed

text \<open>
  C21: Opening after a crash: a file that holds complete records followed by whatever an interrupted
  write of one more left (a strict prefix of its frame, down to a few bytes of the length) opens to
  exactly the complete records; the torn tail is cut off and reported, and the log can be appended to.
\<close>

theorem open_recovers_from_a_crash:
  assumes "fs_healthy w" and "dir w p = Some i" and "contents w i = log_image rs @ t"
    and "\<forall>r\<in>set rs. record_fits r" and "torn t"
  shows "\<exists>lg w'. log_open p w = (Inr lg, w') \<and> stored rs lg w' \<and> lg_repaired lg = (t \<noteq> []) \<and>
     contents w' i = log_image rs"
  using log_open_image [OF assms(1-3) _ assms(5)] assms(2,4) by (fastforce simp: stored_def)

theorem open_recovers_from_a_crash_witness:
  "\<exists>lg w'. log_open ''s.log'' (sample_world\<lparr>dir := [''s.log'' \<mapsto> 0],
       contents := (\<lambda>_. log_image [(0, [1, 2])] @ take 2 (frame (0, [7]))), fault := (\<lambda>_. None)\<rparr>) = (Inr lg, w') \<and>
     stored [(0, [1, 2])] lg w' \<and> lg_repaired lg = (take 2 (frame (0, [7])) \<noteq> []) \<and>
     contents w' 0 = log_image [(0, [1, 2])]"
  by (rule open_recovers_from_a_crash)
    (simp_all add: fs_healthy_def record_fits_def max_record_len_def torn_take length_frame)

text \<open>
  C2: Acknowledged records survive: a log is created and then used, crashed and reopened in any order,
  in a world where file operations may fail at any moment, with one exception, a gap of the code that is
  stated as a property of its own below: no reopening goes through after its \<open>exists()\<close> failed to look at the file. Then,
  whatever happened, once the file can be read again it decodes to a list of payloads that contains
  every payload whose append was acknowledged, in the order they were acknowledged.
\<close>

theorem acknowledged_records_survive:
  assumes "gcm_ok g" and "key_ok key" and "dir w0 p = None" and "log_open p w0 = (Inr lg0, w1)"
    and "(sighted_step g key p)\<^sup>*\<^sup>* (Machine (Some lg0) w1 []) m" and "fs_healthy (lm_world m)"
  shows "\<exists>bs. subseq (lm_acked m) bs \<and>
     (case lm_log m of
        Some lg \<Rightarrow> lg_broken lg \<or> (\<exists>w'. read_all g key lg (lm_world m) = (Inr bs, w'))
      | None \<Rightarrow> (\<exists>lg w' w''. log_open p (lm_world m) = (Inr lg, w') \<and> read_all g key lg w' = (Inr bs, w'')))"
proof -
  have "log_inv g key p (Machine (Some lg0) w1 [])"
    using log_open_new [OF assms(3,4)] stored_on_disk [of "[]" lg0 w1]
    by (auto intro!: log_invI [of _ _ "h_inode (lg_file lg0)" "[]"] simp: stored_def)
  with assms(5) have "log_inv g key p m"
    by (induction rule: rtranclp_induct) (auto intro: log_step_inv [OF assms(1,2)])
  then obtain rs i out t where inv: "dir (lm_world m) p = Some i" "decoded g key rs = Inr out"
    "subseq (lm_acked m) (map lr_payload out)" and fits: "\<forall>r\<in>set rs. record_fits r"
    and t: "torn t" "contents (lm_world m) i = log_image rs @ t"
    and lg: "\<And>lg. lm_log m = Some lg \<Longrightarrow> \<not> lg_broken lg \<Longrightarrow> stored rs lg (lm_world m)"
    by (auto simp: log_inv_def on_disk_def)
  have reads: "\<exists>w'. read_all g key lg w = (Inr (map lr_payload out), w')" if "fs_healthy w" "stored rs lg w" for lg w
    using read_records_stored [OF that, of g key] inv(2) by (auto simp: read_all_def bindio_def ret_def)
  show ?thesis
  proof (cases "lm_log m")
    case None
    from log_open_image [OF assms(6) inv(1) t(2) _ t(1)] fits obtain n lg w' where
      n: "log_open p (lm_world m) = (Inr lg, w')" "w' = set_contents i (log_image rs) ((lm_world m)\<lparr>calls := n\<rparr>)"
        "calls (lm_world m) \<le> n" "stored rs lg w'"
      using inv(1) by (fastforce simp: stored_def)
    with assms(6) reads [of w' lg] None inv(3) show ?thesis by fastforce
  qed (use lg reads assms(6) inv(3) in fastforce)
qed

theorem acknowledged_records_survive_witness:
  "\<exists>lg w bs. (sighted_step sample_gcm sample_key ''s.log'')\<^sup>*\<^sup>*
       (Machine (Some lg) w []) (Machine None (snd (snd (log_append sample_gcm sample_key [9] lg w))) [[9]]) \<and>
     [9] \<in> set bs \<and> (\<exists>lg' w' w''. log_open ''s.log'' (snd (snd (log_append sample_gcm sample_key [9] lg w))) = (Inr lg', w') \<and>
       read_all sample_gcm sample_key lg' w' = (Inr bs, w''))"
proof -
  have "\<exists>lg w. log_open ''s.log'' sample_world = (Inr lg, w) \<and> fs_healthy w \<and> entropy w (draws w) \<noteq> None"
    by (simp add: log_open_def start_log_def fs_exists_def next_fault_def open_private_def bindio_def mapE_def
        ret_def fs_open_create_def fs_write_all_def fs_sync_def sample_world_def fs_healthy_def)
  then obtain lg w where o: "log_open ''s.log'' sample_world = (Inr lg, w)" and h: "fs_healthy w"
    and e: "entropy w (draws w) \<noteq> None" by blast
  have d: "dir sample_world ''s.log'' = None" by (simp add: sample_world_def)
  with log_open_new [OF d o] have "stored [] lg w" by simp
  from log_append_healthy [OF sample_gcm_ok sample_key_ok this h _ e, of "[9]"]
  obtain lg2 w2 where a: "log_append sample_gcm sample_key [9] lg w = (Inr (), lg2, w2)"
    by (cases "log_append sample_gcm sample_key [9] lg w") auto
  have "log_step sample_gcm sample_key ''s.log'' (Machine (Some lg) w []) (Machine (Some lg2) w2 [[9]])"
    using log_step.append [OF a, of "''s.log''" "[]"] by simp
  moreover have "log_step sample_gcm sample_key ''s.log'' (Machine (Some lg2) w2 [[9]]) (Machine None w2 [[9]])"
    by (rule log_step.crash)
  ultimately have r: "(sighted_step sample_gcm sample_key ''s.log'')\<^sup>*\<^sup>* (Machine (Some lg) w []) (Machine None w2 [[9]])"
    by (intro rtranclp.rtrancl_into_rtrancl [OF r_into_rtranclp]) (simp_all add: blind_reopening_def)
  from acknowledged_records_survive [OF sample_gcm_ok sample_key_ok d o r] log_append_stays_healthy [OF a h]
  obtain bs where bs: "subseq [[9]] bs" "\<exists>lg' w' w''. log_open ''s.log'' w2 = (Inr lg', w') \<and>
      read_all sample_gcm sample_key lg' w' = (Inr bs, w'')" by auto
  from bs(1) have "[9] \<in> set bs" by (meson list.set_intros(1) subseq_singleton_left)
  with r bs(2) show ?thesis by (intro exI [of _ lg] exI [of _ w] exI [of _ bs]) (simp add: a)
qed

text \<open>
  C22: When appending works: in a world whose files work, an append to a log in step with its file is
  acknowledged exactly when the payload has at most 64 KiB and entropy is there. The limit of 1 MiB
  the store declares for a record is never what decides: between the two, sealing fails.
\<close>

theorem append_succeeds_iff:
  assumes "gcm_ok g" and "key_ok key" and "stored rs lg w" and "fs_healthy w"
  shows "fst (log_append g key payload lg w) =
     (if length payload > 1048576 then Inl (RecordTooLarge (length payload) 1048576)
      else if length payload > 65536 \<or> entropy w (draws w) = None then Inl StoreCrypto
      else Inr ())"
proof (cases "length payload > 65536 \<or> entropy w (draws w) = None")
  case True
  then have "\<exists>e w'. aead_seal g key payload (record_context (lg_count lg)) w = (Inl e, w')"
    unfolding aead_seal_outcome [OF assms(1,2)] by (auto simp: max_plaintext_len_def split: option.splits)
  with True show ?thesis
    by (auto simp: log_append_def seal_record_def bindio_def mapE_def max_record_len_def)
next
  case False
  with log_append_healthy [OF assms, of payload] show ?thesis by auto
qed

theorem append_succeeds_iff_witness:
  "fst (log_append sample_gcm sample_key [1] \<lparr>lg_path = ''s.log'', lg_file = \<lparr>h_inode = 0, h_offset = length (log_image [])\<rparr>,
       lg_count = 0, lg_broken = False, lg_repaired = False\<rparr>
       (sample_world\<lparr>dir := [''s.log'' \<mapsto> 0], contents := (\<lambda>_. log_image []), fault := (\<lambda>_. None)\<rparr>)) = Inr ()"
  by (subst append_succeeds_iff [of _ _ "[]"])
    (simp_all add: stored_def fs_healthy_def sample_world_def)

text \<open>
  C23: A record is bound to its place: with authentic decryption, a record sealed for one position is
  unreadable at any other, and a file that holds it there does not decode, so records cannot be
  reordered, replayed or moved unnoticed.
\<close>

theorem moved_record_is_unreadable:
  assumes "gcm_binds g (aad_bytes (record_context i))" and "seal_record g key i payload w = (Inr body, w')"
    and "i \<noteq> length before" and "i < 2 ^ 64" and "length before < 2 ^ 64"
  shows "open_record g key (length before) body = Inl (Unreadable (length before)) \<and>
     decoded g key (before @ (kind_sealed, body) # rest) \<noteq> Inr out"
proof
  show u: "open_record g key (length before) body = Inl (Unreadable (length before))"
    by (rule moved_record [OF assms])
  show "decoded g key (before @ (kind_sealed, body) # rest) \<noteq> Inr out"
    unfolding decoded_def visit_all_Inr_append
    by (simp add: collect_record_def kind_sealed_def kind_plain_def u)
qed

theorem moved_record_is_unreadable_witness:
  "let body = projr (fst (seal_record (sample_gcm_for (record_context 0)) sample_key 0 [5] sample_world)) in
     open_record (sample_gcm_for (record_context 0)) sample_key (length [(kind_plain, [])]) body = Inl (Unreadable 1)"
proof -
  let ?g = "sample_gcm_for (record_context 0)"
  have "\<exists>body w'. seal_record ?g sample_key 0 [5] sample_world = (Inr body, w')"
    by (simp add: seal_record_def bindio_def mapE_def ret_def sample_seal_for max_plaintext_len_def)
  then obtain body w' where s: "seal_record ?g sample_key 0 [5] sample_world = (Inr body, w')" by blast
  from moved_record_is_unreadable [OF sample_gcm_for_binds s, of "[(kind_plain, [])]"] s
  show ?thesis by (simp add: Let_def)
qed

text \<open>
  C20: Compacting is all or nothing: if it fails, at whatever point, the log and its file are as they
  were; if it succeeds, the log is in step with a file that decodes to exactly the given plain and
  sealed payloads, each bound to its new position.
\<close>

theorem compact_is_atomic:
  assumes "inodes_ok w" and "with_extension ''compacting'' (lg_path lg) \<noteq> lg_path lg"
    and "dir w (lg_path lg) = Some i" and "compact g key plain sealed_payloads lg w = (r, lg', w')"
    and "gcm_ok g" and "key_ok key"
  shows "(case r of
       Inl e \<Rightarrow> lg' = lg \<and> dir w' (lg_path lg) = Some i \<and> contents w' i = contents w i
     | Inr _ \<Rightarrow> lg_path lg' = lg_path lg \<and> (\<exists>rs. stored rs lg' w' \<and>
         decoded g key rs = Inr (map (\<lambda>b. \<lparr>lr_sealed = False, lr_payload = b\<rparr>) plain @
           map (\<lambda>b. \<lparr>lr_sealed = True, lr_payload = b\<rparr>) sealed_payloads)))"
  using assms(1-4)
proof (cases rule: compact_cases)
  case (rewritten rs)
  with rewritten(3) [OF assms(5,6)] show ?thesis by (auto simp: rebuilt_def)
qed simp

theorem compact_is_atomic_witness:
  "\<exists>r lg' w'. compact sample_gcm sample_key [[1]] []
      \<lparr>lg_path = ''s.log'', lg_file = \<lparr>h_inode = 0, h_offset = 8\<rparr>, lg_count = 0, lg_broken = False, lg_repaired = False\<rparr>
      (sample_world\<lparr>dir := [''s.log'' \<mapsto> 0], contents := (\<lambda>_. log_image []), next_inode := 1\<rparr>) = (r, lg', w') \<and>
    (case r of Inl e \<Rightarrow> lg_count lg' = 0 | Inr _ \<Rightarrow> lg_path lg' = ''s.log'')"
proof -
  let ?lg = "\<lparr>lg_path = ''s.log'', lg_file = \<lparr>h_inode = 0, h_offset = 8\<rparr>, lg_count = 0, lg_broken = False, lg_repaired = False\<rparr>"
  let ?w = "sample_world\<lparr>dir := [''s.log'' \<mapsto> 0], contents := (\<lambda>_. log_image []), next_inode := 1\<rparr>"
  obtain r lg' w' where run: "compact sample_gcm sample_key [[1]] [] ?lg ?w = (r, lg', w')" by (metis prod_cases3)
  have "inodes_ok ?w" by (simp add: inodes_ok_def)
  moreover have "with_extension ''compacting'' (lg_path ?lg) \<noteq> lg_path ?lg"
    by (simp add: with_extension_def file_stem_def Let_def)
  moreover have "dir ?w (lg_path ?lg) = Some 0" by simp
  ultimately have "case r of Inl e \<Rightarrow> lg' = ?lg \<and> dir w' (lg_path ?lg) = Some 0 \<and> contents w' 0 = contents ?w 0
     | Inr _ \<Rightarrow> lg_path lg' = lg_path ?lg \<and> (\<exists>rs. stored rs lg' w' \<and>
         decoded sample_gcm sample_key rs = Inr (map (\<lambda>b. \<lparr>lr_sealed = False, lr_payload = b\<rparr>) [[1]] @
           map (\<lambda>b. \<lparr>lr_sealed = True, lr_payload = b\<rparr>) []))"
    by (rule compact_is_atomic [OF _ _ _ run sample_gcm_ok sample_key_ok])
  with run show ?thesis by (intro exI conjI [rotated]) (auto split: sum.splits)
qed

text \<open>
  C38: Two ways an open can go wrong that the recovery of torn records does not cover. A header cut
  short by a crash is never repaired: the file is refused on every open. And when the file cannot be
  looked at for a moment (\<open>exists\<close> then answers no), the header is written again over an intact log,
  which is then taken for empty, with the next record to be written over the first.
\<close>

theorem open_gaps:
  "(fs_healthy w \<longrightarrow> dir w p = Some i \<longrightarrow> contents w i = take k header \<longrightarrow> 0 < k \<longrightarrow> k < header_len \<longrightarrow>
      fst (log_open p w) = Inl NotALog) \<and>
   (dir w p = Some i \<longrightarrow> contents w i = log_image rs \<longrightarrow>
      fault w (calls w) = Some n \<longrightarrow> (\<forall>m > calls w. fault w m = None) \<longrightarrow>
      (\<exists>lg w'. log_open p w = (Inr lg, w') \<and> contents w' i = log_image rs \<and> lg_count lg = 0 \<and>
         h_offset (lg_file lg) = header_len))"
proof (intro conjI impI)
  assume h: "fs_healthy w" "dir w p = Some i" "contents w i = take k header" "0 < k" "k < header_len"
  then have "take k header \<noteq> []" using length_header by (metis gr_implies_not0 length_0_conv length_take min.absorb4)
  with h show "fst (log_open p w) = Inl NotALog"
    by (simp add: log_open_def resume_log_def check_header_def read_header_def open_private_def bindio_def mapE_def
        ret_def fail_def healthy_simps)
next
  assume h: "dir w p = Some i" "contents w i = log_image rs" "fault w (calls w) = Some n" "\<forall>m > calls w. fault w m = None"
  have "write_at 0 (magic @ [0, format_version]) (log_image rs) = log_image rs"
    by (simp add: write_at_def log_image_def header_def)
  moreover have "length (magic @ [0, format_version]) = header_len"
    using length_header by (simp add: header_def)
  ultimately show "\<exists>lg w'. log_open p w = (Inr lg, w') \<and> contents w' i = log_image rs \<and> lg_count lg = 0 \<and>
      h_offset (lg_file lg) = header_len"
    using h by (simp add: log_open_def start_log_def fs_exists_def next_fault_def open_private_def bindio_def mapE_def
        ret_def fs_open_create_def fs_write_all_def fs_sync_def)
qed

theorem open_gaps_witness:
  "\<exists>lg w'. log_open ''s.log'' (sample_world\<lparr>dir := [''s.log'' \<mapsto> 0], contents := (\<lambda>_. log_image [(0, [1])]),
       fault := (\<lambda>n. if n = 0 then Some 0 else None)\<rparr>) = (Inr lg, w') \<and>
     contents w' 0 = log_image [(0, [1])] \<and> lg_count lg = 0 \<and> h_offset (lg_file lg) = header_len"
  by (rule open_gaps [THEN conjunct2, rule_format, of _ _ _ _ 0]) (simp_all add: sample_world_def)

end
