(* ===== verification/Barrier.thy ===== *)
theory Barrier
  imports Event
begin

text \<open>
  \<open>ls-server/src/barrier.rs\<close>: the one record stored in the clear, which holds the root key wrapped by
  the master key. Reading refuses anything that is not a barrier of this format.
\<close>

definition barrier_format :: int where "barrier_format = 1"

record barrier =
  br_threshold :: u8
  br_shares :: u8
  br_root_key :: sealed
  br_created_at :: timestamp

definition barrier_context :: aad where
  "barrier_context = key_wrap ''root-key'' ''barrier''"

definition barrier_to_bytes :: "barrier \<Rightarrow> bytes" where
  "barrier_to_bytes b = as_bytes (render (json_object
     [(''type'', JString ''barrier''),
      (''v'', JInt barrier_format),
      (''threshold'', JInt (int (unat (br_threshold b)))),
      (''shares'', JInt (int (unat (br_shares b)))),
      (''root_key_nonce'', JString (hex_encode (sl_nonce (br_root_key b)))),
      (''root_key_ciphertext'', JString (hex_encode (sl_ciphertext (br_root_key b)))),
      (''created_at'', JString (to_rfc3339 (br_created_at b)))]))"

text \<open>The two closures of \<open>from_bytes\<close>.\<close>

definition small_field :: "json \<Rightarrow> str \<Rightarrow> str + u8" where
  "small_field v name = ok_or ''bad share count''
     (Option.bind (Option.bind (json_get name v) as_i64) (\<lambda>n.
        if 0 \<le> n \<and> n \<le> 255 then Some (of_int n) else None))"

definition blob_field :: "json \<Rightarrow> str \<Rightarrow> str + bytes" where
  "blob_field v name = ok_or ''bad key material''
     (Option.bind (Option.bind (json_get name v) as_str) hex_decode)"

definition barrier_from_bytes :: "bytes \<Rightarrow> str + barrier" where
  "barrier_from_bytes bs =
     and_then (ok_or ''not UTF-8'' (from_utf8 bs)) (\<lambda>t.
     and_then (map_err (\<lambda>_. ''not JSON'') (json_parse t)) (\<lambda>v.
       if Option.bind (json_get ''type'' v) as_str \<noteq> Some ''barrier'' then Inl ''not a barrier record''
       else if Option.bind (json_get ''v'' v) as_i64 \<noteq> Some barrier_format
       then Inl ''barrier written in a format this build does not know''
       else and_then (small_field v ''threshold'') (\<lambda>threshold.
            and_then (small_field v ''shares'') (\<lambda>shares.
            and_then (blob_field v ''root_key_nonce'') (\<lambda>nonce.
            and_then (blob_field v ''root_key_ciphertext'') (\<lambda>ciphertext.
            and_then (ok_or ''bad timestamp''
                (Option.bind (Option.bind (json_get ''created_at'' v) as_str) parse_rfc3339)) (\<lambda>created_at.
              Inr \<lparr>br_threshold = threshold, br_shares = shares,
                   br_root_key = \<lparr>sl_nonce = nonce, sl_ciphertext = ciphertext\<rparr>,
                   br_created_at = created_at\<rparr>)))))))"

lemma storable_int [simp]: "i64_min \<le> i \<Longrightarrow> i \<le> i64_max \<Longrightarrow> storable n (JInt i)"
  by (simp add: storable_def)

lemma small_int [simp]: "i64_min \<le> uint (x :: u8)" "uint (x :: u8) \<le> i64_max" "uint x \<le> 255"
proof -
  have b: "uint x < 2 ^ LENGTH(8)" by (rule unsigned_less)
  show "i64_min \<le> uint x"
    unfolding i64_min_def by (rule order_trans [of _ 0]) simp_all
  from b show "uint x \<le> i64_max" "uint x \<le> 255"
    by (simp_all add: i64_max_def)
qed

lemma storable_format [simp]: "storable n (JInt barrier_format)"
  by (simp add: storable_def barrier_format_def i64_min_def i64_max_def)

lemma as_i64_JInt [simp]: "as_i64 (JInt i) = Some i"
  by (simp add: as_i64_def)

lemma barrier_from_to_bytes: "in_range (br_created_at b) \<Longrightarrow> barrier_from_bytes (barrier_to_bytes b) = Inr b"
proof -
  assume r: "in_range (br_created_at b)"
  let ?v = "json_object
     [(''type'', JString ''barrier''), (''v'', JInt barrier_format),
      (''threshold'', JInt (int (unat (br_threshold b)))), (''shares'', JInt (int (unat (br_shares b)))),
      (''root_key_nonce'', JString (hex_encode (sl_nonce (br_root_key b)))),
      (''root_key_ciphertext'', JString (hex_encode (sl_ciphertext (br_root_key b)))),
      (''created_at'', JString (to_rfc3339 (br_created_at b)))]"
  have "storable (Suc 0) ?v"
    by (rule storable_object) simp_all
  then have "json_parse (render ?v) = Inr ?v" "utf8_valid (render ?v)"
    by (auto simp: storable_def max_depth_def intro!: json_parse_render render_utf8)
  then have "from_utf8 (as_bytes (render ?v)) = Some (render ?v)" "json_parse (render ?v) = Inr ?v"
    by simp_all
  moreover have "unat x \<le> 255" for x :: u8
    using unat_u8_less [of x] by simp
  ultimately show ?thesis
    using r unfolding barrier_from_bytes_def barrier_to_bytes_def
    by (simp add: json_object_def small_field_def blob_field_def hex.dec_enc rfc3339.dec_enc del: from_utf8_as_bytes render.simps)
qed

interpretation barrier_record: codec barrier_to_bytes
    "\<lambda>bs. case barrier_from_bytes bs of Inl _ \<Rightarrow> None | Inr b \<Rightarrow> Some b" "\<lambda>b. in_range (br_created_at b)"
  by unfold_locales (simp add: barrier_from_to_bytes)

text \<open>A barrier and an event are never taken for one another.\<close>

lemma barrier_is_no_event: "barrier_from_bytes bs = Inr b \<Longrightarrow> event_from_bytes bs \<noteq> Inr e"
  by (auto simp: barrier_from_bytes_def event_from_bytes_def event_from_value_def text_field_def split: if_splits)

text \<open>
  The barrier record round-trips: what the vault writes is read back unchanged, and nothing that
  reads as a barrier can be replayed as an event.
\<close>

lemma barrier_roundtrip:
  "(in_range (br_created_at b) \<longrightarrow> barrier_from_bytes (barrier_to_bytes b) = Inr b) \<and>
   (\<forall>bs b' e. barrier_from_bytes bs = Inr b' \<longrightarrow> event_from_bytes bs \<noteq> Inr e)"
  using barrier_from_to_bytes barrier_is_no_event by blast

theorem barrier_roundtrip_witness:
  "\<exists>b. barrier_from_bytes (barrier_to_bytes b) = Inr b \<and>
     b = \<lparr>br_threshold = 2, br_shares = 3, br_root_key = \<lparr>sl_nonce = [1], sl_ciphertext = [2, 3]\<rparr>,
          br_created_at = from_unix 0\<rparr>"
  by (intro exI conjI barrier_roundtrip [THEN conjunct1, rule_format]) simp_all

end
