(* ===== verification/Credentials.thy ===== *)
theory Credentials
  imports Encoding Aead
begin

text \<open>
  \<open>ls-core/src/crypto/token.rs\<close> and \<open>ls-core/src/crypto/password.rs\<close>: bearer tokens, of which only
  the SHA-256 is kept, and password hashes. SHA-256 is a parameter; argon2 and the PHC string
  parser are the record \<open>argon2\<close>.
\<close>

section \<open>Tokens\<close>

definition token_prefix :: str where "token_prefix = ''lsec_''"
definition token_bytes :: nat where "token_bytes = 32"
definition hash_len :: nat where "hash_len = 32"

datatype token_hash = TokenHash (hash_bytes: bytes)

record issued_token =
  it_secret :: str
  it_hash :: token_hash

definition token_hash_from_bytes :: "bytes \<Rightarrow> token_hash option" where
  "token_hash_from_bytes bs = (if length bs = hash_len then Some (TokenHash bs) else None)"

text \<open>The digest of SHA-256 is copied into an array of its length.\<close>

definition hash_token :: "(bytes \<Rightarrow> bytes) \<Rightarrow> str \<Rightarrow> token_hash" where
  "hash_token sha secret = TokenHash (sha (as_bytes secret))"

definition verify_token :: "(bytes \<Rightarrow> bytes) \<Rightarrow> token_hash \<Rightarrow> str \<Rightarrow> bool" where
  "verify_token sha h presented \<longleftrightarrow> hash_bytes (hash_token sha presented) = hash_bytes h"

definition generate_token :: "(bytes \<Rightarrow> bytes) \<Rightarrow> (entropy_error, issued_token) io" where
  "generate_token sha = bindio (random_fill token_bytes) (\<lambda>bs.
     let secret = token_prefix @ b64_encode bs
     in ret \<lparr>it_secret = secret, it_hash = hash_token sha secret\<rparr>)"

lemma generate_token_Inr:
  assumes "generate_token sha w = (Inr t, w')"
  obtains bs where "random_fill token_bytes w = (Inr bs, w')" and "it_secret t = token_prefix @ b64_encode bs"
    and "it_hash t = hash_token sha (it_secret t)"
  using assms by (auto simp: generate_token_def bindio_eq_Inr ret_apply Let_def)

lemma generate_token_world: "snd (generate_token sha w) = w\<lparr>draws := Suc (draws w)\<rparr>"
  by (auto simp: generate_token_def bindio_def random_fill_def ret_apply Let_def split: option.splits)

lemma generate_token_worldD: "generate_token sha w = (r, w') \<Longrightarrow> w' = w\<lparr>draws := Suc (draws w)\<rparr>"
  by (metis generate_token_world snd_conv)

section \<open>Passwords\<close>

definition min_len :: nat where "min_len = 12"
definition max_len :: nat where "max_len = 1024"
definition salt_len :: nat where "salt_len = 16"

datatype password_error = TooShort nat nat | TooLong nat nat | Hashing str | PasswordEntropy

text \<open>
  What the code uses of the argon2 crate: building a hasher for given parameters, hashing into a
  PHC string, parsing a PHC string, its decimal parameters, and verification.
\<close>

record 'phc argon2 =
  params_new :: "nat \<Rightarrow> nat \<Rightarrow> nat \<Rightarrow> str + unit"
  hash_with_salt :: "bytes \<Rightarrow> bytes \<Rightarrow> str + str"
  phc_new :: "str \<Rightarrow> 'phc option"
  phc_decimal :: "'phc \<Rightarrow> str \<Rightarrow> nat option"
  verify_phc :: "bytes \<Rightarrow> 'phc \<Rightarrow> bool"

definition argon2_hasher :: "'phc argon2 \<Rightarrow> password_error + unit" where
  "argon2_hasher a = map_err (\<lambda>e. Hashing (''invalid argon2 parameters: '' @ e)) (params_new a (19 * 1024) 2 1)"

definition hash_password :: "'phc argon2 \<Rightarrow> str \<Rightarrow> (password_error, str) io" where
  "hash_password a password =
     (let n = length (chars password) in
      if n < min_len then fail (TooShort n min_len)
      else if length password > max_len then fail (TooLong (length password) max_len)
      else bindio (mapE (\<lambda>_. PasswordEntropy) (random_bytes salt_len)) (\<lambda>salt.
        liftR (and_then (argon2_hasher a) (\<lambda>_. map_err Hashing (hash_with_salt a (as_bytes password) salt)))))"

definition max_verify_memory_kib :: nat where "max_verify_memory_kib = 256 * 1024"
definition max_verify_passes :: nat where "max_verify_passes = 10"
definition max_verify_lanes :: nat where "max_verify_lanes = 4"

definition unwrap_or :: "'a \<Rightarrow> 'a option \<Rightarrow> 'a" where
  "unwrap_or d r = (case r of None \<Rightarrow> d | Some x \<Rightarrow> x)"

definition cost_is_acceptable :: "'phc argon2 \<Rightarrow> 'phc \<Rightarrow> bool" where
  "cost_is_acceptable a parsed =
     (let numeric = phc_decimal a parsed;
          memory = unwrap_or 0 (numeric ''m'');
          passes = unwrap_or 0 (numeric ''t'');
          lanes = unwrap_or 0 (numeric ''p'')
      in memory \<le> max_verify_memory_kib \<and> passes \<le> max_verify_passes \<and> lanes \<le> max_verify_lanes)"

definition verify_password :: "'phc argon2 \<Rightarrow> str \<Rightarrow> str \<Rightarrow> bool" where
  "verify_password a password stored =
     (if length password > max_len then False
      else (case phc_new a stored of
              None \<Rightarrow> False
            | Some parsed \<Rightarrow>
                if \<not> cost_is_acceptable a parsed then False
                else (case argon2_hasher a of Inl _ \<Rightarrow> False | Inr _ \<Rightarrow> verify_phc a (as_bytes password) parsed)))"

text \<open>Documented behaviour of the library: its own hashes parse, stay cheap and verify.\<close>

definition argon2_ok :: "'phc argon2 \<Rightarrow> bool" where
  "argon2_ok a \<longleftrightarrow> params_new a (19 * 1024) 2 1 = Inr () \<and>
     (\<forall>pw salt. length salt = salt_len \<longrightarrow> (\<exists>s p. hash_with_salt a pw salt = Inr s \<and> phc_new a s = Some p \<and>
        phc_decimal a p ''m'' = Some (19 * 1024) \<and> phc_decimal a p ''t'' = Some 2 \<and> phc_decimal a p ''p'' = Some 1 \<and>
        verify_phc a pw p))"

section \<open>Properties\<close>

text \<open>
  An issued token is the prefix followed by 43 base64 characters that carry its 32 random
  bytes without loss, its stored hash has the length that is read back from storage, and it is
  accepted by the check against that hash.
\<close>

lemma issued_token_verifies:
  assumes "\<And>x. length (sha x) = 32" and "generate_token sha w = (Inr t, w')"
  shows "verify_token sha (it_hash t) (it_secret t) \<and>
    token_hash_from_bytes (hash_bytes (it_hash t)) = Some (it_hash t) \<and>
    length (it_secret t) = 48 \<and>
    (\<exists>bs. strip_prefix token_prefix (it_secret t) = Some (b64_encode bs) \<and> length bs = 32 \<and>
       random_fill 32 w = (Inr bs, w'))"
proof -
  obtain bs where bs: "random_fill token_bytes w = (Inr bs, w')" "it_secret t = token_prefix @ b64_encode bs"
    "it_hash t = hash_token sha (it_secret t)"
    by (rule generate_token_Inr [OF assms(2)])
  then have "length bs = 32" using random_fill_length [OF bs(1)] by (simp add: token_bytes_def)
  with bs assms(1) show ?thesis
    by (auto simp: verify_token_def token_hash_from_bytes_def hash_token_def hash_len_def length_b64_encode
        token_prefix_def token_bytes_def)
qed

text \<open>
  A password is hashed exactly when it has at least 12 characters, at most 1024 bytes, and
  the system supplies a salt; the refusals name the limit that was broken and draw no entropy; and
  the stored hash then verifies that password.
\<close>

lemma password_hash_verifies:
  assumes "argon2_ok a"
  shows "(\<exists>stored. fst (hash_password a password w) = Inr stored \<and> verify_password a password stored) \<longleftrightarrow>
     12 \<le> length (chars password) \<and> length password \<le> 1024 \<and> entropy w (draws w) \<noteq> None"
    (is "?l \<longleftrightarrow> ?r")
proof
  show "?l \<Longrightarrow> ?r"
    by (auto simp: hash_password_def Let_def fail_apply bindio_def mapE_def random_bytes_def random_fill_def
        min_len_def max_len_def split: if_splits option.splits)
next
  assume r: ?r
  then obtain f where f: "entropy w (draws w) = Some f" by blast
  let ?salt = "map f [0..<salt_len]"
  from assms obtain s p where "hash_with_salt a (as_bytes password) ?salt = Inr s" "phc_new a s = Some p"
    "phc_decimal a p ''m'' = Some (19 * 1024)" "phc_decimal a p ''t'' = Some 2" "phc_decimal a p ''p'' = Some 1"
    "verify_phc a (as_bytes password) p"
    unfolding argon2_ok_def by (metis (no_types, lifting) diff_zero length_map length_upt)
  with r f assms show ?l
    by (simp add: hash_password_def Let_def fail_apply bindio_def mapE_def random_bytes_def random_fill_def
        min_len_def max_len_def liftR_apply argon2_hasher_def argon2_ok_def verify_password_def cost_is_acceptable_def
        unwrap_or_def max_verify_memory_kib_def max_verify_passes_def max_verify_lanes_def)
qed

text \<open>
  Verification fails closed and its cost is bounded: an over-long password, an unreadable
  hash and a hash that asks for more than 256 MiB, ten passes or four lanes are refused without
  running argon2, whatever the library would answer.
\<close>

lemma verify_password_bounded:
  "verify_password a password stored \<longleftrightarrow>
     length password \<le> 1024 \<and> params_new a (19 * 1024) 2 1 = Inr () \<and>
     (\<exists>p. phc_new a stored = Some p \<and> verify_phc a (as_bytes password) p \<and>
        unwrap_or 0 (phc_decimal a p ''m'') \<le> 262144 \<and> unwrap_or 0 (phc_decimal a p ''t'') \<le> 10 \<and>
        unwrap_or 0 (phc_decimal a p ''p'') \<le> 4)"
  by (auto simp: verify_password_def cost_is_acceptable_def argon2_hasher_def map_err_def Let_def max_len_def
      max_verify_memory_kib_def max_verify_passes_def max_verify_lanes_def split: option.splits sum.splits)

theorem issued_token_verifies_witness:
  "verify_token (\<lambda>x. take 32 (x @ replicate 32 0)) (it_hash (projr (fst (generate_token (\<lambda>x. take 32 (x @ replicate 32 0)) sample_world))))
     (it_secret (projr (fst (generate_token (\<lambda>x. take 32 (x @ replicate 32 0)) sample_world))))"
proof -
  let ?sha = "\<lambda>x :: bytes. take 32 (x @ replicate 32 0) :: bytes"
  obtain t w' where "generate_token ?sha sample_world = (Inr t, w')"
    by (simp add: generate_token_def bindio_def random_fill_def sample_world_def ret_apply Let_def)
  with issued_token_verifies [of ?sha sample_world t w'] show ?thesis by simp
qed

definition sample_argon2 :: "str argon2" where
  "sample_argon2 = \<lparr>params_new = (\<lambda>m t p. Inr ()), hash_with_salt = (\<lambda>pw salt. Inr (of_bytes pw)),
     phc_new = Some, phc_decimal = (\<lambda>p n. if n = ''m'' then Some 19456 else if n = ''t'' then Some 2 else Some 1),
     verify_phc = (\<lambda>pw p. of_bytes pw = p)\<rparr>"

theorem password_hash_verifies_witness:
  "\<exists>stored. fst (hash_password sample_argon2 ''correct horse'' sample_world) = Inr stored \<and>
     verify_password sample_argon2 ''correct horse'' stored"
proof -
  have "argon2_ok sample_argon2" by (simp add: argon2_ok_def sample_argon2_def)
  from password_hash_verifies [OF this, of "''correct horse''" sample_world] show ?thesis
    by (simp add: sample_world_def is_continuation_def)
qed

end
