(* ===== verification/GF256.thy ===== *)
theory GF256
  imports LS_Prelude
begin

text \<open>
  The module \<open>gf\<close> of \<open>ls-core/src/crypto/shamir.rs\<close>: arithmetic in GF(2^8) with the reduction
  polynomial 0x11B. The loops of the code are shown to be the operations of a field: doubling is
  linear, multiplication is bilinear and commutes with doubling on both sides, so it is
  commutative and associative by induction over the bytes; the 254-fold product is the inverse
  because squaring eight times is the identity and only 0 and 1 are their own squares. The type
  \<open>gf256\<close> carries the field instance that the Shamir component computes in.
\<close>

section \<open>The code\<close>

definition gf_add :: "u8 \<Rightarrow> u8 \<Rightarrow> u8" where
  "gf_add a b = a XOR b"

definition xtime :: "u8 \<Rightarrow> u8" where
  "xtime a = push_bit 1 a XOR 0x1B * drop_bit 7 a"

primrec gf_mul_loop :: "nat \<Rightarrow> u8 \<Rightarrow> u8 \<Rightarrow> u8 \<Rightarrow> u8" where
  "gf_mul_loop 0 a b product = product"
| "gf_mul_loop (Suc n) a b product =
     gf_mul_loop n (xtime a) (drop_bit 1 b) (product XOR a * (b AND 1))"

definition gf_mul :: "u8 \<Rightarrow> u8 \<Rightarrow> u8" where
  "gf_mul a b = gf_mul_loop 8 a b 0"

primrec gf_power_loop :: "nat \<Rightarrow> u8 \<Rightarrow> u8 \<Rightarrow> u8" where
  "gf_power_loop 0 a result = result"
| "gf_power_loop (Suc n) a result = gf_power_loop n a (gf_mul result a)"

definition gf_inverse :: "u8 \<Rightarrow> u8" where
  "gf_inverse a = (if a = 0 then 0 else gf_power_loop 254 a 1)"

definition gf_div :: "u8 \<Rightarrow> u8 \<Rightarrow> u8" where
  "gf_div a b = gf_mul a (gf_inverse b)"

section \<open>Doubling and multiplication as linear maps\<close>

lemma less_8E:
  assumes "n < (8 :: nat)"
  obtains "n = 0" | "n = 1" | "n = 2" | "n = 3" | "n = 4" | "n = 5" | "n = 6" | "n = 7"
  using assms by linarith

lemma high_bit: "drop_bit 7 (a :: u8) = (if bit a 7 then 1 else 0)"
proof (rule bit_word_eqI)
  fix n assume "n < LENGTH(8)"
  then have "n < 8" by simp
  then show "bit (drop_bit 7 a) n = bit (if bit a 7 then 1 else 0 :: u8) n"
    by (cases rule: less_8E) (auto simp: bit_simps dest: bit_imp_le_length)
qed

lemma low_bit: "(b :: u8) AND 1 = (if bit b 0 then 1 else 0)"
  by (simp add: and_one_eq bit_0 odd_iff_mod_2_eq_one)

lemma xtime_eq: "xtime a = push_bit 1 a XOR (if bit a 7 then 0x1B else 0)"
  by (simp add: xtime_def high_bit)

lemma xtime_xor: "xtime (a XOR b) = xtime a XOR xtime b"
  by (auto simp: xtime_eq bit_simps push_bit_xor xor.assoc xor.left_commute)

lemma xtime_0 [simp]: "xtime 0 = 0"
  by (simp add: xtime_eq)

text \<open>A multiple by one bit, and the loop as a sum of doublings.\<close>

definition scaled :: "bool \<Rightarrow> u8 \<Rightarrow> u8" where
  "scaled p a = (if p then a else 0)"

lemma scaled_simps [simp]: "scaled True a = a" "scaled False a = 0" "scaled p 0 = 0"
  by (simp_all add: scaled_def)

lemma xtime_scaled: "xtime (scaled p a) = scaled p (xtime a)"
  by (simp add: scaled_def)

lemma scaled_xor: "scaled p (a XOR b) = scaled p a XOR scaled p b"
  by (simp add: scaled_def)

lemma scaled_xor_cond: "scaled (p \<noteq> q) a = scaled p a XOR scaled q a"
  by (auto simp: scaled_def)

lemma mul_loop_Suc:
  "gf_mul_loop (Suc n) a b p = gf_mul_loop n (xtime a) (drop_bit 1 b) (p XOR scaled (bit b 0) a)"
  by (simp add: low_bit scaled_def)

lemma gf_mul_eq:
  "gf_mul a b =
     scaled (bit b 0) a XOR scaled (bit b 1) (xtime a) XOR
     scaled (bit b 2) (xtime (xtime a)) XOR scaled (bit b 3) (xtime (xtime (xtime a))) XOR
     scaled (bit b 4) (xtime (xtime (xtime (xtime a)))) XOR
     scaled (bit b 5) (xtime (xtime (xtime (xtime (xtime a))))) XOR
     scaled (bit b 6) (xtime (xtime (xtime (xtime (xtime (xtime a)))))) XOR
     scaled (bit b 7) (xtime (xtime (xtime (xtime (xtime (xtime (xtime a)))))))"
proof -
  have "gf_mul a b = gf_mul_loop (Suc (Suc (Suc (Suc (Suc (Suc (Suc (Suc 0)))))))) a b 0"
    by (simp add: gf_mul_def numeral_eq_Suc)
  then show ?thesis
    by (simp only: mul_loop_Suc gf_mul_loop.simps(1) bit_drop_bit_eq o_def drop_bit_drop_bit xor.left_neutral xor.assoc)
      (simp add: numeral_eq_Suc)
qed

section \<open>Induction over the bytes\<close>

lemma byte_bits:
  "(a :: u8) = scaled (bit a 0) 1 XOR scaled (bit a 1) 2 XOR scaled (bit a 2) 4 XOR scaled (bit a 3) 8 XOR
     scaled (bit a 4) 16 XOR scaled (bit a 5) 32 XOR scaled (bit a 6) 64 XOR scaled (bit a 7) 128"
  (is "a = ?s")
proof (rule bit_word_eqI)
  fix n assume "n < LENGTH(8)"
  then have "n < 8" by simp
  then show "bit a n = bit ?s n"
    by (cases rule: less_8E) (auto simp: scaled_def bit_simps)
qed

lemma xtime_powers:
  "xtime 1 = 2" "xtime 2 = 4" "xtime 4 = 8" "xtime 8 = 16" "xtime 16 = 32" "xtime 32 = 64"
  "xtime 64 = 128" "xtime 128 = 27"
  by (simp_all add: xtime_def)

text \<open>Every byte is reached from 1 by doubling and adding.\<close>

lemma gf_induct [case_names One Double Add]:
  assumes "P 1" and double: "\<And>a. P a \<Longrightarrow> P (xtime a)" and add: "\<And>a b. P a \<Longrightarrow> P b \<Longrightarrow> P (a XOR b)"
  shows "P a"
proof -
  have "P 0" using add [OF \<open>P 1\<close> \<open>P 1\<close>] by simp
  then have sc: "P x \<Longrightarrow> P (scaled p x)" for p x
    by (cases p) simp_all
  have "P 2" using double [OF \<open>P 1\<close>] by (simp add: xtime_powers)
  moreover from this have "P 4" using double [of 2] by (simp add: xtime_powers)
  moreover from this have "P 8" using double [of 4] by (simp add: xtime_powers)
  moreover from this have "P 16" using double [of 8] by (simp add: xtime_powers)
  moreover from this have "P 32" using double [of 16] by (simp add: xtime_powers)
  moreover from this have "P 64" using double [of 32] by (simp add: xtime_powers)
  moreover from this have "P 128" using double [of 64] by (simp add: xtime_powers)
  ultimately show ?thesis
    using \<open>P 1\<close> by (subst byte_bits) (intro add sc)
qed

lemma xtime_8:
  "xtime (xtime (xtime (xtime (xtime (xtime (xtime (xtime a))))))) =
     xtime (xtime (xtime (xtime a))) XOR xtime (xtime (xtime a)) XOR xtime a XOR a"
proof (induction a rule: gf_induct)
  case One
  show ?case by (simp add: xtime_def)
next
  case (Double a)
  then show ?case by (simp add: xtime_xor)
next
  case (Add a b)
  then show ?case by (simp add: xtime_xor xor.assoc xor.left_commute)
qed

section \<open>Multiplication\<close>

lemma gf_mul_xor_left: "gf_mul (a XOR b) c = gf_mul a c XOR gf_mul b c"
  by (simp only: gf_mul_eq xtime_xor scaled_xor xor.assoc xor.left_commute)

lemma gf_mul_xor_right: "gf_mul a (b XOR c) = gf_mul a b XOR gf_mul a c"
  by (simp only: gf_mul_eq bit_xor_iff scaled_xor_cond xor.assoc xor.left_commute)

lemma gf_mul_1 [simp]: "gf_mul a 1 = a"
  by (simp add: gf_mul_eq bit_simps)

lemma gf_mul_0 [simp]: "gf_mul a 0 = 0"
  by (simp add: gf_mul_eq)

lemma gf_mul_1_left [simp]: "gf_mul 1 a = a"
  using byte_bits [of a] by (simp add: gf_mul_eq xtime_powers)

lemma gf_mul_0_left [simp]: "gf_mul 0 a = 0"
  by (simp add: gf_mul_eq)

lemma gf_mul_xtime_left: "gf_mul (xtime a) b = xtime (gf_mul a b)"
  by (simp only: gf_mul_eq xtime_xor xtime_scaled)

lemma gf_mul_2: "gf_mul a 2 = xtime a"
  by (simp add: gf_mul_eq bit_simps)

lemma bit_xtime:
  "bit (xtime a) 0 = bit a 7" "bit (xtime a) 1 = (bit a 0 \<noteq> bit a 7)" "bit (xtime a) 2 = bit a 1"
  "bit (xtime a) 3 = (bit a 2 \<noteq> bit a 7)" "bit (xtime a) 4 = (bit a 3 \<noteq> bit a 7)"
  "bit (xtime a) 5 = bit a 4" "bit (xtime a) 6 = bit a 5" "bit (xtime a) 7 = bit a 6"
  unfolding xtime_eq bit_xor_iff bit_push_bit_iff by (simp_all add: bit_simps)

lemma gf_mul_xtime_right: "gf_mul a (xtime b) = xtime (gf_mul a b)"
  by (cases "bit b 7")
    (simp_all only: gf_mul_eq [of _ "xtime b"] gf_mul_eq [of _ b] bit_xtime xtime_xor xtime_scaled xtime_8
      scaled_xor_cond scaled_simps scaled_xor xor.assoc xor.left_commute xor.commute xor.right_neutral xor.left_neutral)

lemma gf_mul_commute: "gf_mul a b = gf_mul b a"
  by (induction a rule: gf_induct)
    (simp_all add: gf_mul_xtime_left gf_mul_xtime_right gf_mul_xor_left gf_mul_xor_right)

lemma gf_mul_assoc: "gf_mul (gf_mul a b) c = gf_mul a (gf_mul b c)"
  by (induction a rule: gf_induct) (simp_all add: gf_mul_xtime_left gf_mul_xor_left)

section \<open>Inverses\<close>

lemma gf_power_loop_mul: "gf_power_loop n a (gf_mul r s) = gf_mul r (gf_power_loop n a s)"
  by (induction n arbitrary: s) (simp_all add: gf_mul_assoc)

definition gf_pow :: "u8 \<Rightarrow> nat \<Rightarrow> u8" where
  "gf_pow a n = gf_power_loop n a 1"

lemma gf_pow_0 [simp]: "gf_pow a 0 = 1"
  by (simp add: gf_pow_def)

lemma gf_pow_Suc: "gf_pow a (Suc n) = gf_mul a (gf_pow a n)"
  using gf_power_loop_mul [of n a a 1] by (simp add: gf_pow_def)

lemma gf_pow_add: "gf_pow a (m + n) = gf_mul (gf_pow a m) (gf_pow a n)"
  by (induction m) (simp_all add: gf_pow_Suc gf_mul_assoc)

text \<open>Squaring is additive and multiplicative; eight squarings give every byte back.\<close>

definition square :: "u8 \<Rightarrow> u8" where
  "square a = gf_mul a a"

lemma square_xor: "square (a XOR b) = square a XOR square b"
proof -
  have "square (a XOR b) = square a XOR (gf_mul a b XOR gf_mul b a) XOR square b"
    by (simp only: square_def gf_mul_xor_left gf_mul_xor_right xor.assoc xor.left_commute)
  then show ?thesis
    by (simp add: gf_mul_commute [of b a])
qed

lemma square_mul: "square (gf_mul a b) = gf_mul (square a) (square b)"
  unfolding square_def by (metis gf_mul_assoc gf_mul_commute)

lemma square_8: "square (square (square (square (square (square (square (square a))))))) = a"
proof (induction a rule: gf_induct)
  case One
  show ?case by (simp add: square_def)
next
  case (Double a)
  have two: "square (square (square (square (square (square (square (square 2))))))) = 2"
    by (simp add: square_def gf_mul_eq xtime_def scaled_def bit_simps)
  have "xtime a = gf_mul a 2" by (simp add: gf_mul_2)
  with Double two show ?case by (simp only: square_mul)
next
  case (Add a b)
  then show ?case by (simp only: square_xor)
qed

lemma square_fixed: "square e = e \<Longrightarrow> e = 0 \<or> e = 1"
proof -
  assume fixed: "square e = e"
  have sc: "square (scaled p x) = scaled p (square x)" for p x
    by (cases p) (simp_all add: square_def)
  have powers: "square 1 = 1" "square 2 = 4" "square 4 = 16" "square 8 = 64" "square 16 = 27" "square 32 = 108"
    "square 64 = 171" "square 128 = 154"
    by (simp_all add: square_def gf_mul_eq xtime_def scaled_def bit_simps)
  have "square e = scaled (bit e 0) 1 XOR scaled (bit e 1) 4 XOR scaled (bit e 2) 16 XOR scaled (bit e 3) 64 XOR
     scaled (bit e 4) 27 XOR scaled (bit e 5) 108 XOR scaled (bit e 6) 171 XOR scaled (bit e 7) 154"
    by (subst byte_bits [of e]) (simp only: square_xor sc powers)
  then have "bit e n = bit (scaled (bit e 0) 1 XOR scaled (bit e 1) 4 XOR scaled (bit e 2) 16 XOR scaled (bit e 3) 64 XOR
     scaled (bit e 4) 27 XOR scaled (bit e 5) 108 XOR scaled (bit e 6) 171 XOR scaled (bit e 7) 154) n" for n
    by (simp only: fixed)
  then have n: "bit (scaled (bit e 0) 1 XOR scaled (bit e 1) 4 XOR scaled (bit e 2) 16 XOR scaled (bit e 3) 64 XOR
     scaled (bit e 4) 27 XOR scaled (bit e 5) 108 XOR scaled (bit e 6) 171 XOR scaled (bit e 7) 154) n = bit e n" for n
    by (rule sym)
  have b: "bit (scaled p x) n = (p \<and> bit x n)" for p x n
    by (cases p) simp_all
  have "\<not> bit e 1 \<and> \<not> bit e 2 \<and> \<not> bit e 3 \<and> \<not> bit e 4 \<and> \<not> bit e 5 \<and> \<not> bit e 6 \<and> \<not> bit e 7"
    using n [of 0] n [of 1] n [of 2] n [of 3] n [of 4] n [of 5] n [of 6] n [of 7]
    unfolding bit_xor_iff b by simp argo
  then show ?thesis
    using byte_bits [of e] by (cases "bit e 0") simp_all
qed

lemma gf_pow_256: "gf_pow a 256 = a"
proof -
  have dbl: "gf_pow a (2 * n) = square (gf_pow a n)" for n
    by (simp add: mult_2 gf_pow_add square_def)
  have "gf_pow a 256 = gf_pow a (2 * (2 * (2 * (2 * (2 * (2 * (2 * (2 * 1))))))))"
    by simp
  also have "\<dots> = a"
    unfolding dbl by (simp add: square_8 gf_pow_Suc)
  finally show ?thesis .
qed

lemma gf_pow_255: "a \<noteq> 0 \<Longrightarrow> gf_pow a 255 = 1"
proof -
  have *: "gf_mul a (gf_pow a 255) = a"
    using gf_pow_Suc [of a 255] gf_pow_256 [of a] by simp
  have "gf_mul (gf_pow a 254) (gf_pow a 256) = gf_pow a (255 + 255)"
    by (simp flip: gf_pow_add)
  then have "square (gf_pow a 255) = gf_pow a (254 + 1)"
    unfolding gf_pow_add square_def by (simp add: gf_pow_256 gf_pow_Suc)
  then have "square (gf_pow a 255) = gf_pow a 255" by simp
  then have "gf_pow a 255 = 0 \<or> gf_pow a 255 = 1" by (rule square_fixed)
  with * show "a \<noteq> 0 \<Longrightarrow> ?thesis" by auto
qed

lemma gf_inverse_0 [simp]: "gf_inverse 0 = 0"
  by (simp add: gf_inverse_def)

lemma gf_mul_inverse: "a \<noteq> 0 \<Longrightarrow> gf_mul (gf_inverse a) a = 1"
  using gf_pow_255 [of a] gf_pow_Suc [of a 254]
  by (simp add: gf_inverse_def gf_pow_def [symmetric] gf_mul_commute)

section \<open>The field\<close>

typedef gf256 = "UNIV :: u8 set"
  morphisms byte_of gf_of
  by simp

setup_lifting type_definition_gf256

instantiation gf256 :: field
begin

lift_definition zero_gf256 :: gf256 is 0 .
lift_definition one_gf256 :: gf256 is 1 .
lift_definition plus_gf256 :: "gf256 \<Rightarrow> gf256 \<Rightarrow> gf256" is gf_add .
lift_definition minus_gf256 :: "gf256 \<Rightarrow> gf256 \<Rightarrow> gf256" is gf_add .
lift_definition uminus_gf256 :: "gf256 \<Rightarrow> gf256" is "\<lambda>a. a" .
lift_definition times_gf256 :: "gf256 \<Rightarrow> gf256 \<Rightarrow> gf256" is gf_mul .
lift_definition inverse_gf256 :: "gf256 \<Rightarrow> gf256" is gf_inverse .
lift_definition divide_gf256 :: "gf256 \<Rightarrow> gf256 \<Rightarrow> gf256" is gf_div .

instance
proof
  fix a b c :: gf256
  show "a * b * c = a * (b * c)" by transfer (rule gf_mul_assoc)
  show "a * b = b * a" by transfer (rule gf_mul_commute)
  show "1 * a = a" by transfer simp
  show "a + b + c = a + (b + c)" by transfer (simp add: gf_add_def xor.assoc)
  show "a + b = b + a" by transfer (simp add: gf_add_def xor.commute)
  show "0 + a = a" by transfer (simp add: gf_add_def)
  show "- a + a = 0" by transfer (simp add: gf_add_def)
  show "a - b = a + - b" by transfer (simp add: gf_add_def)
  show "(a + b) * c = a * c + b * c" by transfer (simp add: gf_add_def gf_mul_xor_left)
  show "(0 :: gf256) \<noteq> 1" by transfer simp
  show "a \<noteq> 0 \<Longrightarrow> inverse a * a = 1" by transfer (rule gf_mul_inverse)
  show "a div b = a * inverse b" by transfer (simp add: gf_div_def)
  show "inverse (0 :: gf256) = 0" by transfer simp
qed

end

lemma gf256_minus_plus: "a - b = a + (b :: gf256)"
  by transfer (rule refl)

lemma gf_of_eq_iff [simp]: "gf_of a = gf_of b \<longleftrightarrow> a = b"
  by (simp add: gf_of_inject)

lemma gf_of_arith:
  "gf_of 0 = 0" "gf_of 1 = 1" "gf_of (gf_add a b) = gf_of a + gf_of b"
  "gf_of (gf_mul a b) = gf_of a * gf_of b" "gf_of (gf_div a b) = gf_of a / gf_of b"
  by (simp_all add: zero_gf256.abs_eq one_gf256.abs_eq plus_gf256.abs_eq times_gf256.abs_eq divide_gf256.abs_eq)

lemma gf_of_eq_0 [simp]: "gf_of a = 0 \<longleftrightarrow> a = 0"
  by (metis gf_of_arith(1) gf_of_eq_iff)

lemma byte_of_gf_of [simp]: "byte_of (gf_of a) = a"
  by (simp add: gf_of_inverse)

lemma gf_of_byte_of [simp]: "gf_of (byte_of a) = a"
  by (rule byte_of_inverse)

section \<open>Properties\<close>

text \<open>
  The byte loops are the arithmetic of a field of characteristic two: multiplication is
  commutative, associative and distributes over addition, and the 254-fold product that
  \<open>inverse\<close> computes is the inverse of every non-zero byte, so that division undoes
  multiplication. The FIPS-197 product pins down which field it is.
\<close>

lemma gf_field_laws:
  "gf_mul a b = gf_mul b a \<and>
   gf_mul (gf_mul a b) c = gf_mul a (gf_mul b c) \<and>
   gf_mul a (gf_add b c) = gf_add (gf_mul a b) (gf_mul a c) \<and>
   gf_mul a (gf_inverse a) = (if a = 0 then 0 else 1) \<and>
   gf_div (gf_mul a b) b = (if b = 0 then 0 else a) \<and>
   gf_mul 0x57 0x83 = 0xC1"
proof (intro conjI)
  show inv: "gf_mul a (gf_inverse a) = (if a = 0 then 0 else 1)" for a
    using gf_mul_inverse [of a] by (simp add: gf_mul_commute)
  show "gf_div (gf_mul a b) b = (if b = 0 then 0 else a)"
    by (simp add: gf_div_def gf_mul_assoc inv)
  show "gf_mul a (gf_add b c) = gf_add (gf_mul a b) (gf_mul a c)"
    by (simp add: gf_add_def gf_mul_xor_right)
  show "gf_mul 0x57 0x83 = 0xC1"
    by (simp add: gf_mul_eq xtime_def scaled_def bit_simps)
qed (rule gf_mul_commute, rule gf_mul_assoc)

end
