(* ===== verification/Shamir.thy ===== *)
theory Shamir
  imports Encoding GF256 World
begin

text \<open>
  \<open>ls-core/src/crypto/shamir.rs\<close>: sharing a secret byte by byte with random polynomials over
  GF(2^8), recombining it by Lagrange interpolation at 0, and the printed form of a share.
  SHA-256 is a parameter: any function from bytes to bytes.

  The interpolation is proved for an arbitrary field, by induction over the coefficients, and
  applied to the field instance of bytes.
\<close>

section \<open>The code\<close>

datatype shamir_error =
    ThresholdTooLow
  | ThresholdAboveShareCount u8 u8
  | EmptySecret
  | NotEnoughShares
  | DuplicateIndex u8
  | LengthMismatch
  | MalformedShare
  | ChecksumMismatch
  | ShamirEntropy

record share =
  share_index :: u8
  share_data :: bytes

type_synonym sha256 = "bytes \<Rightarrow> bytes"

definition share_prefix :: str where
  "share_prefix = ''lss1''"

definition checksum_len :: nat where
  "checksum_len = 4"

definition checksum :: "sha256 \<Rightarrow> u8 \<Rightarrow> bytes \<Rightarrow> bytes" where
  "checksum sha index data = take checksum_len (sha (as_bytes share_prefix @ [index] @ data))"

definition print_share :: "sha256 \<Rightarrow> share \<Rightarrow> str" where
  "print_share sha s =
     share_prefix @ ''.'' @ show_nat (unat (share_index s)) @ ''.'' @ b64_encode (share_data s) @ ''.'' @
     hex_encode (checksum sha (share_index s) (share_data s))"

definition parse_share :: "sha256 \<Rightarrow> str \<Rightarrow> shamir_error + share" where
  "parse_share sha printed =
     (let parts = split_on (CHR ''.'') (trim printed) in
      if length parts \<noteq> 4 \<or> parts ! 0 \<noteq> share_prefix then Inl MalformedShare
      else and_then (ok_or MalformedShare (parse_unsigned 255 (parts ! 1))) (\<lambda>n.
        let index = of_nat n in
        if index = 0 then Inl MalformedShare
        else and_then (ok_or MalformedShare (b64_decode (parts ! 2))) (\<lambda>data.
          if data = [] then Inl MalformedShare
          else and_then (ok_or MalformedShare (hex_decode (parts ! 3))) (\<lambda>supplied.
            if length supplied \<noteq> checksum_len then Inl MalformedShare
            else if supplied \<noteq> checksum sha index data then Inl ChecksumMismatch
            else Inr \<lparr>share_index = index, share_data = data\<rparr>))))"

definition evaluate :: "u8 \<Rightarrow> bytes \<Rightarrow> u8 \<Rightarrow> u8" where
  "evaluate constant coefficients x =
     (let acc = fold (\<lambda>c acc. gf_add (gf_mul acc x) c) (rev coefficients) 0
      in gf_add (gf_mul acc x) constant)"

text \<open>The share at one index: every byte's own polynomial, evaluated there.\<close>

definition share_at :: "bytes \<Rightarrow> nat \<Rightarrow> bytes \<Rightarrow> u8 \<Rightarrow> share" where
  "share_at secret degree coefficients index =
     \<lparr>share_index = index,
      share_data = map (\<lambda>pos. evaluate (secret ! pos) (take degree (drop (pos * degree) coefficients)) index)
        [0..<length secret]\<rparr>"

definition shamir_split :: "bytes \<Rightarrow> u8 \<Rightarrow> u8 \<Rightarrow> (shamir_error, share list) io" where
  "shamir_split secret threshold shares =
     (if threshold < 1 then fail ThresholdTooLow
      else if threshold > shares then fail (ThresholdAboveShareCount threshold shares)
      else if secret = [] then fail EmptySecret
      else
        (let degree = unat (threshold - 1);
             n = length secret * degree
         in bindio (if n \<noteq> 0 then mapE (\<lambda>_. ShamirEntropy) (random_fill n) else ret []) (\<lambda>coefficients.
            ret (map (\<lambda>i. share_at secret degree coefficients (of_nat i)) [1..<Suc (unat shares)]))))"

fun check_shares :: "nat \<Rightarrow> share list \<Rightarrow> share list \<Rightarrow> shamir_error + unit" where
  "check_shares n before [] = Inr ()"
| "check_shares n before (s # ss) =
     (if length (share_data s) \<noteq> n then Inl LengthMismatch
      else if list_ex (\<lambda>b. share_index b = share_index s) before then Inl (DuplicateIndex (share_index s))
      else check_shares n (before @ [s]) ss)"

definition basis :: "share list \<Rightarrow> nat \<Rightarrow> u8" where
  "basis shares i =
     fold (\<lambda>j b. if i = j then b
                 else gf_mul b (gf_div (share_index (shares ! j))
                        (gf_add (share_index (shares ! i)) (share_index (shares ! j)))))
       [0..<length shares] 1"

definition interpolate :: "share list \<Rightarrow> nat \<Rightarrow> u8" where
  "interpolate shares pos =
     fold (\<lambda>i acc. gf_add acc (gf_mul (share_data (shares ! i) ! pos) (basis shares i)))
       [0..<length shares] 0"

definition combine :: "share list \<Rightarrow> shamir_error + bytes" where
  "combine shares =
     (case shares of
        [] \<Rightarrow> Inl NotEnoughShares
      | first # _ \<Rightarrow>
          (let n = length (share_data first)
           in and_then (check_shares n [] shares) (\<lambda>_. Inr (map (interpolate shares) [0..<n]))))"

section \<open>Interpolation at zero, in any field\<close>

fun horner :: "'a :: field list \<Rightarrow> 'a \<Rightarrow> 'a" where
  "horner [] x = 0"
| "horner (c # cs) x = c + x * horner cs x"

definition lagrange0 :: "'a :: field set \<Rightarrow> ('a \<Rightarrow> 'a) \<Rightarrow> 'a" where
  "lagrange0 X f = (\<Sum>x\<in>X. f x * (\<Prod>y\<in>X - {x}. y / (y - x)))"

lemma lagrange0_add: "lagrange0 X (\<lambda>x. f x + g x) = lagrange0 X f + lagrange0 X g"
  by (simp add: lagrange0_def sum.distrib distrib_right)

lemma lagrange0_scale: "lagrange0 X (\<lambda>x. c * f x) = c * lagrange0 X f"
  by (simp add: lagrange0_def sum_distrib_left mult.assoc)

lemma mult_regroup: "d * q * (e * r) = d * e * (q * r)" for d :: "'a :: field"
  by (simp only: mult.assoc mult.left_commute)

lemma lagrange0_remove:
  assumes "finite X" and "a \<in> X"
  shows "lagrange0 X (\<lambda>x. (x - a) * q x) = - a * lagrange0 (X - {a}) q"
proof -
  have term1: "(x - a) * q x * (\<Prod>y\<in>X - {x}. y / (y - x)) = - a * (q x * (\<Prod>y\<in>X - {a} - {x}. y / (y - x)))"
    if "x \<in> X - {a}" for x
  proof -
    have "(\<Prod>y\<in>X - {x}. y / (y - x)) = a / (a - x) * (\<Prod>y\<in>X - {x} - {a}. y / (y - x))"
      using assms that by (intro prod.remove) auto
    moreover have "X - {x} - {a} = X - {a} - {x}" by auto
    moreover have neg: "(x - a) * (a / (a - x)) = - a"
    proof -
      have "x - a = - (a - x)" "a - x \<noteq> 0" using that by auto
      then show ?thesis by (simp only: mult_minus_left) simp
    qed
    ultimately show ?thesis
      by (simp only: mult_regroup [of "x - a" "q x" "a / (a - x)"])
  qed
  have "lagrange0 X (\<lambda>x. (x - a) * q x) = (\<Sum>x\<in>X - {a}. (x - a) * q x * (\<Prod>y\<in>X - {x}. y / (y - x)))"
    using assms by (simp add: lagrange0_def sum.remove [of X a])
  also have "\<dots> = (\<Sum>x\<in>X - {a}. - a * (q x * (\<Prod>y\<in>X - {a} - {x}. y / (y - x))))"
    by (rule sum.cong) (use term1 in auto)
  also have "\<dots> = - a * lagrange0 (X - {a}) q"
    by (simp add: lagrange0_def sum_distrib_left)
  finally show ?thesis .
qed

lemma lagrange0_1:
  assumes "finite X" and "X \<noteq> {}"
  shows "lagrange0 X (\<lambda>_. 1) = 1"
  using assms
proof (induction "card X" arbitrary: X rule: less_induct)
  case less
  then obtain a where a: "a \<in> X" by blast
  show ?case
  proof (cases "X = {a}")
    case True
    then show ?thesis by (simp add: lagrange0_def)
  next
    case False
    with a obtain b where b: "b \<in> X" "b \<noteq> a" by blast
    have one: "lagrange0 (X - {c}) (\<lambda>_. 1) = 1" if "c \<in> {a, b}" for c
      using less.prems a b that by (intro less.hyps) (auto intro: psubset_card_mono)
    have rem: "lagrange0 X (\<lambda>x. x - c) = - c" if "c \<in> {a, b}" for c
      using lagrange0_remove [of X c "\<lambda>_. 1"] one [OF that] less.prems a b that by auto
    have "(b - a) * lagrange0 X (\<lambda>_. 1) = lagrange0 X (\<lambda>x. (x - a) + (- 1) * (x - b))"
      unfolding lagrange0_scale [symmetric] by (rule arg_cong [where f = "lagrange0 X"]) (auto simp: fun_eq_iff)
    also have "\<dots> = (b - a) * 1"
      unfolding lagrange0_add lagrange0_scale by (simp add: rem)
    finally show ?thesis using b by simp
  qed
qed

theorem lagrange0_horner:
  assumes "finite X" and "X \<noteq> {}" and "length cs \<le> card X"
  shows "lagrange0 X (horner cs) = horner cs 0"
  using assms
proof (induction cs arbitrary: X)
  case Nil
  then show ?case by (simp add: lagrange0_def)
next
  case (Cons c cs)
  then obtain a where a: "a \<in> X" by blast
  let ?q = "horner cs"
  have shrunk: "- a * lagrange0 (X - {a}) ?q = - a * horner cs 0"
  proof (cases "cs = []")
    case True
    then show ?thesis by (simp add: lagrange0_def)
  next
    case False
    with Cons.prems a have "length cs \<le> card (X - {a})" "0 < card (X - {a})"
      by (auto simp: card_Diff_singleton Suc_le_eq) (use False in \<open>cases cs; simp\<close>)
    then have "length cs \<le> card (X - {a})" "X - {a} \<noteq> {}"
      by (simp_all only: card_gt_0_iff) simp_all
    with Cons show ?thesis by simp
  qed
  have "horner (c # cs) = (\<lambda>x. c * 1 + ((x - a) * ?q x + a * ?q x))"
    by (auto simp: fun_eq_iff algebra_simps)
  then have "lagrange0 X (horner (c # cs)) = c * lagrange0 X (\<lambda>_. 1) + (- a * lagrange0 (X - {a}) ?q + a * lagrange0 X ?q)"
    using Cons.prems a by (simp only: lagrange0_add lagrange0_scale lagrange0_remove)
  also have "\<dots> = c"
    using Cons.prems shrunk Cons.IH [of X] by (auto simp: lagrange0_1)
  also have "c = horner (c # cs) 0" by simp
  finally show ?case .
qed

section \<open>Splitting and combining\<close>

lemma gf_of_evaluate: "gf_of (evaluate k cs x) = horner (map gf_of (k # cs)) (gf_of x)"
proof -
  have "gf_of (fold (\<lambda>c acc. gf_add (gf_mul acc x) c) (rev cs) 0) = horner (map gf_of cs) (gf_of x)"
    unfolding foldr_conv_fold [symmetric]
    by (induction cs) (simp_all add: gf_of_arith algebra_simps)
  then show ?thesis
    by (simp add: evaluate_def gf_of_arith algebra_simps)
qed

lemma gf_of_fold_mul:
  "gf_of (fold (\<lambda>j b. if i = j then b else gf_mul b (g j)) js b) =
     gf_of b * prod_list (map (\<lambda>j. gf_of (g j)) (filter (\<lambda>j. j \<noteq> i) js))"
  by (induction js arbitrary: b) (simp_all add: gf_of_arith mult.assoc)

lemma gf_of_fold_add:
  "gf_of (fold (\<lambda>i acc. gf_add acc (g i)) js b) = gf_of b + sum_list (map (\<lambda>i. gf_of (g i)) js)"
  by (induction js arbitrary: b) (simp_all add: gf_of_arith add.assoc)

definition point :: "share list \<Rightarrow> nat \<Rightarrow> gf256" where
  "point shares i = gf_of (share_index (shares ! i))"

definition points :: "share list \<Rightarrow> gf256 set" where
  "points shares = point shares ` {..<length shares}"

lemma point_inj: "distinct (map share_index shares) \<Longrightarrow> inj_on (point shares) {..<length shares}"
  by (auto simp: inj_on_def point_def distinct_conv_nth)

lemma card_points: "distinct (map share_index shares) \<Longrightarrow> card (points shares) = length shares"
  by (simp add: points_def card_image point_inj)

lemma gf_of_basis:
  assumes "distinct (map share_index shares)" and "i < length shares"
  shows "gf_of (basis shares i) = (\<Prod>y\<in>points shares - {point shares i}. y / (y - point shares i))"
proof -
  let ?g = "\<lambda>j. point shares j / (point shares i + point shares j)"
  have "gf_of (basis shares i) = prod_list (map ?g (filter (\<lambda>j. j \<noteq> i) [0..<length shares]))"
    by (simp add: basis_def gf_of_fold_mul gf_of_arith point_def)
  also have "\<dots> = (\<Prod>j\<in>{..<length shares} - {i}. ?g j)"
    by (subst prod.distinct_set_conv_list [symmetric]) (auto intro: prod.cong)
  also have "\<dots> = (\<Prod>j\<in>{..<length shares} - {i}. point shares j / (point shares j - point shares i))"
    by (simp add: gf256_minus_plus add.commute)
  also have "\<dots> = (\<Prod>y\<in>point shares ` ({..<length shares} - {i}). y / (y - point shares i))"
    by (subst prod.reindex) (auto intro: inj_on_subset [OF point_inj [OF assms(1)]])
  also have "point shares ` ({..<length shares} - {i}) = points shares - {point shares i}"
    using inj_on_image_set_diff [OF point_inj [OF assms(1)], of "{..<length shares}" "{i}"] assms(2)
    by (simp add: points_def)
  finally show ?thesis .
qed

lemma gf_of_interpolate:
  assumes "distinct (map share_index shares)"
    and "\<And>i. i < length shares \<Longrightarrow> gf_of (share_data (shares ! i) ! pos) = f (point shares i)"
  shows "gf_of (interpolate shares pos) = lagrange0 (points shares) f"
proof -
  let ?b = "\<lambda>x. \<Prod>y\<in>points shares - {x}. y / (y - x)"
  have "gf_of (interpolate shares pos) = (\<Sum>i\<leftarrow>[0..<length shares]. gf_of (share_data (shares ! i) ! pos) * gf_of (basis shares i))"
    by (simp add: interpolate_def gf_of_fold_add gf_of_arith)
  also have "\<dots> = (\<Sum>i\<in>{..<length shares}. gf_of (share_data (shares ! i) ! pos) * gf_of (basis shares i))"
    by (subst sum.distinct_set_conv_list [symmetric]) (auto intro: sum.cong)
  also have "\<dots> = (\<Sum>i\<in>{..<length shares}. f (point shares i) * ?b (point shares i))"
    by (rule sum.cong) (simp_all add: assms gf_of_basis)
  also have "\<dots> = lagrange0 (points shares) f"
    unfolding lagrange0_def points_def by (subst sum.reindex) (simp_all add: point_inj assms(1))
  finally show ?thesis .
qed

lemma disjoint_step:
  "i \<notin> B \<Longrightarrow> (B \<union> {i}) \<inter> S = {} \<longleftrightarrow> i \<notin> S \<and> B \<inter> insert i S = {}"
  by auto

lemma check_shares_ok:
  "check_shares n before ss = Inr () \<longleftrightarrow>
     (\<forall>s\<in>set ss. length (share_data s) = n) \<and> distinct (map share_index ss) \<and>
     share_index ` set before \<inter> share_index ` set ss = {}"
proof (induction n before ss rule: check_shares.induct)
  case (2 n before s ss)
  show ?case
  proof (cases "length (share_data s) = n \<and> \<not> list_ex (\<lambda>b. share_index b = share_index s) before")
    case True
    with 2 have e: "check_shares n before (s # ss) = Inr () \<longleftrightarrow> (\<forall>s\<in>set ss. length (share_data s) = n) \<and>
        distinct (map share_index ss) \<and> share_index ` set (before @ [s]) \<inter> share_index ` set ss = {}"
      by (simp only: check_shares.simps if_False if_True not_not simp_thms)
    have d: "length (share_data s) = n" "share_index s \<notin> share_index ` set before"
      using True by (auto simp: list_ex_iff)
    show ?thesis
      unfolding e set_append list.set image_Un image_insert image_empty list.map distinct.simps ball_simps set_map
        disjoint_step [OF d(2)]
      using d by simp argo
  next
    case False
    then show ?thesis by (auto simp: list_ex_iff) (metis imageI)
  qed
qed simp

lemma combine_ok:
  assumes "ss \<noteq> []" and "\<And>s. s \<in> set ss \<Longrightarrow> length (share_data s) = n" and "distinct (map share_index ss)"
  shows "combine ss = Inr (map (interpolate ss) [0..<n])"
proof (cases ss)
  case Nil
  with assms show ?thesis by simp
next
  case (Cons s rest)
  have "check_shares n [] ss = Inr ()"
    using assms by (simp add: check_shares_ok)
  with Cons assms(2) [of s] show ?thesis
    by (simp add: combine_def)
qed

text \<open>What a split that succeeds returns.\<close>

lemma shamir_split_Inr:
  assumes "shamir_split secret t n w = (Inr shares, w')"
  obtains cs where "shares = map (\<lambda>i. share_at secret (unat (t - 1)) cs (of_nat i)) [1..<Suc (unat n)]"
    and "length cs = length secret * unat (t - 1)" and "1 \<le> t" and "t \<le> n" and "secret \<noteq> []"
proof -
  have "\<not> (t < 1 \<or> n < t \<or> secret = [])"
    using assms by (intro notI, elim disjE) (simp_all add: shamir_split_def fail_apply split: if_splits)
  then have c: "secret \<noteq> []" "1 \<le> t" "t \<le> n"
    by (simp_all only: de_Morgan_disj not_less simp_thms)
  with assms obtain cs where "shares = map (\<lambda>i. share_at secret (unat (t - 1)) cs (of_nat i)) [1..<Suc (unat n)]"
    and "length cs = length secret * unat (t - 1)"
    by (auto simp: shamir_split_def Let_def bindio_eq_Inr mapE_eq_Inr ret_apply not_less split: if_splits
        dest!: random_fill_length)
  with c that show thesis by blast
qed

lemma share_at_data:
  "pos < length secret \<Longrightarrow> share_data (share_at secret d cs x) ! pos = evaluate (secret ! pos) (take d (drop (pos * d) cs)) x"
  by (simp add: share_at_def)

lemma share_at_simps [simp]:
  "share_index (share_at secret d cs x) = x" "length (share_data (share_at secret d cs x)) = length secret"
  by (simp_all add: share_at_def)

lemma combine_split_shares:
  assumes sel: "\<And>s. s \<in> set sel \<Longrightarrow> \<exists>x. s = share_at secret d cs x"
    and dist: "distinct (map share_index sel)" and enough: "d < length sel"
  shows "combine sel = Inr secret"
proof -
  from enough have "sel \<noteq> []" by auto
  have "interpolate sel pos = secret ! pos" if pos: "pos < length secret" for pos
  proof -
    let ?k = "secret ! pos # take d (drop (pos * d) cs)"
    have "gf_of (share_data (sel ! i) ! pos) = horner (map gf_of ?k) (point sel i)" if i: "i < length sel" for i
    proof -
      obtain x where x: "sel ! i = share_at secret d cs x" using sel [OF nth_mem [OF i]] by blast
      show ?thesis
        unfolding point_def x using pos by (simp add: share_at_data gf_of_evaluate)
    qed
    then have "gf_of (interpolate sel pos) = lagrange0 (points sel) (horner (map gf_of ?k))"
      by (rule gf_of_interpolate [OF dist])
    also have "\<dots> = horner (map gf_of ?k) 0"
    proof (rule lagrange0_horner)
      show "points sel \<noteq> {}" using \<open>sel \<noteq> []\<close> by (auto simp: points_def)
    qed (use enough in \<open>auto simp: card_points dist points_def [symmetric]\<close>, simp add: points_def)
    finally show ?thesis by simp
  qed
  then have "map (interpolate sel) [0..<length secret] = secret"
    by (intro nth_equalityI) simp_all
  moreover have "combine sel = Inr (map (interpolate sel) [0..<length secret])"
    using sel by (intro combine_ok \<open>sel \<noteq> []\<close> dist) fastforce
  ultimately show ?thesis by simp
qed

lemma of_nat_u8_inj: "i < 256 \<Longrightarrow> j < 256 \<Longrightarrow> (of_nat i :: u8) = of_nat j \<longleftrightarrow> i = j"
  by (auto simp: word_unat_eq_iff unat_of_nat)

lemma split_indices:
  assumes "shamir_split secret t n w = (Inr shares, w')"
  shows "map share_index shares = map of_nat [1..<Suc (unat n)]" and "distinct (map share_index shares)"
    and "\<And>s. s \<in> set shares \<Longrightarrow> share_index s \<noteq> 0"
proof -
  have le: "unat n < 256" using unsigned_less [of n] by simp
  obtain cs where *: "shares = map (\<lambda>i. share_at secret (unat (t - 1)) cs (of_nat i)) [1..<Suc (unat n)]"
    by (rule shamir_split_Inr [OF assms])
  show eq: "map share_index shares = map of_nat [1..<Suc (unat n)]"
    unfolding * map_map by (rule map_cong) auto
  show "distinct (map share_index shares)"
    unfolding eq distinct_map
    using le by (auto simp: inj_on_def of_nat_u8_inj simp del: upt_Suc)
  show "share_index s \<noteq> 0" if "s \<in> set shares" for s
    using that le of_nat_u8_inj [of _ 0] by (auto simp: * simp del: upt_Suc)
qed

section \<open>Fewer shares say nothing\<close>

lemma horner_zero:
  assumes "finite X" and "0 \<notin> X" and "length cs \<le> card X" and "\<And>x. x \<in> X \<Longrightarrow> horner cs x = 0"
  shows "cs = replicate (length cs) 0"
  using assms(3,4)
proof (induction cs)
  case (Cons c cs)
  then have "X \<noteq> {}" by auto
  have "lagrange0 X (horner (c # cs)) = 0"
    using Cons.prems(2) by (simp add: lagrange0_def)
  moreover have "lagrange0 X (horner (c # cs)) = horner (c # cs) 0"
    by (rule lagrange0_horner [OF assms(1) \<open>X \<noteq> {}\<close> Cons.prems(1)])
  ultimately have "c = 0" by simp
  moreover have "horner cs x = 0" if "x \<in> X" for x
    using Cons.prems(2) [OF that] that assms(2) \<open>c = 0\<close> by auto
  ultimately show ?case
    using Cons.IH Cons.prems(1) by simp
qed simp

lemma horner_diff:
  "length cs = length ds \<Longrightarrow> horner (map2 (-) cs ds) x = horner cs x - horner ds x"
  by (induction cs ds rule: list_induct2) (simp_all add: right_diff_distrib)

lemma horner_inj:
  assumes "finite X" and "0 \<notin> X" and "length cs = length ds" and "length cs \<le> card X"
    and "\<And>x. x \<in> X \<Longrightarrow> horner cs x = horner ds x"
  shows "cs = ds"
proof -
  have "map2 (-) cs ds = replicate (length (map2 (-) cs ds)) 0"
    using assms by (intro horner_zero [of X]) (simp_all add: horner_diff)
  then show ?thesis
    using assms(3)
    by (intro nth_equalityI) (auto simp: list_eq_iff_nth_eq)
qed

lemma evaluate_inj:
  assumes "distinct xs" and "0 \<notin> set xs" and "length cs = length xs" and "length ds = length xs"
    and "map (evaluate k cs) xs = map (evaluate k ds) xs"
  shows "cs = ds"
proof -
  let ?X = "gf_of ` set xs"
  have "card ?X = length xs"
    using assms(1) by (simp add: card_image inj_on_def distinct_card)
  have "horner (map gf_of cs) x = horner (map gf_of ds) x" if "x \<in> ?X" for x
  proof -
    from that obtain y where y: "y \<in> set xs" "x = gf_of y" by blast
    with assms(5) have "gf_of (evaluate k cs y) = gf_of (evaluate k ds y)" by simp
    moreover have "x \<noteq> 0" using y assms(2) by auto
    ultimately show ?thesis by (simp add: gf_of_evaluate y)
  qed
  then have "map gf_of cs = map gf_of ds"
    using assms \<open>card ?X = length xs\<close> by (intro horner_inj [of ?X]) auto
  then show ?thesis
    by (metis inj_onI gf_of_eq_iff map_inj_on)
qed

lemma evaluate_unique:
  assumes "distinct xs" and "0 \<notin> set xs" and "length ys = length xs"
  shows "\<exists>!cs. length cs = length xs \<and> map (evaluate k cs) xs = ys"
proof -
  let ?L = "{cs :: bytes. length cs = length xs}" and ?f = "\<lambda>cs. map (evaluate k cs) xs"
  have "finite ?L"
    using finite_lists_length_eq [of "UNIV :: u8 set" "length xs"] by simp
  moreover have inj: "inj_on ?f ?L"
    using assms evaluate_inj by (auto simp: inj_on_def)
  moreover have "?f ` ?L \<subseteq> ?L" by auto
  ultimately have "?f ` ?L = ?L" by (intro endo_inj_surj)
  with assms(3) have "ys \<in> ?f ` ?L" by blast
  then show ?thesis
    using inj unfolding inj_on_def by blast
qed

text \<open>The coefficients of the whole secret are one block per byte.\<close>

definition block :: "nat \<Rightarrow> bytes \<Rightarrow> nat \<Rightarrow> bytes" where
  "block d cs pos = take d (drop (pos * d) cs)"

lemma block_concat:
  "(\<And>i. i < n \<Longrightarrow> length (f i) = d) \<Longrightarrow> pos < n \<Longrightarrow> block d (concat (map f [0..<n])) pos = f pos"
proof (induction n)
  case (Suc n)
  have "length (concat (map f [0..<n])) = n * d"
    using Suc.prems(1) by (induction n) auto
  then show ?case
    using Suc by (cases "pos < n") (auto simp: block_def less_Suc_eq nat_mult_le_cancel_disj
        le_diff_conv2 simp flip: mult_Suc intro!: trans [OF arg_cong [where f = "take d"]])
qed simp

lemma blocks_eq:
  assumes "length cs = n * d" and "length ds = n * d" and "\<And>pos. pos < n \<Longrightarrow> block d cs pos = block d ds pos"
  shows "cs = ds"
  using assms
proof (induction n arbitrary: cs ds)
  case (Suc n)
  have "drop d cs = drop d ds"
  proof (rule Suc.IH)
    show "block d (drop d cs) pos = block d (drop d ds) pos" if "pos < n" for pos
      using Suc.prems(3) [of "Suc pos"] that by (simp add: block_def add.commute)
  qed (simp_all add: Suc.prems(1,2))
  moreover have "take d cs = take d ds"
    using Suc.prems(3) [of 0] by (simp add: block_def)
  ultimately show ?case by (metis append_take_drop_id)
qed simp

lemma share_at_eq_iff:
  "length s = length s' \<Longrightarrow> share_at s d cs x = share_at s' d cs' x \<longleftrightarrow>
     (\<forall>pos<length s. evaluate (s ! pos) (block d cs pos) x = evaluate (s' ! pos) (block d cs' pos) x)"
proof -
  assume l: "length s = length s'"
  show ?thesis
    unfolding share_at_def block_def [symmetric] l [symmetric] share.simps map_eq_conv
    by (simp add: atLeast0LessThan Ball_def)
qed

lemma shares_unique:
  assumes "distinct xs" and "0 \<notin> set xs" and "length s' = length s" and d: "length xs = d"
  shows "\<exists>!cs'. length cs' = length s' * d \<and> (\<forall>x\<in>set xs. share_at s' d cs' x = share_at s d cs x)"
proof -
  define b where "b pos = (THE c. length c = length xs \<and>
      map (evaluate (s' ! pos) c) xs = map (evaluate (s ! pos) (block d cs pos)) xs)" for pos
  have b: "length (b pos) = length xs \<and> map (evaluate (s' ! pos) (b pos)) xs = map (evaluate (s ! pos) (block d cs pos)) xs" for pos
    unfolding b_def by (rule theI') (rule evaluate_unique, simp_all add: assms)
  let ?cs = "concat (map b [0..<length s'])"
  have bl: "block d ?cs pos = b pos" if "pos < length s'" for pos
    using b that d by (intro block_concat) auto
  show ?thesis
  proof (rule ex1I [of _ ?cs])
    have "length ?cs = sum_list (map (\<lambda>_. d) [0..<length s'])"
      using b d by (simp add: length_concat o_def)
    then show "length ?cs = length s' * d \<and> (\<forall>x\<in>set xs. share_at s' d ?cs x = share_at s d cs x)"
      using b assms(3) by (auto simp: share_at_eq_iff bl [unfolded assms(3)] sum_list_triv)
  next
    fix cs' assume cs': "length cs' = length s' * d \<and> (\<forall>x\<in>set xs. share_at s' d cs' x = share_at s d cs x)"
    show "cs' = ?cs"
    proof (rule blocks_eq [of _ "length s'" d])
      show "length ?cs = length s' * d"
        using b d by (simp add: length_concat o_def sum_list_triv)
      fix pos assume pos: "pos < length s'"
      have len: "length (block d cs' pos) = d"
        using cs' pos by (simp add: block_def mult_Suc [symmetric] le_diff_conv2 flip: diff_mult_distrib)
      have "map (evaluate (s' ! pos) (block d cs' pos)) xs = map (evaluate (s ! pos) (block d cs pos)) xs"
        using conjunct2 [OF cs'] pos unfolding share_at_eq_iff [OF assms(3)] by (intro map_cong refl) blast
      also have "\<dots> = map (evaluate (s' ! pos) (b pos)) xs"
        using b [of pos] by (rule conjunct2 [THEN sym])
      finally have "block d cs' pos = b pos"
        by (rule evaluate_inj [OF assms(1,2), rotated 2]) (simp_all add: len d b [THEN conjunct1])
      then show "block d cs' pos = block d ?cs pos" using bl pos by simp
    qed (use cs' in simp)
  qed
qed

section \<open>The printed form\<close>

definition share_wf :: "share \<Rightarrow> bool" where
  "share_wf s \<longleftrightarrow> share_index s \<noteq> 0 \<and> share_data s \<noteq> []"

lemma alphabet_plain: "c \<in> set alphabet \<Longrightarrow> c \<noteq> CHR ''.'' \<and> code c < 128"
  by (auto simp: alphabet_def)

lemma digit_plain: "is_ascii_digit c \<Longrightarrow> c \<noteq> CHR ''.'' \<and> code c < 128 \<and> \<not> is_whitespace [c]"
  by (auto simp: is_ascii_digit_def is_whitespace_def)

lemma hex_plain: "c \<in> set (hex_encode bs) \<Longrightarrow> c \<noteq> CHR ''.'' \<and> code c < 128 \<and> \<not> is_whitespace [c]"
  using hex_encode_lowercase [of c bs] digit_plain [of c] by (auto simp: is_whitespace_def)

lemma b64_plain: "c \<in> set (b64_encode bs) \<Longrightarrow> c \<noteq> CHR ''.'' \<and> code c < 128"
  using b64_encode_alphabet alphabet_plain by blast

lemma show_nat_plain: "c \<in> set (show_nat n) \<Longrightarrow> c \<noteq> CHR ''.'' \<and> code c < 128"
  using show_nat_digits digit_plain by blast

lemma print_share_ascii: "c \<in> set (print_share sha s) \<Longrightarrow> code c < 128"
  by (auto simp: print_share_def share_prefix_def dest: show_nat_plain b64_plain hex_plain)

lemma hex_encode_nonempty: "bs \<noteq> [] \<Longrightarrow> hex_encode bs \<noteq> []"
  by (metis length_0_conv length_hex_encode mult_eq_0_iff zero_neq_numeral)

lemma trim_print_share:
  assumes "checksum sha (share_index s) (share_data s) \<noteq> []"
  shows "trim (print_share sha s) = print_share sha s"
  unfolding trim_def
proof (rule trim_matches_id)
  let ?h = "hex_encode (checksum sha (share_index s) (share_data s))"
  have "?h \<noteq> []" by (rule hex_encode_nonempty [OF assms])
  then have "last (print_share sha s) = last ?h" "last ?h \<in> set ?h"
    by (simp_all add: print_share_def)
  then show "\<not> is_whitespace [last (print_share sha s)]"
    using hex_plain by metis
  show "\<not> is_whitespace [hd (print_share sha s)]"
    by (simp add: print_share_def share_prefix_def is_whitespace_def)
qed (simp_all add: print_share_ascii, simp add: print_share_def share_prefix_def)

lemma split_print_share:
  "split_on (CHR ''.'') (print_share sha s) =
     [share_prefix, show_nat (unat (share_index s)), b64_encode (share_data s),
      hex_encode (checksum sha (share_index s) (share_data s))]"
proof -
  have "CHR ''.'' \<notin> set share_prefix" "CHR ''.'' \<notin> set (show_nat (unat (share_index s)))"
    "CHR ''.'' \<notin> set (b64_encode (share_data s))" "CHR ''.'' \<notin> set (hex_encode (checksum sha (share_index s) (share_data s)))"
    by (auto simp: share_prefix_def dest: show_nat_plain b64_plain hex_plain)
  then show ?thesis
    by (simp add: print_share_def split_on_append split_on_plain)
qed

lemma parse_print_share:
  assumes "share_wf s" and "length (checksum sha (share_index s) (share_data s)) = checksum_len"
  shows "parse_share sha (print_share sha s) = Inr s"
proof -
  have "unat (share_index s) \<le> 255"
    using unat_u8_less [of "share_index s"] by linarith
  moreover have "checksum sha (share_index s) (share_data s) \<noteq> []"
    using assms(2) by (auto simp: checksum_len_def)
  ultimately show ?thesis
    using assms
    by (simp add: parse_share_def Let_def trim_print_share split_print_share b64_decode_encode hex_decode_encode share_wf_def)
qed

interpretation printed_share:
  codec "print_share sha" "\<lambda>t. case parse_share sha t of Inl _ \<Rightarrow> None | Inr s \<Rightarrow> Some s"
    "\<lambda>s. share_wf s \<and> length (checksum sha (share_index s) (share_data s)) = checksum_len" for sha
  by unfold_locales (simp add: parse_print_share)

lemma parse_share_Inr:
  assumes "parse_share sha t = Inr s"
  shows "share_wf s"
  using assms by (auto simp: parse_share_def Let_def share_wf_def split: if_splits)

section \<open>Properties\<close>

text \<open>
  C24: Any selection of at least \<open>threshold\<close> different shares of a split, in any order,
  recombines to exactly the secret that was split, whatever the random coefficients were.
\<close>

theorem shamir_threshold_recovers:
  assumes "shamir_split secret threshold shares w = (Inr issued, w')"
    and "set sel \<subseteq> set issued" and "distinct sel" and "unat threshold \<le> length sel"
  shows "combine sel = Inr secret"
proof -
  obtain cs where issued: "issued = map (\<lambda>i. share_at secret (unat (threshold - 1)) cs (of_nat i)) [1..<Suc (unat shares)]"
    and "1 \<le> threshold"
    by (rule shamir_split_Inr [OF assms(1)])
  then have "unat (threshold - 1) < unat threshold"
    by (simp add: word_le_nat_alt unat_sub)
  then have "unat (threshold - 1) < length sel" using assms(4) by simp
  moreover have "distinct (map share_index sel)"
    using split_indices(2) [OF assms(1)] assms(2,3) by (auto simp: distinct_map intro: inj_on_subset)
  moreover have "\<exists>x. s = share_at secret (unat (threshold - 1)) cs x" if "s \<in> set sel" for s
    using that assms(2) issued by auto
  ultimately show ?thesis by (intro combine_split_shares)
qed

text \<open>
  C25: Perfect secrecy below the threshold. Fix any \<open>threshold - 1\<close> shares of a secret. For every
  other secret of the same length there is exactly one choice of the random coefficients that
  would have produced the very same shares, so the shares do not favour any secret.
\<close>

theorem shamir_below_threshold_secret:
  assumes "distinct xs" and "0 \<notin> set xs" and "length xs = unat (threshold - 1)"
    and "length other = length secret"
  shows "\<exists>!cs'. length cs' = length other * unat (threshold - 1) \<and>
     (\<forall>x\<in>set xs. share_at other (unat (threshold - 1)) cs' x = share_at secret (unat (threshold - 1)) cs x)"
  by (rule shares_unique [OF assms(1,2,4,3)])

text \<open>
  What a split returns. Below threshold one, above the share count and for an empty secret it
  is refused before any entropy is drawn; a refused entropy request is reported; otherwise it
  returns one share per index 1 to \<open>shares\<close>, each as long as the secret.
\<close>

lemma shamir_split_outcome:
  "fst (shamir_split secret threshold shares w) =
     (if threshold = 0 then Inl ThresholdTooLow
      else if shares < threshold then Inl (ThresholdAboveShareCount threshold shares)
      else if secret = [] then Inl EmptySecret
      else if threshold = 1 then Inr (map (\<lambda>i. share_at secret 0 [] (of_nat i)) [1..<Suc (unat shares)])
      else (case entropy w (draws w) of
          None \<Rightarrow> Inl ShamirEntropy
        | Some f \<Rightarrow> Inr (map (\<lambda>i. share_at secret (unat threshold - 1)
              (map f [0..<length secret * (unat threshold - 1)]) (of_nat i)) [1..<Suc (unat shares)])))"
proof -
  note run = shamir_split_def fail_apply ret_apply bindio_def mapE_def random_fill_def Let_def
  consider "threshold = 0" | "threshold = 1" | "threshold \<noteq> 0" "threshold \<noteq> 1" by blast
  then show ?thesis
  proof cases
    case 3
    then have "unat (threshold - 1) = unat threshold - 1" "0 < unat threshold - 1"
      using unat_minus_one [of threshold] unat_minus_one [of "threshold - 1"]
      by (auto simp: word_unat_eq_iff [of threshold] simp flip: unat_eq_zero intro!: Suc_lessI)
    with 3 show ?thesis
      by (simp add: run del: upt_Suc split: option.splits)
  qed (simp_all add: run del: upt_Suc)
qed

text \<open>
  Recombination succeeds exactly on a non-empty list of shares of one length with pairwise
  different indices, and it then returns a secret of that length; every other list is refused.
\<close>

lemma combine_accepts:
  "(\<exists>secret. combine ss = Inr secret \<and> length secret = n) \<longleftrightarrow>
     ss \<noteq> [] \<and> list_all (\<lambda>s. length (share_data s) = n) ss \<and> distinct (map share_index ss)"
proof (cases ss)
  case Nil
  then show ?thesis by (simp add: combine_def)
next
  case (Cons s rest)
  have "check_shares (length (share_data s)) [] ss = Inr () \<longleftrightarrow>
      list_all (\<lambda>s'. length (share_data s') = length (share_data s)) ss \<and> distinct (map share_index ss)"
    by (simp add: check_shares_ok list_all_iff)
  then show ?thesis
    by (cases "check_shares (length (share_data s)) [] ss") (auto simp: combine_def Cons list_all_iff)
qed

text \<open>
  A share survives printing: parsing the printed text, checksum included, gives back the
  index and the data, for every share a split can produce, whichever hash with at least four
  bytes of output computes the checksum.
\<close>

lemma printed_share_roundtrip:
  assumes "\<And>x. 4 \<le> length (sha x)" and "shamir_split secret threshold shares w = (Inr issued, w')"
    and "s \<in> set issued"
  shows "parse_share sha (print_share sha s) = Inr s"
proof (rule parse_print_share)
  obtain cs where issued: "issued = map (\<lambda>i. share_at secret (unat (threshold - 1)) cs (of_nat i)) [1..<Suc (unat shares)]"
    and "secret \<noteq> []"
    by (rule shamir_split_Inr [OF assms(2)])
  with assms(3) have "share_data s \<noteq> []"
    by (auto simp: share_at_def)
  with split_indices(3) [OF assms(2,3)] show "share_wf s"
    by (simp add: share_wf_def)
  show "length (checksum sha (share_index s) (share_data s)) = checksum_len"
    using assms(1) by (simp add: checksum_def checksum_len_def min_absorb2)
qed

text \<open>Concrete worlds and shares on which the properties apply.\<close>

definition split_world :: world where
  "split_world = \<lparr>entropy = (\<lambda>n. Some (\<lambda>i. of_nat (7 + n + i))), draws = 0, clock = (\<lambda>n. int n), looks = 0,
     fault = (\<lambda>n. None), calls = 0, dir = Map.empty, contents = (\<lambda>i. []), next_inode = 0\<rparr>"

lemma sample_split:
  "shamir_split [42] 2 3 split_world =
     (Inr [share_at [42] 1 [7] 1, share_at [42] 1 [7] 2, share_at [42] 1 [7] 3], split_world\<lparr>draws := 1\<rparr>)"
  by (simp add: shamir_split_def split_world_def bindio_def mapE_def random_fill_def ret_def Let_def upt_rec)

lemma share_at_inj: "share_at s d cs x = share_at s d cs y \<Longrightarrow> x = y"
  by (metis share_at_simps(1))

theorem shamir_threshold_recovers_witness:
  "combine [share_at [42] 1 [7] 3, share_at [42] 1 [7] 1] = Inr [42]"
  by (rule shamir_threshold_recovers [OF sample_split]) (auto dest!: share_at_inj)

theorem shamir_below_threshold_secret_witness:
  "\<exists>!cs'. length cs' = length [99 :: u8] * unat (2 - 1 :: u8) \<and>
     (\<forall>x\<in>set [2]. share_at [99] (unat (2 - 1 :: u8)) cs' x = share_at [42] (unat (2 - 1 :: u8)) [7] x)"
  by (rule shamir_below_threshold_secret) simp_all

theorem printed_share_roundtrip_witness:
  "parse_share (\<lambda>x. replicate 32 0) (print_share (\<lambda>x. replicate 32 0) (share_at [42] 1 [7] 2)) = Inr (share_at [42] 1 [7] 2)"
  by (rule printed_share_roundtrip [OF _ sample_split]) simp_all

end
