(* ===== verification/Validate.thy ===== *)
theory Validate
  imports State Credentials Shamir
begin

text \<open>
  \<open>ls-server/src/validate.rs\<close> and the errors of \<open>vault.rs\<close>: what a slug, a secret key and an email
  address may be.
\<close>

datatype vault_error =
    VaultSealed
  | AlreadyInitialized
  | NotInitialized
  | UnsealFailed
  | UnreadableBarrier str
  | InitIncomplete
  | BadShare
  | BadCredentials
  | Forbidden
  | NotFound str
  | Conflict str
  | Invalid str
  | ValueTooLarge nat nat
  | VaultCrypto
  | VaultStore store_error

definition max_slug :: nat where "max_slug = 64"
definition max_key :: nat where "max_key = 256"
definition max_email :: nat where "max_email = 254"

definition starts_with :: "char \<Rightarrow> str \<Rightarrow> bool" where
  "starts_with c s \<longleftrightarrow> s \<noteq> [] \<and> hd s = c"

definition ends_with :: "char \<Rightarrow> str \<Rightarrow> bool" where
  "ends_with c s \<longleftrightarrow> s \<noteq> [] \<and> last s = c"

definition valid_slug :: "str \<Rightarrow> str \<Rightarrow> vault_error + str" where
  "valid_slug input what =
     (if input = [] \<or> length input > max_slug then Inl (Invalid what)
      else if starts_with (CHR ''-'') input \<or> ends_with (CHR ''-'') input then Inl (Invalid what)
      else if \<not> list_all (\<lambda>b. is_ascii_lowercase b \<or> is_ascii_digit b \<or> b = CHR ''-'') input
      then Inl (Invalid what)
      else Inr input)"

definition valid_secret_key :: "str \<Rightarrow> vault_error + str" where
  "valid_secret_key input =
     (if input = [] \<or> length input > max_key then Inl (Invalid ''secret key'')
      else if \<not> list_all (\<lambda>b. is_ascii_alphanumeric b \<or> b = CHR ''_'' \<or> b = CHR ''.'' \<or> b = CHR ''-'') input
      then Inl (Invalid ''secret key'')
      else Inr input)"

definition valid_email :: "str \<Rightarrow> vault_error + str" where
  "valid_email input =
     (let trimmed = to_ascii_lowercase (trim input) in
      if length trimmed < 3 \<or> length trimmed > max_email then Inl (Invalid ''email'')
      else (case split_once (CHR ''@'') trimmed of
          None \<Rightarrow> Inl (Invalid ''email'')
        | Some (local_part, domain) \<Rightarrow>
            if local_part = [] \<or> domain = [] \<or> CHR ''@'' \<in> set domain then Inl (Invalid ''email'')
            else if list_ex (\<lambda>b. code b \<le> code (CHR '' '') \<or> code b = 0x7f) trimmed
            then Inl (Invalid ''email'')
            else Inr trimmed))"

lemma valid_slug_Inr:
  "valid_slug s what = Inr t \<longleftrightarrow> t = s \<and> s \<noteq> [] \<and> length s \<le> 64 \<and> hd s \<noteq> CHR ''-'' \<and> last s \<noteq> CHR ''-'' \<and>
     (\<forall>c\<in>set s. is_ascii_lowercase c \<or> is_ascii_digit c \<or> c = CHR ''-'')"
  by (auto simp: valid_slug_def starts_with_def ends_with_def max_slug_def list_all_iff)

lemma valid_secret_key_Inr:
  "valid_secret_key s = Inr t \<longleftrightarrow> t = s \<and> s \<noteq> [] \<and> length s \<le> 256 \<and>
     (\<forall>c\<in>set s. is_ascii_alphanumeric c \<or> c = CHR ''_'' \<or> c = CHR ''.'' \<or> c = CHR ''-'')"
  by (auto simp: valid_secret_key_def max_key_def list_all_iff)

lemma slug_char_plain:
  "is_ascii_lowercase c \<or> is_ascii_digit c \<or> c = CHR ''-'' \<Longrightarrow> code c < 128 \<and> c \<noteq> CHR ''/''"
  by (auto simp: is_ascii_lowercase_def is_ascii_digit_def)

lemma key_char_plain:
  "is_ascii_alphanumeric c \<or> c = CHR ''_'' \<or> c = CHR ''.'' \<or> c = CHR ''-'' \<Longrightarrow> code c < 128 \<and> c \<noteq> CHR ''/''"
  by (auto simp: is_ascii_alphanumeric_def is_ascii_lowercase_def is_ascii_uppercase_def is_ascii_digit_def)

lemma valid_slug_text: "valid_slug s what = Inr t \<Longrightarrow> utf8_valid t \<and> CHR ''/'' \<notin> set t"
  using slug_char_plain by (auto simp: valid_slug_Inr intro!: utf8_valid_ascii)

lemma valid_secret_key_text: "valid_secret_key s = Inr t \<Longrightarrow> utf8_valid t \<and> CHR ''/'' \<notin> set t"
  using key_char_plain by (auto simp: valid_secret_key_Inr intro!: utf8_valid_ascii)

text \<open>Trimming and lower-casing keep text text.\<close>

lemma trim_text: "utf8_valid s \<Longrightarrow> utf8_valid (trim s)"
  unfolding trim_def trim_matches_def trim_end_matches_def trim_start_matches_def
  by (rule utf8_valid_concat, rule utf8_valid_char) (auto simp: utf8_valid_def list_all_iff dest!: set_dropWhileD)

lemma lowercase_append: "to_ascii_lowercase (s @ t) = to_ascii_lowercase s @ to_ascii_lowercase t"
  by (simp add: to_ascii_lowercase_def)

lemma lowercase_char: "utf8_char ch \<Longrightarrow> utf8_valid (to_ascii_lowercase ch)"
proof (cases "\<exists>c\<in>set ch. code c < 128")
  case True
  assume ch: "utf8_char ch"
  then obtain c where "ch = [c]" "code c < 128"
    using True by (cases ch rule: utf8_char.cases) (auto simp: is_continuation_def)
  then show ?thesis
    by (auto intro!: utf8_valid_ascii simp: to_ascii_lowercase_def is_ascii_uppercase_def)
next
  case False
  assume ch: "utf8_char ch"
  have "to_ascii_lowercase ch = ch"
    unfolding to_ascii_lowercase_def
    by (rule map_idI) (use False in \<open>auto simp: is_ascii_uppercase_def\<close>)
  with ch show ?thesis by (simp add: utf8_valid_char)
qed

lemma lowercase_text: "utf8_valid s \<Longrightarrow> utf8_valid (to_ascii_lowercase s)"
proof (induction s rule: utf8_induct)
  case (Char ch s)
  then show ?case by (simp add: lowercase_append lowercase_char)
qed (simp add: to_ascii_lowercase_def)

lemma valid_email_text: "utf8_valid s \<Longrightarrow> valid_email s = Inr t \<Longrightarrow> utf8_valid t"
  by (auto simp: valid_email_def Let_def trim_text lowercase_text split: if_splits option.splits prod.splits)

end
