(* ===== verification/Vault.thy ===== *)
theory Vault
  imports Log_Machine Barrier Validate
begin

text \<open>
  \<open>ls-server/src/vault.rs\<close>: seal state, the key hierarchy and every operation on secrets.

  An operation on \<open>&mut self\<close> is a function from the vault and the world to its result and both as
  it leaves them; \<open>vbind\<close> is \<open>?\<close> followed by the rest of the body, so that whatever an operation did
  before an error stays done. The cipher, SHA-256 and Argon2 are the record \<open>crypto\<close> of parameters.
  Zeroizing and the warning about a repaired log have no counterpart.
\<close>

section \<open>Data\<close>

record 'phc crypto =
  cr_gcm :: gcm
  cr_sha :: sha256
  cr_argon2 :: "'phc argon2"

definition master_key_len :: nat where "master_key_len = 32"

record init_outcome =
  io_shares :: "str list"
  io_root_token :: str
  io_threshold :: u8

record unseal_status =
  us_sealed :: bool
  us_progress :: nat
  us_threshold :: u8

record caller =
  ca_token_id :: str
  ca_kind :: token_kind
  ca_user_id :: "str option"
  ca_project_id :: "str option"
  ca_environment_id :: "str option"

definition actor :: "caller \<Rightarrow> str" where
  "actor c =
     (case (ca_user_id c, ca_kind c) of
        (Some user, _) \<Rightarrow> ''user:'' @ user
      | (None, MachineToken) \<Rightarrow> ''machine:'' @ ca_token_id c
      | (None, _) \<Rightarrow> ''token:'' @ ca_token_id c)"

datatype capability = Bootstrap | Administer | ReadSecrets | WriteSecrets

definition granted_to :: "capability \<Rightarrow> token_kind \<Rightarrow> bool" where
  "granted_to cap kind =
     (case kind of
        RootToken \<Rightarrow> cap = Bootstrap
      | SessionToken \<Rightarrow> True
      | MachineToken \<Rightarrow> cap = ReadSecrets)"

record audit_entry =
  au_at :: timestamp
  au_actor :: str
  au_action :: str
  au_target :: str
  au_outcome :: str

record vault =
  vt_log :: log_file
  vt_state :: state
  vt_barrier :: "barrier option"
  vt_root_key :: "data_key option"
  vt_pending :: "share list"

section \<open>Running operations\<close>

type_synonym 'a vault_op = "vault \<Rightarrow> world \<Rightarrow> (vault_error + 'a) \<times> vault \<times> world"

definition vret :: "'a \<Rightarrow> 'a vault_op" where
  "vret x v w = (Inr x, v, w)"

definition vfail :: "vault_error \<Rightarrow> 'a vault_op" where
  "vfail e v w = (Inl e, v, w)"

definition vbind :: "'a vault_op \<Rightarrow> ('a \<Rightarrow> 'b vault_op) \<Rightarrow> 'b vault_op" where
  "vbind m f v w = (case m v w of (Inl e, v1, w1) \<Rightarrow> (Inl e, v1, w1) | (Inr x, v1, w1) \<Rightarrow> f x v1 w1)"

text \<open>A look at \<open>&self\<close>, an update of it, an effect that leaves it alone.\<close>

definition vlook :: "(vault \<Rightarrow> vault_error + 'a) \<Rightarrow> 'a vault_op" where
  "vlook f v w = (f v, v, w)"

definition vset :: "(vault \<Rightarrow> vault) \<Rightarrow> unit vault_op" where
  "vset f v w = (Inr (), f v, w)"

definition vio :: "(vault_error, 'a) io \<Rightarrow> 'a vault_op" where
  "vio m v w = (case m w of (r, w1) \<Rightarrow> (r, v, w1))"

definition vnow :: "timestamp vault_op" where
  "vnow v w = (case now w of (t, w1) \<Rightarrow> (Inr t, v, w1))"

definition vlog :: "'a log_op \<Rightarrow> 'a vault_op" where
  "vlog op v w = (case op (vt_log v) w of (r, lg, w1) \<Rightarrow> (map_err VaultStore r, v\<lparr>vt_log := lg\<rparr>, w1))"

definition vmap_err :: "(vault_error \<Rightarrow> vault_error) \<Rightarrow> 'a vault_op \<Rightarrow> 'a vault_op" where
  "vmap_err h m v w = (case m v w of (r, v1, w1) \<Rightarrow> (map_err h r, v1, w1))"

definition vreading :: "(log_file \<Rightarrow> (store_error, 'a) io) \<Rightarrow> 'a vault_op" where
  "vreading m v = vio (mapE VaultStore (m (vt_log v))) v"

section \<open>Shared helpers\<close>

definition is_sealed :: "vault \<Rightarrow> bool" where
  "is_sealed v \<longleftrightarrow> vt_root_key v = None"

definition is_initialized :: "vault \<Rightarrow> bool" where
  "is_initialized v \<longleftrightarrow> vt_barrier v \<noteq> None"

definition vault_threshold :: "vault \<Rightarrow> u8 option" where
  "vault_threshold v = map_option br_threshold (vt_barrier v)"

definition commit :: "'phc crypto \<Rightarrow> event \<Rightarrow> unit vault_op" where
  "commit cr ev v w =
     (case vt_root_key v of
        None \<Rightarrow> (Inl VaultSealed, v, w)
      | Some root_key \<Rightarrow>
          (case log_append (cr_gcm cr) root_key (event_to_bytes ev) (vt_log v) w of
             (Inl e, lg, w1) \<Rightarrow> (Inl (VaultStore e), v\<lparr>vt_log := lg\<rparr>, w1)
           | (Inr _, lg, w1) \<Rightarrow> (Inr (), v\<lparr>vt_log := lg, vt_state := apply_event ev (vt_state v)\<rparr>, w1)))"

definition require_unsealed :: "vault \<Rightarrow> vault_error + unit" where
  "require_unsealed v = (if is_sealed v then Inl VaultSealed else Inr ())"

definition require :: "caller \<Rightarrow> capability \<Rightarrow> vault_error + unit" where
  "require c cap = (if granted_to cap (ca_kind c) then Inr () else Inl Forbidden)"

definition authorise :: "caller \<Rightarrow> capability \<Rightarrow> str \<Rightarrow> str \<Rightarrow> vault_error + unit" where
  "authorise c cap project_id environment_id =
     and_then (require c cap) (\<lambda>_.
       if ca_kind c \<noteq> MachineToken then Inr ()
       else if ca_project_id c = Some project_id \<and> ca_environment_id c = Some environment_id then Inr ()
       else Inl Forbidden)"

definition resolve :: "str \<Rightarrow> str \<Rightarrow> vault \<Rightarrow> vault_error + str \<times> str" where
  "resolve project_slug environment_slug v =
     and_then (ok_or (NotFound ''project'') (project_by_slug project_slug (vt_state v))) (\<lambda>project.
     and_then (ok_or (NotFound ''environment'') (environment_by_slug (p_id project) environment_slug (vt_state v)))
       (\<lambda>environment. Inr (p_id project, e_id environment)))"

definition resolve_for :: "caller \<Rightarrow> str \<Rightarrow> str \<Rightarrow> vault \<Rightarrow> vault_error + str \<times> str" where
  "resolve_for c project_slug environment_slug v =
     (case resolve project_slug environment_slug v of
        Inr pair \<Rightarrow> Inr pair
      | Inl e \<Rightarrow> if ca_kind c = MachineToken then Inl Forbidden else Inl e)"

definition record_audit :: "'phc crypto \<Rightarrow> caller \<Rightarrow> str \<Rightarrow> str \<Rightarrow> str \<Rightarrow> unit vault_op" where
  "record_audit cr c action target outcome =
     vbind vnow (\<lambda>at. commit cr (Audited at (actor c) action target outcome))"

definition resolve_and_record ::
  "'phc crypto \<Rightarrow> caller \<Rightarrow> str \<Rightarrow> str \<Rightarrow> str \<Rightarrow> str \<Rightarrow> (str \<times> str) vault_op" where
  "resolve_and_record cr c action project_slug environment_slug target v =
     (case resolve_for c project_slug environment_slug v of
        Inr pair \<Rightarrow> vret pair v
      | Inl e \<Rightarrow> vbind (record_audit cr c action target ''unknown'') (\<lambda>_. vfail e) v)"

definition project_key_context :: "str \<Rightarrow> aad" where
  "project_key_context project_id = key_wrap ''project-dek'' project_id"

definition secret_context :: "str \<Rightarrow> str \<Rightarrow> str \<Rightarrow> aad" where
  "secret_context project_id environment_id key = secret_slot project_id environment_id key"

definition project_data_key :: "'phc crypto \<Rightarrow> str \<Rightarrow> vault \<Rightarrow> vault_error + data_key" where
  "project_data_key cr project_id v =
     and_then (ok_or VaultSealed (vt_root_key v)) (\<lambda>root_key.
     and_then (ok_or (NotFound ''project'') (find_project project_id (vt_state v))) (\<lambda>project.
       map_err (\<lambda>_. VaultCrypto)
         (unwrap_key (cr_gcm cr) root_key (envelope_of_sealed (p_data_key project))
            (project_key_context project_id))))"

definition max_lifetime_seconds :: int where
  "max_lifetime_seconds = 100 * 365 * 86400"

definition check_lifetime :: "int \<Rightarrow> vault_error + unit" where
  "check_lifetime seconds =
     (if \<not> (- max_lifetime_seconds \<le> seconds \<and> seconds \<le> max_lifetime_seconds)
      then Inl (Invalid ''token lifetime'') else Inr ())"

definition new_id :: "(vault_error, str) io" where
  "new_id = bindio (mapE (\<lambda>_. VaultCrypto) (random_bytes 16)) (\<lambda>bs. ret (hex_encode bs))"

text \<open>Fallible cryptography whose errors become \<open>Crypto\<close>.\<close>

definition or_crypto :: "('e, 'a) io \<Rightarrow> (vault_error, 'a) io" where
  "or_crypto m = mapE (\<lambda>_. VaultCrypto) m"

section \<open>Opening\<close>

definition vault_open :: "path \<Rightarrow> (vault_error, vault) io" where
  "vault_open p =
     bindio (mapE VaultStore (log_open p)) (\<lambda>lg.
     bindio (mapE VaultStore (read_plain lg)) (\<lambda>plain.
       if plain = [] \<and> lg_count lg \<noteq> 0
       then fail (UnreadableBarrier ''the store holds records but no barrier'')
       else liftR (and_then
         (if plain = [] then Inr None
          else map_err UnreadableBarrier (and_then (barrier_from_bytes (last plain)) (\<lambda>b. Inr (Some b))))
         (\<lambda>barrier. Inr \<lparr>vt_log = lg, vt_state = empty_state, vt_barrier = barrier, vt_root_key = None,
            vt_pending = []\<rparr>))))"

section \<open>Sealing and unsealing\<close>

definition vault_init :: "'phc crypto \<Rightarrow> u8 \<Rightarrow> u8 \<Rightarrow> init_outcome vault_op" where
  "vault_init cr threshold shares =
     vbind (vlook (\<lambda>v. if is_initialized v then Inl AlreadyInitialized else Inr ())) (\<lambda>_.
     vbind (vio (or_crypto (random_bytes master_key_len))) (\<lambda>master_bytes.
     vbind (vio (mapE (\<lambda>_. Invalid ''share configuration'') (shamir_split master_bytes threshold shares))) (\<lambda>split.
     vbind (vlook (\<lambda>_. ok_or VaultCrypto (key_from_bytes master_bytes))) (\<lambda>master_key.
     vbind (vio (or_crypto key_generate)) (\<lambda>root_key.
     vbind (vio (or_crypto (wrap_key (cr_gcm cr) master_key root_key barrier_context))) (\<lambda>wrapped.
     vbind (vio (or_crypto (generate_token (cr_sha cr)))) (\<lambda>issued.
     vbind (vio new_id) (\<lambda>token_id.
     vbind vnow (\<lambda>created_at.
       let barrier = \<lparr>br_threshold = threshold, br_shares = shares,
             br_root_key = sealed_of_envelope wrapped, br_created_at = created_at\<rparr> in
     vbind (vlog (append_plain (barrier_to_bytes barrier))) (\<lambda>_.
     vbind (vset (\<lambda>v. v\<lparr>vt_barrier := Some barrier, vt_root_key := Some root_key\<rparr>)) (\<lambda>_.
     vbind vnow (\<lambda>issued_at.
     vbind (vmap_err (\<lambda>_. InitIncomplete) (commit cr
       (TokenIssued token_id (hash_bytes (it_hash issued)) RootToken None None None (Some ''root'') None issued_at))) (\<lambda>_.
       vret \<lparr>io_shares = map (print_share (cr_sha cr)) split, io_root_token = it_secret issued,
             io_threshold = threshold\<rparr>)))))))))))))"

text \<open>The events of a log: its sealed records, read back.\<close>

definition events_of :: "log_record list \<Rightarrow> store_error + event list" where
  "events_of rs = traverse (\<lambda>r. event_from_bytes (lr_payload r)) (filter lr_sealed rs)"

definition vault_replay :: "'phc crypto \<Rightarrow> data_key \<Rightarrow> state vault_op" where
  "vault_replay cr root_key =
     vbind (vreading (read_records (cr_gcm cr) root_key)) (\<lambda>records.
     vlook (\<lambda>_. map_err VaultStore (and_then (events_of records) (\<lambda>es. Inr (replay es)))))"

definition try_unseal :: "'phc crypto \<Rightarrow> unit vault_op" where
  "try_unseal cr =
     vbind (vlook (\<lambda>v. ok_or NotInitialized (vt_barrier v))) (\<lambda>barrier.
     vbind (vlook (\<lambda>v. map_err (\<lambda>_. UnsealFailed) (combine (vt_pending v)))) (\<lambda>master_bytes.
     vbind (vlook (\<lambda>_. ok_or UnsealFailed (key_from_bytes master_bytes))) (\<lambda>master_key.
     vbind (vlook (\<lambda>_. map_err (\<lambda>_. UnsealFailed) (unwrap_key (cr_gcm cr) master_key
         (envelope_of_sealed (br_root_key barrier)) barrier_context))) (\<lambda>root_key.
     vbind (vault_replay cr root_key) (\<lambda>st.
     vset (\<lambda>v. v\<lparr>vt_root_key := Some root_key, vt_state := st, vt_pending := []\<rparr>))))))"

definition submit_share :: "'phc crypto \<Rightarrow> str \<Rightarrow> unseal_status vault_op" where
  "submit_share cr printed v w =
     (case vt_barrier v of
        None \<Rightarrow> (Inl NotInitialized, v, w)
      | Some barrier \<Rightarrow>
          let threshold = br_threshold barrier in
          if \<not> is_sealed v
          then (Inr \<lparr>us_sealed = False, us_progress = 0, us_threshold = threshold\<rparr>, v, w)
          else (case parse_share (cr_sha cr) printed of
              Inl _ \<Rightarrow> (Inl BadShare, v, w)
            | Inr share \<Rightarrow>
                let pending = (if share \<in> set (vt_pending v) then vt_pending v else vt_pending v @ [share]);
                    v1 = v\<lparr>vt_pending := pending\<rparr>
                in if length pending < unat threshold
                   then (Inr \<lparr>us_sealed = True, us_progress = length pending, us_threshold = threshold\<rparr>, v1, w)
                   else (case try_unseal cr v1 w of
                       (Inr _, v2, w2) \<Rightarrow>
                         (Inr \<lparr>us_sealed = False, us_progress = 0, us_threshold = threshold\<rparr>, v2, w2)
                     | (Inl e, v2, w2) \<Rightarrow> (Inl e, v2\<lparr>vt_pending := []\<rparr>, w2))))"

definition reset_unseal :: "vault \<Rightarrow> vault" where
  "reset_unseal v = v\<lparr>vt_pending := []\<rparr>"

definition vault_seal :: "vault \<Rightarrow> vault" where
  "vault_seal v = v\<lparr>vt_root_key := None, vt_state := empty_state, vt_pending := []\<rparr>"

definition seal_as :: "caller \<Rightarrow> unit vault_op" where
  "seal_as c = vbind (vlook (\<lambda>_. require c Administer)) (\<lambda>_. vset vault_seal)"

section \<open>Splitting the master key again\<close>

text \<open>Project data keys move to the new root key; every other event is carried as it is.\<close>

definition carry_event :: "'phc crypto \<Rightarrow> data_key \<Rightarrow> data_key \<Rightarrow> event \<Rightarrow> (vault_error, event) io" where
  "carry_event cr old_root new_root ev =
     (case ev of
        ProjectCreated i slug name data_key created_at \<Rightarrow>
          let context = project_key_context i in
          bindio (liftR (map_err (\<lambda>_. VaultCrypto)
              (unwrap_key (cr_gcm cr) old_root (envelope_of_sealed data_key) context))) (\<lambda>unwrapped.
          bindio (or_crypto (wrap_key (cr_gcm cr) new_root unwrapped context)) (\<lambda>rewrapped.
            ret (ProjectCreated i slug name (sealed_of_envelope rewrapped) created_at)))
      | _ \<Rightarrow> ret ev)"

primrec carry_events :: "'phc crypto \<Rightarrow> data_key \<Rightarrow> data_key \<Rightarrow> event list \<Rightarrow> (vault_error, event list) io" where
  "carry_events cr old_root new_root [] = ret []"
| "carry_events cr old_root new_root (e # es) =
     bindio (carry_event cr old_root new_root e) (\<lambda>c.
     bindio (carry_events cr old_root new_root es) (\<lambda>cs. ret (c # cs)))"

definition rekey :: "'phc crypto \<Rightarrow> caller \<Rightarrow> u8 \<Rightarrow> u8 \<Rightarrow> init_outcome vault_op" where
  "rekey cr c threshold shares =
     vbind (vlook require_unsealed) (\<lambda>_.
     vbind (vlook (\<lambda>_. require c Administer)) (\<lambda>_.
     vbind (vlook (\<lambda>v. ok_or VaultSealed (vt_root_key v))) (\<lambda>old_root.
     vbind (vreading (read_records (cr_gcm cr) old_root)) (\<lambda>records.
     vbind (vlook (\<lambda>_. map_err VaultStore (events_of records))) (\<lambda>events.
     vbind (vio (or_crypto key_generate)) (\<lambda>new_root.
     vbind (vio (carry_events cr old_root new_root events)) (\<lambda>moved.
     vbind vnow (\<lambda>at.
       let carried = moved @ [Audited at (actor c) ''vault.rekey'' ''unseal shares'' ''ok''] in
     vbind (vio (or_crypto (random_bytes master_key_len))) (\<lambda>master_bytes.
     vbind (vio (mapE (\<lambda>_. Invalid ''share configuration'') (shamir_split master_bytes threshold shares))) (\<lambda>split.
     vbind (vlook (\<lambda>_. ok_or VaultCrypto (key_from_bytes master_bytes))) (\<lambda>master_key.
     vbind (vio (or_crypto (wrap_key (cr_gcm cr) master_key new_root barrier_context))) (\<lambda>wrapped_root.
     vbind vnow (\<lambda>created_at.
       let barrier = \<lparr>br_threshold = threshold, br_shares = shares,
             br_root_key = sealed_of_envelope wrapped_root, br_created_at = created_at\<rparr> in
     vbind (vlog (compact (cr_gcm cr) new_root [barrier_to_bytes barrier] (map event_to_bytes carried))) (\<lambda>_.
     vbind (vset (\<lambda>v. v\<lparr>vt_root_key := Some new_root, vt_barrier := Some barrier,
         vt_state := replay carried, vt_pending := []\<rparr>)) (\<lambda>_.
       vret \<lparr>io_shares = map (print_share (cr_sha cr)) split, io_root_token = [],
             io_threshold = threshold\<rparr>)))))))))))))))"

section \<open>Users and tokens\<close>

definition create_user :: "'phc crypto \<Rightarrow> caller \<Rightarrow> str \<Rightarrow> str \<Rightarrow> str vault_op" where
  "create_user cr c email password =
     vbind (vlook require_unsealed) (\<lambda>_.
     vbind (vlook (\<lambda>_. require c Bootstrap)) (\<lambda>_.
     vbind (vlook (\<lambda>_. valid_email email)) (\<lambda>email.
     vbind (vlook (\<lambda>v. if user_by_email email (vt_state v) \<noteq> None then Inl (Conflict ''user'') else Inr ())) (\<lambda>_.
     vbind (vio (mapE (\<lambda>e. case e of PasswordEntropy \<Rightarrow> VaultCrypto | _ \<Rightarrow> Invalid ''password'')
         (hash_password (cr_argon2 cr) password))) (\<lambda>password_hash.
     vbind (vio new_id) (\<lambda>i.
     vbind vnow (\<lambda>created_at.
     vbind (commit cr (UserCreated i email password_hash created_at)) (\<lambda>_. vret i))))))))"

definition dummy_hash :: str where
  "dummy_hash = ''$argon2id$v=19$m=19456,t=2,p=1$'' @
     ''c29tZXNhbHRzb21lc2FsdA$JQm3CgPlmhCvmSGN0j3T9y9YJCLTrkLMBmU5PGPZUMs''"

definition issue_token ::
  "'phc crypto \<Rightarrow> token_kind \<Rightarrow> str option \<Rightarrow> str option \<Rightarrow> str option \<Rightarrow> str option \<Rightarrow> int option \<Rightarrow>
     str vault_op" where
  "issue_token cr kind user_id project_id environment_id label ttl_seconds =
     vbind (vio (or_crypto (generate_token (cr_sha cr)))) (\<lambda>issued.
     vbind (vio new_id) (\<lambda>i.
     vbind (case ttl_seconds of
         None \<Rightarrow> vret None
       | Some ttl \<Rightarrow> vbind vnow (\<lambda>t. vret (Some (plus_seconds t ttl)))) (\<lambda>expires_at.
     vbind vnow (\<lambda>created_at.
     vbind (commit cr (TokenIssued i (hash_bytes (it_hash issued)) kind user_id project_id environment_id
         label expires_at created_at)) (\<lambda>_. vret (it_secret issued))))))"

text \<open>The verification against the dummy hash costs time and changes nothing.\<close>

definition login :: "'phc crypto \<Rightarrow> str \<Rightarrow> str \<Rightarrow> int \<Rightarrow> str vault_op" where
  "login cr email password ttl_seconds =
     vbind (vlook require_unsealed) (\<lambda>_.
     vbind (vlook (\<lambda>_. check_lifetime ttl_seconds)) (\<lambda>_.
     vbind (vlook (\<lambda>v.
       let normalised = (case valid_email email of Inr e \<Rightarrow> e | Inl _ \<Rightarrow> []) in
       case user_by_email normalised (vt_state v) of
         None \<Rightarrow> (let _ = verify_password (cr_argon2 cr) password dummy_hash in Inl BadCredentials)
       | Some user \<Rightarrow> Inr user)) (\<lambda>user.
     vbind (vlook (\<lambda>_. if \<not> verify_password (cr_argon2 cr) password (u_password_hash user)
         then Inl BadCredentials else Inr ())) (\<lambda>_.
       issue_token cr SessionToken (Some (u_id user)) None None None (Some ttl_seconds)))))"

definition issue_machine_token ::
  "'phc crypto \<Rightarrow> caller \<Rightarrow> str \<Rightarrow> str \<Rightarrow> str \<Rightarrow> int option \<Rightarrow> str vault_op" where
  "issue_machine_token cr c project_slug environment_slug label ttl_seconds =
     vbind (vlook require_unsealed) (\<lambda>_.
     vbind (vlook (\<lambda>_. require c Administer)) (\<lambda>_.
     vbind (vlook (\<lambda>_. case ttl_seconds of None \<Rightarrow> Inr () | Some ttl \<Rightarrow> check_lifetime ttl)) (\<lambda>_.
     vbind (vlook (resolve project_slug environment_slug)) (\<lambda>(project_id, environment_id).
       issue_token cr MachineToken None (Some project_id) (Some environment_id) (Some label) ttl_seconds))))"

definition revoke_token :: "'phc crypto \<Rightarrow> caller \<Rightarrow> str \<Rightarrow> unit vault_op" where
  "revoke_token cr c i =
     vbind (vlook require_unsealed) (\<lambda>_.
     vbind (vlook (\<lambda>_. if i \<noteq> ca_token_id c then require c Administer else Inr ())) (\<lambda>_.
     vbind (vlook (\<lambda>v. if find_token i (vt_state v) = None then Inl (NotFound ''token'') else Inr ())) (\<lambda>_.
     vbind vnow (\<lambda>at. commit cr (TokenRevoked i at)))))"

definition authenticate :: "'phc crypto \<Rightarrow> str \<Rightarrow> vault \<Rightarrow> world \<Rightarrow> caller option \<times> world" where
  "authenticate cr presented v w =
     (if is_sealed v \<or> presented = [] then (None, w)
      else (case token_by_hash (hash_bytes (hash_token (cr_sha cr) presented)) (vt_state v) of
          None \<Rightarrow> (None, w)
        | Some found \<Rightarrow>
            (case now w of (t, w1) \<Rightarrow>
              if \<not> is_valid_at found t then (None, w1)
              else if t_kind found = RootToken \<and> users (vt_state v) \<noteq> [] then (None, w1)
              else (Some \<lparr>ca_token_id = t_id found, ca_kind = t_kind found, ca_user_id = t_user_id found,
                     ca_project_id = t_project_id found, ca_environment_id = t_environment_id found\<rparr>, w1))))"

section \<open>Projects and environments\<close>

definition create_project :: "'phc crypto \<Rightarrow> caller \<Rightarrow> str \<Rightarrow> str \<Rightarrow> str vault_op" where
  "create_project cr c slug name =
     vbind (vlook require_unsealed) (\<lambda>_.
     vbind (vlook (\<lambda>_. require c Administer)) (\<lambda>_.
     vbind (vlook (\<lambda>_. valid_slug slug ''project slug'')) (\<lambda>slug.
     vbind (vlook (\<lambda>v. if project_by_slug slug (vt_state v) \<noteq> None then Inl (Conflict ''project'') else Inr ())) (\<lambda>_.
     vbind (vio new_id) (\<lambda>i.
     vbind (vio (or_crypto key_generate)) (\<lambda>data_key.
     vbind (vlook (\<lambda>v. ok_or VaultSealed (vt_root_key v))) (\<lambda>root_key.
     vbind (vio (or_crypto (wrap_key (cr_gcm cr) root_key data_key (project_key_context i)))) (\<lambda>wrapped.
     vbind vnow (\<lambda>created_at.
     vbind (commit cr (ProjectCreated i slug name (sealed_of_envelope wrapped) created_at)) (\<lambda>_.
       vret i))))))))))"

definition create_environment :: "'phc crypto \<Rightarrow> caller \<Rightarrow> str \<Rightarrow> str \<Rightarrow> str \<Rightarrow> str vault_op" where
  "create_environment cr c project_slug slug name =
     vbind (vlook require_unsealed) (\<lambda>_.
     vbind (vlook (\<lambda>_. require c Administer)) (\<lambda>_.
     vbind (vlook (\<lambda>_. valid_slug slug ''environment slug'')) (\<lambda>slug.
     vbind (vlook (\<lambda>v. and_then (ok_or (NotFound ''project'') (project_by_slug project_slug (vt_state v)))
         (\<lambda>project. Inr (p_id project)))) (\<lambda>project_id.
     vbind (vlook (\<lambda>v. if environment_by_slug project_id slug (vt_state v) \<noteq> None
         then Inl (Conflict ''environment'') else Inr ())) (\<lambda>_.
     vbind (vio new_id) (\<lambda>i.
     vbind vnow (\<lambda>created_at.
     vbind (commit cr (EnvironmentCreated i project_id slug name created_at)) (\<lambda>_. vret i))))))))"

definition project_slugs :: "caller \<Rightarrow> vault \<Rightarrow> vault_error + str list" where
  "project_slugs c v =
     and_then (require_unsealed v) (\<lambda>_.
     and_then (require c Administer) (\<lambda>_. Inr (map p_slug (projects (vt_state v)))))"

definition environment_slugs :: "caller \<Rightarrow> str \<Rightarrow> vault \<Rightarrow> vault_error + str list" where
  "environment_slugs c project_slug v =
     and_then (require_unsealed v) (\<lambda>_.
     and_then (require c Administer) (\<lambda>_.
     and_then (ok_or (NotFound ''project'') (project_by_slug project_slug (vt_state v))) (\<lambda>project.
       Inr (map e_slug (environments_in (p_id project) (vt_state v))))))"

section \<open>Secrets\<close>

text \<open>What an operation names in the audit trail.\<close>

definition slot_target :: "str \<Rightarrow> str \<Rightarrow> str \<Rightarrow> str" where
  "slot_target project_slug environment_slug key = project_slug @ ''/'' @ environment_slug @ ''/'' @ key"

text \<open>The refusal every operation on secrets spells out: record it as denied, then return the error.\<close>

definition authorise_or_record :: "'phc crypto \<Rightarrow> caller \<Rightarrow> capability \<Rightarrow> str \<Rightarrow> str \<Rightarrow> str \<times> str \<Rightarrow> unit vault_op" where
  "authorise_or_record cr c cap action target ids =
     (case authorise c cap (fst ids) (snd ids) of
        Inr _ \<Rightarrow> vret ()
      | Inl e \<Rightarrow> vbind (record_audit cr c action target ''denied'') (\<lambda>_. vfail e))"

definition set_secret :: "'phc crypto \<Rightarrow> caller \<Rightarrow> str \<Rightarrow> str \<Rightarrow> str \<Rightarrow> bytes \<Rightarrow> unit vault_op" where
  "set_secret cr c project_slug environment_slug raw_key val =
     vbind (vlook require_unsealed) (\<lambda>_.
     vbind (vlook (\<lambda>_. valid_secret_key raw_key)) (\<lambda>key.
       let target = slot_target project_slug environment_slug key in
     vbind (resolve_and_record cr c ''secret.set'' project_slug environment_slug target) (\<lambda>ids.
     vbind (authorise_or_record cr c WriteSecrets ''secret.set'' target ids) (\<lambda>_.
     vbind (vlook (project_data_key cr (fst ids))) (\<lambda>data_key.
     vbind (vio (mapE (\<lambda>e. case e of PlaintextTooLarge n limit \<Rightarrow> ValueTooLarge n limit | _ \<Rightarrow> VaultCrypto)
         (aead_seal (cr_gcm cr) data_key val (secret_context (fst ids) (snd ids) key)))) (\<lambda>sealed_value.
     vbind vnow (\<lambda>at.
     vbind (commit cr (SecretSet (fst ids) (snd ids) key (sealed_of_envelope sealed_value) at)) (\<lambda>_.
       record_audit cr c ''secret.set'' target ''ok''))))))))"

definition get_secret :: "'phc crypto \<Rightarrow> caller \<Rightarrow> str \<Rightarrow> str \<Rightarrow> str \<Rightarrow> bytes vault_op" where
  "get_secret cr c project_slug environment_slug key =
     vbind (vlook require_unsealed) (\<lambda>_.
       let target = slot_target project_slug environment_slug key in
     vbind (resolve_and_record cr c ''secret.read'' project_slug environment_slug target) (\<lambda>ids.
     vbind (authorise_or_record cr c ReadSecrets ''secret.read'' target ids) (\<lambda>_.
     vbind (vlook (\<lambda>v. Inr (map_option s_value (find_secret (fst ids) (snd ids) key (vt_state v))))) (\<lambda>found.
       case found of
         None \<Rightarrow> vbind (record_audit cr c ''secret.read'' target ''missing'') (\<lambda>_. vfail (NotFound ''secret''))
       | Some stored_value \<Rightarrow>
           vbind (vlook (project_data_key cr (fst ids))) (\<lambda>data_key.
           vbind (vlook (\<lambda>_. map_err (\<lambda>_. VaultCrypto) (aead_open (cr_gcm cr) data_key
               (envelope_of_sealed stored_value) (secret_context (fst ids) (snd ids) key)))) (\<lambda>val.
           vbind (record_audit cr c ''secret.read'' target ''ok'') (\<lambda>_. vret val)))))))"

definition list_secrets :: "'phc crypto \<Rightarrow> caller \<Rightarrow> str \<Rightarrow> str \<Rightarrow> (str \<times> bytes) list vault_op" where
  "list_secrets cr c project_slug environment_slug =
     vbind (vlook require_unsealed) (\<lambda>_.
       let target = project_slug @ ''/'' @ environment_slug in
     vbind (resolve_and_record cr c ''secret.list'' project_slug environment_slug target) (\<lambda>ids.
     vbind (authorise_or_record cr c ReadSecrets ''secret.list'' target ids) (\<lambda>_.
     vbind (vlook (\<lambda>v. Inr (map (\<lambda>s. (s_key s, s_value s)) (secrets_in (fst ids) (snd ids) (vt_state v))))) (\<lambda>found.
     vbind (vlook (project_data_key cr (fst ids))) (\<lambda>data_key.
     vbind (vlook (\<lambda>_. traverse (\<lambda>(key, stored_value).
         and_then (map_err (\<lambda>_. VaultCrypto) (aead_open (cr_gcm cr) data_key (envelope_of_sealed stored_value)
           (secret_context (fst ids) (snd ids) key))) (\<lambda>plain. Inr (key, plain))) found)) (\<lambda>out.
     vbind (record_audit cr c ''secret.list'' target ''ok'') (\<lambda>_. vret out)))))))"

definition delete_secret :: "'phc crypto \<Rightarrow> caller \<Rightarrow> str \<Rightarrow> str \<Rightarrow> str \<Rightarrow> unit vault_op" where
  "delete_secret cr c project_slug environment_slug key =
     vbind (vlook require_unsealed) (\<lambda>_.
       let target = slot_target project_slug environment_slug key in
     vbind (resolve_and_record cr c ''secret.delete'' project_slug environment_slug target) (\<lambda>ids.
     vbind (authorise_or_record cr c WriteSecrets ''secret.delete'' target ids) (\<lambda>_.
     vbind (vlook (\<lambda>v. if find_secret (fst ids) (snd ids) key (vt_state v) = None
         then Inl (NotFound ''secret'') else Inr ())) (\<lambda>_.
     vbind vnow (\<lambda>at.
     vbind (commit cr (SecretDeleted (fst ids) (snd ids) key at)) (\<lambda>_.
       record_audit cr c ''secret.delete'' target ''ok''))))))"

definition check_secret :: "caller \<Rightarrow> str \<Rightarrow> str \<Rightarrow> str \<Rightarrow> bytes \<Rightarrow> vault \<Rightarrow> vault_error + unit" where
  "check_secret c project_slug environment_slug key val v =
     and_then (require_unsealed v) (\<lambda>_.
     and_then (valid_secret_key key) (\<lambda>_.
       if length val > max_plaintext_len then Inl (ValueTooLarge (length val) max_plaintext_len)
       else and_then (resolve_for c project_slug environment_slug v) (\<lambda>(project_id, environment_id).
         authorise c WriteSecrets project_id environment_id)))"

section \<open>The audit trail\<close>

fun audit_of :: "event \<Rightarrow> audit_entry option" where
  "audit_of (Audited at who action target outcome) =
     Some \<lparr>au_at = at, au_actor = who, au_action = action, au_target = target, au_outcome = outcome\<rparr>"
| "audit_of _ = None"

definition audit_trail :: "'phc crypto \<Rightarrow> caller \<Rightarrow> audit_entry list vault_op" where
  "audit_trail cr c =
     vbind (vlook (\<lambda>_. require c Administer)) (\<lambda>_.
     vbind (vlook (\<lambda>v. ok_or VaultSealed (vt_root_key v))) (\<lambda>root_key.
     vbind (vreading (read_records (cr_gcm cr) root_key)) (\<lambda>records.
       vret (List.map_filter (\<lambda>r. case event_from_bytes (lr_payload r) of
           Inl _ \<Rightarrow> None | Inr ev \<Rightarrow> audit_of ev) (filter lr_sealed records)))))"

end
