(* ===== verification/Vault_Safety.thy ===== *)
theory Vault_Safety
  imports Vault
begin

text \<open>
  What the vault keeps: what is in memory is the replay of what is on disk, whatever fails and
  whenever.
\<close>

section \<open>Effects that leave the files alone\<close>

definition same_files :: "world \<Rightarrow> world \<Rightarrow> bool" where
  "same_files w w' \<longleftrightarrow> dir w' = dir w \<and> contents w' = contents w \<and> next_inode w' = next_inode w"

lemma same_files_refl [simp]: "same_files w w"
  by (simp add: same_files_def)

lemma same_files_trans: "same_files w w1 \<Longrightarrow> same_files w1 w2 \<Longrightarrow> same_files w w2"
  by (simp add: same_files_def)

definition quiet :: "('e, 'a) io \<Rightarrow> bool" where
  "quiet m \<longleftrightarrow> (\<forall>w. same_files w (snd (m w)))"

named_theorems quiet_intros \<open>effects that leave the files alone\<close>

lemma quietD: "quiet m \<Longrightarrow> m w = (r, w') \<Longrightarrow> same_files w w'"
  by (auto simp: quiet_def dest: spec [of _ w])

lemma quiet_bindio [quiet_intros]: "quiet m \<Longrightarrow> (\<And>x. quiet (f x)) \<Longrightarrow> quiet (bindio m f)"
  unfolding quiet_def bindio_def
  by (auto split: prod.splits sum.splits) (metis same_files_trans snd_conv)+

lemma quiet_mapE [quiet_intros]: "quiet m \<Longrightarrow> quiet (mapE h m)"
  by (auto simp: quiet_def mapE_def split: prod.splits) (metis snd_conv)

lemma quiet_leaf [quiet_intros]: "quiet (ret x)" "quiet (fail e)" "quiet (liftR r)"
  by (simp_all add: quiet_def ret_def fail_def liftR_def)

lemma quiet_random [quiet_intros]: "quiet (random_fill n)" "quiet (random_bytes n)"
  by (auto simp: quiet_def random_bytes_def random_fill_def same_files_def split: option.splits)

lemma quiet_if [quiet_intros]: "quiet m \<Longrightarrow> quiet n \<Longrightarrow> quiet (if b then m else n)"
  by simp

lemma quiet_seal [quiet_intros]: "quiet (aead_seal g k p a)"
  unfolding aead_seal_def by (intro quiet_intros) (auto intro: quiet_intros split: option.splits)

lemma quiet_keys [quiet_intros]: "quiet key_generate" "quiet (wrap_key g k k' a)" "quiet (generate_token sha)"
  unfolding key_generate_def wrap_key_def generate_token_def Let_def by (intro quiet_intros)+

lemma quiet_split [quiet_intros]: "quiet (shamir_split s t n)"
  unfolding shamir_split_def Let_def by (intro quiet_intros)

lemma quiet_hash_password [quiet_intros]: "quiet (hash_password a p)"
  unfolding hash_password_def Let_def by (intro quiet_intros)

lemma quiet_new_id [quiet_intros]: "quiet new_id" "quiet m \<Longrightarrow> quiet (or_crypto m)"
  unfolding new_id_def or_crypto_def by (intro quiet_intros, assumption?)+

lemma quiet_carry_event [quiet_intros]: "quiet (carry_event cr k k' e)"
  by (cases e) (auto simp: carry_event_def Let_def intro!: quiet_intros)

lemma quiet_carry [quiet_intros]: "quiet (carry_events cr k k' es)"
  by (induction es) (auto intro!: quiet_intros)

lemma now_same_files: "now w = (t, w') \<Longrightarrow> same_files w w' \<and> in_range t"
  by (auto simp: now_def read_clock_def same_files_def split: prod.splits)

lemma only_calls_same_files: "only_calls w w' \<Longrightarrow> same_files w w'"
  by (auto simp: same_files_def only_calls_def)

section \<open>A log that may be broken\<close>

text \<open>
  The records a log has acknowledged. After a failed write the file may hold one record more, or a
  torn tail.
\<close>

definition in_step :: "raw_record list \<Rightarrow> log_file \<Rightarrow> world \<Rightarrow> bool" where
  "in_step rs lg w \<longleftrightarrow>
     dir w (lg_path lg) = Some (h_inode (lg_file lg)) \<and>
     (if lg_broken lg then on_disk rs (h_inode (lg_file lg)) w \<or> (\<exists>r. on_disk (rs @ [r]) (h_inode (lg_file lg)) w)
      else stored rs lg w)"

lemma stored_same_files: "same_files w w' \<Longrightarrow> stored rs lg w \<Longrightarrow> stored rs lg w'"
  by (simp add: same_files_def stored_def)

lemma in_step_same_files: "same_files w w' \<Longrightarrow> in_step rs lg w' = in_step rs lg w"
  by (simp add: in_step_def on_disk_def stored_def same_files_def)

lemma inodes_ok_same_files: "same_files w w' \<Longrightarrow> inodes_ok w' = inodes_ok w"
  by (simp add: inodes_ok_def same_files_def)

lemma stored_in_step: "stored rs lg w \<Longrightarrow> in_step rs lg w"
  by (simp add: in_step_def stored_def)

text \<open>Appending to it: the acknowledged records grow by the payload or stay.\<close>

lemma in_step_append:
  assumes "gcm_ok g" and "key_ok key" and "in_step rs lg w" and "decoded g key rs = Inr out"
    and "log_append g key payload lg w = (res, lg', w')"
  obtains (kept) e where "res = Inl e" "in_step rs lg' w'"
  | (grown) r where "res = Inr ()" "stored (rs @ [r]) lg' w'"
      "decoded g key (rs @ [r]) = Inr (out @ [\<lparr>lr_sealed = True, lr_payload = payload\<rparr>])"
proof (cases "lg_broken lg")
  case True
  with broken_append [OF True assms(5)] assms(3) show ?thesis
    by (intro kept [of "projl res"]) (auto simp: in_step_def on_disk_def)
next
  case False
  with assms(3) have st: "stored rs lg w" by (simp add: in_step_def)
  from assms(1,2) st assms(4,5) show ?thesis
  proof (cases rule: log_append_cases)
    case (refused e)
    then show ?thesis by (intro kept [of e]) (auto intro: stored_in_step)
  next
    case (ok r)
    then show ?thesis by (intro grown) simp_all
  next
    case (broken r k)
    have "on_disk rs (h_inode (lg_file lg)) w' \<or> on_disk (rs @ [r]) (h_inode (lg_file lg)) w'"
      by (rule on_disk_prefix [of _ _ _ _ k]) (use broken st in \<open>auto simp: stored_def\<close>)
    then have "on_disk rs (h_inode (lg_file lg)) w' \<or> (\<exists>q. on_disk (rs @ [q]) (h_inode (lg_file lg)) w')"
      by blast
    moreover have "dir w (lg_path lg) = Some (h_inode (lg_file lg))" using st by (simp add: stored_def)
    ultimately show ?thesis
      using broken by (intro kept [of "StoreIo IoFailed"]) (simp_all add: in_step_def)
  qed
qed

section \<open>The invariant\<close>

lemma traverse_snoc: "traverse f (xs @ [x]) = and_then (traverse f xs) (\<lambda>ys. and_then (f x) (\<lambda>y. Inr (ys @ [y])))"
  by (simp add: traverse_append) (cases "traverse f xs"; cases "f x"; simp)

lemma events_of_snoc:
  "events_of (out @ [\<lparr>lr_sealed = True, lr_payload = b\<rparr>]) =
     and_then (events_of out) (\<lambda>es. and_then (event_from_bytes b) (\<lambda>e. Inr (es @ [e])))"
  by (simp add: events_of_def traverse_snoc)

lemma events_of_ok: "events_of out = Inr es \<Longrightarrow> e \<in> set es \<Longrightarrow> event_ok e"
  by (auto simp: events_of_def traverse_eq_Inr_iff list_all2_conv_all_nth in_set_conv_nth intro: event_from_bytes_ok)

text \<open>
  The history of a vault: the records its log has acknowledged, decoded with the root key, are the
  events the state in memory is the replay of.
\<close>

definition history :: "'phc crypto \<Rightarrow> vault \<Rightarrow> world \<Rightarrow> event list \<Rightarrow> bool" where
  "history cr v w es \<longleftrightarrow> (\<exists>k rs out. vt_root_key v = Some k \<and> key_ok k \<and> in_step rs (vt_log v) w \<and>
     decoded (cr_gcm cr) k rs = Inr out \<and> events_of out = Inr es \<and> vt_state v = replay es)"

text \<open>
  Sealed, nothing is in memory; a store without a barrier holds no records. The rewrite of a rekeying
  goes through a second file, which has a name of its own.
\<close>

definition consistent :: "'phc crypto \<Rightarrow> vault \<Rightarrow> world \<Rightarrow> bool" where
  "consistent cr v w \<longleftrightarrow> inodes_ok w \<and>
     with_extension ''compacting'' (lg_path (vt_log v)) \<noteq> lg_path (vt_log v) \<and>
     (if is_sealed v
      then vt_state v = empty_state \<and> (\<exists>rs. in_step rs (vt_log v) w \<and> (vt_barrier v = None \<longrightarrow> rs = []))
      else vt_barrier v \<noteq> None \<and> (\<exists>es. history cr v w es))"

lemma history_same_files: "same_files w w' \<Longrightarrow> history cr v w' = history cr v w"
  by (simp add: history_def in_step_same_files fun_eq_iff)

lemma consistent_same_files: "same_files w w' \<Longrightarrow> consistent cr v w' = consistent cr v w"
  by (simp add: consistent_def history_same_files in_step_same_files inodes_ok_same_files)

lemma history_pending [simp]: "history cr (v\<lparr>vt_pending := p\<rparr>) w = history cr v w"
  by (simp add: history_def fun_eq_iff)

lemma consistent_pending [simp]: "consistent cr (v\<lparr>vt_pending := p\<rparr>) w = consistent cr v w"
  by (simp add: consistent_def is_sealed_def)

lemma history_events_ok: "history cr v w es \<Longrightarrow> e \<in> set es \<Longrightarrow> event_ok e"
  by (auto simp: history_def dest: events_of_ok)

text \<open>Committing: written first, applied after, or neither.\<close>

lemma commit_cases:
  assumes "gcm_ok (cr_gcm cr)" and "event_ok ev" and "history cr v w es" and "commit cr ev v w = (r, v', w')"
  obtains (done_nothing) e where "r = Inl (VaultStore e)" "history cr v' w' es" "vt_state v' = vt_state v"
      "vt_root_key v' = vt_root_key v" "vt_barrier v' = vt_barrier v" "vt_pending v' = vt_pending v"
  | (committed) "r = Inr ()" "history cr v' w' (es @ [ev])" "vt_state v' = apply_event ev (vt_state v)"
      "vt_root_key v' = vt_root_key v" "vt_barrier v' = vt_barrier v" "vt_pending v' = vt_pending v" "\<not> lg_broken (vt_log v')"
proof -
  from assms(3) obtain k rs out where h: "vt_root_key v = Some k" "key_ok k" "in_step rs (vt_log v) w"
    "decoded (cr_gcm cr) k rs = Inr out" "events_of out = Inr es" "vt_state v = replay es"
    by (auto simp: history_def)
  obtain res lg w1 where app: "log_append (cr_gcm cr) k (event_to_bytes ev) (vt_log v) w = (res, lg, w1)"
    by (metis prod_cases3)
  from assms(1) h(2,3,4) app show ?thesis
  proof (cases rule: in_step_append)
    case (kept e)
    with assms(4) h(1) app have v': "r = Inl (VaultStore e)" "v' = v\<lparr>vt_log := lg\<rparr>" "w' = w1"
      by (simp_all add: commit_def)
    have "history cr v' w' es"
      unfolding history_def v'(2,3) using h(1,2,4-6) kept(2)
      by (intro exI [of _ k] exI [of _ rs] exI [of _ out]) simp
    with v' show ?thesis by (intro done_nothing) simp_all
  next
    case (grown q)
    have ev: "events_of (out @ [\<lparr>lr_sealed = True, lr_payload = event_to_bytes ev\<rparr>]) = Inr (es @ [ev])"
      using h(5) event_from_to_bytes [OF assms(2)] by (simp add: events_of_snoc)
    from grown assms(4) h app have v': "r = Inr ()" "v' = v\<lparr>vt_log := lg, vt_state := apply_event ev (vt_state v)\<rparr>" "w' = w1"
      by (simp_all add: commit_def)
    have "history cr v' w' (es @ [ev])"
      unfolding history_def v'(2,3)
      using h grown ev stored_in_step [OF grown(2)] by auto
    with v' grown(2) show ?thesis by (intro committed) (simp_all add: stored_def)
  qed
qed

section \<open>Operations that keep the invariant\<close>

text \<open>
  \<open>keeps cr m Q\<close>: whatever \<open>m\<close> comes to, the invariant is kept, and what it returns satisfies \<open>Q\<close>. The
  rules follow the way operations are composed.
\<close>

definition keeps :: "'phc crypto \<Rightarrow> 'a vault_op \<Rightarrow> ('a \<Rightarrow> bool) \<Rightarrow> bool" where
  "keeps cr m Q \<longleftrightarrow> (\<forall>v w r v' w'. consistent cr v w \<longrightarrow> m v w = (r, v', w') \<longrightarrow>
     consistent cr v' w' \<and> (\<forall>x. r = Inr x \<longrightarrow> Q x))"

lemma keepsI:
  "(\<And>v w r v' w'. consistent cr v w \<Longrightarrow> m v w = (r, v', w') \<Longrightarrow>
     consistent cr v' w' \<and> (\<forall>x. r = Inr x \<longrightarrow> Q x)) \<Longrightarrow> keeps cr m Q"
  by (simp add: keeps_def)

lemma keepsD:
  assumes "keeps cr m Q" and "consistent cr v w" and "m v w = (r, v', w')"
  shows "consistent cr v' w'" and "r = Inr x \<Longrightarrow> Q x"
  using assms by (auto simp: keeps_def)

lemma keeps_bind:
  assumes "keeps cr m Q" and "\<And>x. Q x \<Longrightarrow> keeps cr (f x) R"
  shows "keeps cr (vbind m f) R"
proof (rule keepsI)
  fix v w r v' w' assume c: "consistent cr v w" and run: "vbind m f v w = (r, v', w')"
  obtain r1 v1 w1 where one: "m v w = (r1, v1, w1)" by (metis prod_cases3)
  note k = keepsD [OF assms(1) c one]
  show "consistent cr v' w' \<and> (\<forall>x. r = Inr x \<longrightarrow> R x)"
  proof (cases r1)
    case (Inl e)
    with run one k show ?thesis by (auto simp: vbind_def)
  next
    case (Inr x)
    with run one have "f x v1 w1 = (r, v', w')" by (simp add: vbind_def)
    with keepsD [OF assms(2) k(1)] k(2) [OF Inr] show ?thesis by blast
  qed
qed

lemma keeps_look:
  "(\<And>v w x. consistent cr v w \<Longrightarrow> f v = Inr x \<Longrightarrow> Q x) \<Longrightarrow> keeps cr (vlook f) Q"
  by (auto simp: keeps_def vlook_def)

lemma keeps_ret: "Q x \<Longrightarrow> keeps cr (vret x) Q" and keeps_fail: "keeps cr (vfail e) Q"
  by (simp_all add: keeps_def vret_def vfail_def)

lemma keeps_io:
  assumes "quiet m" and "\<And>w x w'. m w = (Inr x, w') \<Longrightarrow> Q x"
  shows "keeps cr (vio m) Q"
  using assms by (auto simp: keeps_def vio_def consistent_same_files dest: quietD split: prod.splits)

lemma keeps_now: "keeps cr vnow in_range"
  by (auto simp: keeps_def vnow_def consistent_same_files dest: now_same_files split: prod.splits)

lemma keeps_map_err: "keeps cr m Q \<Longrightarrow> keeps cr (vmap_err h m) Q"
  unfolding keeps_def vmap_err_def
  by (auto split: prod.splits)

lemma keeps_conseq: "keeps cr m Q \<Longrightarrow> (\<And>x. Q x \<Longrightarrow> R x) \<Longrightarrow> keeps cr m R"
  by (auto simp: keeps_def)

lemma keeps_commit:
  assumes "gcm_ok (cr_gcm cr)" and "event_ok ev"
  shows "keeps cr (commit cr ev) (\<lambda>_. True)"
proof (rule keepsI)
  fix v w r v' w' assume c: "consistent cr v w" and run: "commit cr ev v w = (r, v', w')"
  have "consistent cr v' w'"
  proof (cases "vt_root_key v")
    case None
    with c run show ?thesis by (simp add: commit_def)
  next
    case (Some k)
    with c obtain es where h: "history cr v w es" and b: "vt_barrier v \<noteq> None" by (auto simp: consistent_def is_sealed_def)
    have same: "same_else (vt_log v) w (vt_log v') w'"
      using run Some log_append_same_else [of "cr_gcm cr" k "event_to_bytes ev" "vt_log v" w]
      by (auto simp: commit_def split: prod.splits sum.splits)
    then have "inodes_ok w'" "lg_path (vt_log v') = lg_path (vt_log v)"
      using c by (auto simp: consistent_def same_else_def inodes_ok_def)
    moreover from assms h run have "\<exists>es. history cr v' w' es" "vt_barrier v' = vt_barrier v" "vt_root_key v' = vt_root_key v"
      by (cases rule: commit_cases; blast)+
    ultimately show ?thesis using c b Some by (simp add: consistent_def is_sealed_def)
  qed
  then show "consistent cr v' w' \<and> (\<forall>x. r = Inr x \<longrightarrow> True)" by simp
qed

section \<open>The text in the state\<close>

text \<open>Identifiers come from events that were read or written, so they are text.\<close>

definition state_ok :: "state \<Rightarrow> bool" where
  "state_ok st \<longleftrightarrow> (\<forall>u\<in>set (users st). utf8_valid (u_id u)) \<and>
     (\<forall>t\<in>set (tokens st). utf8_valid (t_id t) \<and> opt_ok utf8_valid (t_user_id t)) \<and>
     (\<forall>p\<in>set (projects st). utf8_valid (p_id p)) \<and> (\<forall>e\<in>set (environments st). utf8_valid (e_id e))"

lemma update_first_cases: "y \<in> set (update_first p f xs) \<Longrightarrow> \<exists>x\<in>set xs. y = x \<or> y = f x"
  by (induction xs) (auto split: if_splits)

lemma apply_event_state_ok: "event_ok e \<Longrightarrow> state_ok st \<Longrightarrow> state_ok (apply_event e st)"
  by (cases e) (auto simp: state_ok_def dest!: update_first_cases)

lemma empty_state_ok [simp]: "state_ok empty_state"
  by (simp add: state_ok_def empty_state_def)

lemma replay_state_ok: "\<forall>e\<in>set es. event_ok e \<Longrightarrow> state_ok (replay es)"
  by (induction es rule: rev_induct) (simp_all add: apply_event_state_ok)

lemma history_state_ok: "history cr v w es \<Longrightarrow> state_ok (vt_state v)"
  using history_events_ok [of cr v w es] replay_state_ok [of es] by (auto simp: history_def)

lemma consistent_state_ok: "consistent cr v w \<Longrightarrow> state_ok (vt_state v)"
  by (auto simp: consistent_def dest: history_state_ok split: if_splits)

lemma lookups_in_state:
  "user_by_email email st = Some u \<Longrightarrow> u \<in> set (users st)"
  "token_by_hash h st = Some t \<Longrightarrow> t \<in> set (tokens st)"
  "find_token i st = Some t \<Longrightarrow> t \<in> set (tokens st)"
  "project_by_slug slug st = Some p \<Longrightarrow> p \<in> set (projects st)"
  "environment_by_slug i slug st = Some e \<Longrightarrow> e \<in> set (environments st)"
  by (auto simp: user_by_email_def token_by_hash_def find_token_def project_by_slug_def environment_by_slug_def
      Let_def find_Some_iff)

lemma resolve_text:
  assumes "consistent cr v w" and "resolve p e v = Inr ids"
  shows "utf8_valid (fst ids) \<and> utf8_valid (snd ids)"
  using assms(2) consistent_state_ok [OF assms(1)]
  by (auto simp: resolve_def state_ok_def dest!: lookups_in_state)

section \<open>Every operation keeps the invariant\<close>

text \<open>The text a caller carries, and that Argon2 renders its hashes as text.\<close>

definition caller_ok :: "caller \<Rightarrow> bool" where
  "caller_ok c \<longleftrightarrow> utf8_valid (ca_token_id c) \<and> opt_ok utf8_valid (ca_user_id c)"

definition crypto_ok :: "'phc crypto \<Rightarrow> bool" where
  "crypto_ok cr \<longleftrightarrow> gcm_ok (cr_gcm cr) \<and>
     (\<forall>pw salt s. hash_with_salt (cr_argon2 cr) pw salt = Inr s \<longrightarrow> utf8_valid s)"

lemma crypto_gcm: "crypto_ok cr \<Longrightarrow> gcm_ok (cr_gcm cr)"
  by (simp add: crypto_ok_def)

lemma actor_text: "caller_ok c \<Longrightarrow> utf8_valid (actor c)"
  by (auto simp: actor_def caller_ok_def split: option.splits token_kind.splits)

text \<open>The steps the operations share.\<close>

lemma keeps_any: "keeps cr (vlook f) (\<lambda>_. True)"
  by (rule keeps_look) simp

lemma keeps_quiet: "quiet m \<Longrightarrow> keeps cr (vio m) (\<lambda>_. True)"
  by (rule keeps_io) simp_all

lemma new_id_text: "new_id w = (Inr i, w') \<Longrightarrow> utf8_valid i"
  by (auto simp: new_id_def bindio_eq_Inr ret_apply)

lemma keeps_new_id: "keeps cr (vio new_id) utf8_valid"
  by (rule keeps_io) (auto intro: quiet_intros new_id_text)

lemma keeps_resolve: "keeps cr (vlook (resolve p e)) (\<lambda>ids. utf8_valid (fst ids) \<and> utf8_valid (snd ids))"
  by (rule keeps_look) (rule resolve_text)

lemma keeps_audit:
  assumes "crypto_ok cr" and "caller_ok c" and "utf8_valid action" and "utf8_valid target" and "utf8_valid outcome"
  shows "keeps cr (record_audit cr c action target outcome) (\<lambda>_. True)"
  unfolding record_audit_def
  by (rule keeps_bind [OF keeps_now], rule keeps_commit) (use assms in \<open>simp_all add: crypto_gcm actor_text\<close>)

lemma keeps_resolve_and_record:
  assumes "crypto_ok cr" and "caller_ok c" and "utf8_valid action" and "utf8_valid target"
  shows "keeps cr (resolve_and_record cr c action p e target) (\<lambda>ids. utf8_valid (fst ids) \<and> utf8_valid (snd ids))"
proof (rule keepsI)
  fix v w r v' w' assume c: "consistent cr v w" and run: "resolve_and_record cr c action p e target v w = (r, v', w')"
  show "consistent cr v' w' \<and> (\<forall>ids. r = Inr ids \<longrightarrow> utf8_valid (fst ids) \<and> utf8_valid (snd ids))"
  proof (cases "resolve_for c p e v")
    case (Inr ids)
    with run c have "r = Inr ids" "consistent cr v' w'" "resolve p e v = Inr ids"
      by (auto simp: resolve_and_record_def vret_def resolve_for_def split: sum.splits if_splits)
    with resolve_text [OF c] show ?thesis by blast
  next
    case (Inl err)
    have k: "keeps cr (vbind (record_audit cr c action target ''unknown'') (\<lambda>_. vfail err)) (\<lambda>_. False)"
      by (rule keeps_bind [OF keeps_audit keeps_fail]) (use assms in simp_all)
    from run Inl have "vbind (record_audit cr c action target ''unknown'') (\<lambda>_. vfail err) v w = (r, v', w')"
      by (simp add: resolve_and_record_def)
    from keepsD [OF k c this] show ?thesis by blast
  qed
qed

lemma keeps_authorise_or_record:
  assumes "crypto_ok cr" and "caller_ok c" and "utf8_valid action" and "utf8_valid target"
  shows "keeps cr (authorise_or_record cr c cap action target ids) (\<lambda>_. True)"
  using assms
  by (auto simp: authorise_or_record_def intro!: keeps_ret keeps_bind [OF keeps_audit keeps_fail] split: sum.splits)

lemma slot_target_text: "utf8_valid p \<Longrightarrow> utf8_valid e \<Longrightarrow> utf8_valid k \<Longrightarrow> utf8_valid (slot_target p e k)"
  by (simp add: slot_target_def)

text \<open>The operations on secrets.\<close>

lemma keeps_set_secret:
  assumes "crypto_ok cr" and "caller_ok c" and "utf8_valid p" and "utf8_valid e"
  shows "keeps cr (set_secret cr c p e k val) (\<lambda>_. True)"
  unfolding set_secret_def Let_def
  apply (rule keeps_bind [OF keeps_any])
  apply (rule keeps_bind [OF keeps_look [where Q = utf8_valid]])
   apply (simp add: valid_secret_key_text)
  apply (rule keeps_bind [OF keeps_resolve_and_record])
      apply (use assms slot_target_text in \<open>simp_all\<close>) [4]
  apply (rule keeps_bind [OF keeps_authorise_or_record])
      apply (use assms slot_target_text in \<open>simp_all\<close>) [4]
  apply (rule keeps_bind [OF keeps_any])
  apply (rule keeps_bind [OF keeps_quiet], intro quiet_intros)
  apply (rule keeps_bind [OF keeps_now])
  apply (rule keeps_bind [OF keeps_commit])
    apply (use assms in \<open>simp_all add: crypto_gcm\<close>) [2]
  apply (rule keeps_audit)
      apply (use assms slot_target_text in \<open>simp_all\<close>)
  done

lemma keeps_get_secret:
  assumes "crypto_ok cr" and "caller_ok c" and "utf8_valid p" and "utf8_valid e" and "utf8_valid k"
  shows "keeps cr (get_secret cr c p e k) (\<lambda>_. True)"
  unfolding get_secret_def Let_def
  apply (rule keeps_bind [OF keeps_any])
  apply (rule keeps_bind [OF keeps_resolve_and_record])
      apply (use assms slot_target_text in \<open>simp_all\<close>) [4]
  apply (rule keeps_bind [OF keeps_authorise_or_record])
      apply (use assms slot_target_text in \<open>simp_all\<close>) [4]
  apply (rule keeps_bind [OF keeps_any])
  apply (split option.split, intro conjI allI impI)
   apply (rule keeps_bind [OF keeps_audit keeps_fail])
       apply (use assms slot_target_text in \<open>simp_all\<close>) [5]
  apply (rule keeps_bind [OF keeps_any])
  apply (rule keeps_bind [OF keeps_any])
  apply (rule keeps_bind [OF keeps_audit keeps_ret])
       apply (use assms slot_target_text in \<open>simp_all\<close>)
  done

lemma keeps_list_secrets:
  assumes "crypto_ok cr" and "caller_ok c" and "utf8_valid p" and "utf8_valid e"
  shows "keeps cr (list_secrets cr c p e) (\<lambda>_. True)"
  unfolding list_secrets_def Let_def
  apply (rule keeps_bind [OF keeps_any])
  apply (rule keeps_bind [OF keeps_resolve_and_record])
      apply (use assms in \<open>simp_all\<close>) [4]
  apply (rule keeps_bind [OF keeps_authorise_or_record])
      apply (use assms in \<open>simp_all\<close>) [4]
  apply (rule keeps_bind [OF keeps_any])
  apply (rule keeps_bind [OF keeps_any])
  apply (rule keeps_bind [OF keeps_any])
  apply (rule keeps_bind [OF keeps_audit keeps_ret])
       apply (use assms in \<open>simp_all\<close>)
  done

lemma keeps_delete_secret:
  assumes "crypto_ok cr" and "caller_ok c" and "utf8_valid p" and "utf8_valid e" and "utf8_valid k"
  shows "keeps cr (delete_secret cr c p e k) (\<lambda>_. True)"
  unfolding delete_secret_def Let_def
  apply (rule keeps_bind [OF keeps_any])
  apply (rule keeps_bind [OF keeps_resolve_and_record])
      apply (use assms slot_target_text in \<open>simp_all\<close>) [4]
  apply (rule keeps_bind [OF keeps_authorise_or_record])
      apply (use assms slot_target_text in \<open>simp_all\<close>) [4]
  apply (rule keeps_bind [OF keeps_any])
  apply (rule keeps_bind [OF keeps_now])
  apply (rule keeps_bind [OF keeps_commit])
    apply (use assms in \<open>simp_all add: crypto_gcm\<close>) [2]
  apply (rule keeps_audit)
      apply (use assms slot_target_text in \<open>simp_all\<close>)
  done

text \<open>Users, tokens, projects and environments.\<close>

lemma plus_seconds_range [simp]: "in_range (plus_seconds t s)"
  by (simp add: plus_seconds_def)

lemma hash_password_text: "crypto_ok cr \<Longrightarrow> hash_password (cr_argon2 cr) pw w = (Inr h, w') \<Longrightarrow> utf8_valid h"
  by (auto simp: hash_password_def Let_def crypto_ok_def bindio_eq_Inr mapE_eq_Inr liftR_def fail_def split: if_splits)

lemma keeps_create_user:
  assumes "crypto_ok cr" and "utf8_valid email"
  shows "keeps cr (create_user cr c email password) (\<lambda>_. True)"
  unfolding create_user_def
  apply (rule keeps_bind [OF keeps_any])
  apply (rule keeps_bind [OF keeps_any])
  apply (rule keeps_bind [OF keeps_look [where Q = utf8_valid]])
   apply (rule valid_email_text [OF assms(2)], assumption)
  apply (rule keeps_bind [OF keeps_any])
  apply (rule keeps_bind [OF keeps_io [where Q = utf8_valid]])
    apply (intro quiet_intros)
   apply (use assms in \<open>auto simp: mapE_eq_Inr intro: hash_password_text\<close>) [1]
  apply (rule keeps_bind [OF keeps_new_id])
  apply (rule keeps_bind [OF keeps_now])
  apply (rule keeps_bind [OF keeps_commit keeps_ret])
     apply (use assms in \<open>simp_all add: crypto_gcm\<close>)
  done

lemma keeps_issue_token:
  assumes "crypto_ok cr" and "opt_ok utf8_valid user" and "opt_ok utf8_valid p" and "opt_ok utf8_valid e"
    and "opt_ok utf8_valid label"
  shows "keeps cr (issue_token cr kind user p e label ttl) (\<lambda>_. True)"
  unfolding issue_token_def
  apply (rule keeps_bind [OF keeps_quiet], intro quiet_intros)
  apply (rule keeps_bind [OF keeps_new_id])
  apply (rule keeps_bind [where Q = "opt_ok in_range"])
   apply (split option.split, intro conjI allI impI)
    apply (rule keeps_ret, simp)
   apply (rule keeps_bind [OF keeps_now keeps_ret], simp)
  apply (rule keeps_bind [OF keeps_now])
  apply (rule keeps_bind [OF keeps_commit keeps_ret])
     apply (use assms in \<open>simp_all add: crypto_gcm\<close>)
  done

lemma keeps_login:
  assumes "crypto_ok cr"
  shows "keeps cr (login cr email password ttl) (\<lambda>_. True)"
  unfolding login_def
  apply (rule keeps_bind [OF keeps_any])
  apply (rule keeps_bind [OF keeps_any])
  apply (rule keeps_bind [OF keeps_look [where Q = "\<lambda>u. utf8_valid (u_id u)"]])
   apply (auto simp: Let_def state_ok_def dest!: consistent_state_ok lookups_in_state split: option.splits) [1]
  apply (rule keeps_bind [OF keeps_any])
  apply (rule keeps_issue_token)
      apply (use assms in \<open>simp_all\<close>)
  done

lemma keeps_issue_machine_token:
  assumes "crypto_ok cr" and "utf8_valid label"
  shows "keeps cr (issue_machine_token cr c p e label ttl) (\<lambda>_. True)"
  unfolding issue_machine_token_def
  apply (rule keeps_bind [OF keeps_any])
  apply (rule keeps_bind [OF keeps_any])
  apply (rule keeps_bind [OF keeps_any])
  apply (rule keeps_bind [OF keeps_resolve])
  apply (split prod.split, intro allI impI, rule keeps_issue_token)
      apply (use assms in \<open>simp_all\<close>)
  done

lemma keeps_revoke_token:
  assumes "crypto_ok cr" and "utf8_valid i"
  shows "keeps cr (revoke_token cr c i) (\<lambda>_. True)"
  unfolding revoke_token_def
  apply (rule keeps_bind [OF keeps_any])
  apply (rule keeps_bind [OF keeps_any])
  apply (rule keeps_bind [OF keeps_any])
  apply (rule keeps_bind [OF keeps_now])
  apply (rule keeps_commit)
   apply (use assms in \<open>simp_all add: crypto_gcm\<close>)
  done

lemma keeps_create_project:
  assumes "crypto_ok cr" and "utf8_valid name"
  shows "keeps cr (create_project cr c slug name) (\<lambda>_. True)"
  unfolding create_project_def
  apply (rule keeps_bind [OF keeps_any])
  apply (rule keeps_bind [OF keeps_any])
  apply (rule keeps_bind [OF keeps_look [where Q = utf8_valid]])
   apply (simp add: valid_slug_text)
  apply (rule keeps_bind [OF keeps_any])
  apply (rule keeps_bind [OF keeps_new_id])
  apply (rule keeps_bind [OF keeps_quiet], intro quiet_intros)
  apply (rule keeps_bind [OF keeps_any])
  apply (rule keeps_bind [OF keeps_quiet], intro quiet_intros)
  apply (rule keeps_bind [OF keeps_now])
  apply (rule keeps_bind [OF keeps_commit keeps_ret])
     apply (use assms in \<open>simp_all add: crypto_gcm\<close>)
  done

lemma keeps_create_environment:
  assumes "crypto_ok cr" and "utf8_valid name"
  shows "keeps cr (create_environment cr c p slug name) (\<lambda>_. True)"
  unfolding create_environment_def
  apply (rule keeps_bind [OF keeps_any])
  apply (rule keeps_bind [OF keeps_any])
  apply (rule keeps_bind [OF keeps_look [where Q = utf8_valid]])
   apply (simp add: valid_slug_text)
  apply (rule keeps_bind [OF keeps_look [where Q = utf8_valid]])
   apply (auto simp: state_ok_def dest!: consistent_state_ok lookups_in_state) [1]
  apply (rule keeps_bind [OF keeps_any])
  apply (rule keeps_bind [OF keeps_new_id])
  apply (rule keeps_bind [OF keeps_now])
  apply (rule keeps_bind [OF keeps_commit keeps_ret])
     apply (use assms in \<open>simp_all add: crypto_gcm\<close>)
  done

text \<open>Sealing, and reading under a key.\<close>

lemma keeps_seal_as: "keeps cr (seal_as c) (\<lambda>_. True)"
  unfolding seal_as_def
proof (rule keeps_bind [OF keeps_any], rule keepsI)
  fix v w and r :: "vault_error + unit" and v' w'
  assume c: "consistent cr v w" and "vset vault_seal v w = (r, v', w')"
  then have "v' = vault_seal v" "w' = w" by (simp_all add: vset_def)
  moreover have "\<exists>rs. in_step rs (vt_log v) w \<and> (vt_barrier v = None \<longrightarrow> rs = [])"
    using c by (auto simp: consistent_def history_def split: if_splits)
  ultimately show "consistent cr v' w' \<and> (\<forall>x. r = Inr x \<longrightarrow> True)"
    using c by (simp add: consistent_def vault_seal_def is_sealed_def)
qed

lemma for_each_record_any:
  assumes "dir w p = Some i" and "on_disk rs i w" and "for_each_record p visit out w = (r, w')"
  shows "only_calls w w' \<and> (\<forall>x. r = Inr x \<longrightarrow> visit_all visit 0 out rs = Inr x)"
proof -
  obtain t where t: "torn t" "contents w i = log_image rs @ t" "\<And>q. q \<in> set rs \<Longrightarrow> record_fits q"
    using assms(2) by (auto simp: on_disk_def)
  show ?thesis
  proof (cases "fault w (calls w) = None \<and> fault w (Suc (calls w)) = None")
    case True
    let ?w = "w\<lparr>calls := Suc (Suc (calls w))\<rparr>" and ?h = "\<lparr>h_inode = i, h_offset = header_len\<rparr>"
    have "ends_as ?w (visit_loop visit 0 header_len out ?h ?w) (visit_all visit 0 out rs)"
      by (rule visit_image [of _ _ header]) (use t in \<open>simp_all add: log_image_def\<close>)
    moreover have "for_each_record p visit out w = visit_loop visit 0 header_len out ?h ?w"
      using True assms(1) t(2) by (simp add: for_each_record_def bindio_def mapE_def ret_def read_header_def
          fs_open_read_def fs_read_def next_fault_def log_image_def Let_def)
    ultimately have "ends_as w (r, w') (visit_all visit 0 out rs)"
      using assms(3) by (auto intro: ends_as_step)
    then show ?thesis by (auto simp: ends_as_def)
  next
    case False
    with assms(1,3) t(2) show ?thesis
      by (auto simp: for_each_record_def bindio_def mapE_def read_header_def fs_open_read_def fs_read_def
          next_fault_def split: option.splits)
  qed
qed

lemma read_records_in_step:
  assumes "in_step rs lg w" and "read_records g k lg w = (r, w')"
  shows "same_files w w' \<and> (\<forall>out. r = Inr out \<longrightarrow> (\<exists>qs. in_step qs lg w' \<and> decoded g k qs = Inr out \<and>
     (\<not> lg_broken lg \<longrightarrow> qs = rs)))"
proof -
  have dir: "dir w (lg_path lg) = Some (h_inode (lg_file lg))" using assms(1) by (simp add: in_step_def)
  obtain qs where qs: "on_disk qs (h_inode (lg_file lg)) w" "in_step qs lg w" "\<not> lg_broken lg \<longrightarrow> qs = rs"
  proof (cases "lg_broken lg")
    case True
    with assms(1) obtain qs where "on_disk qs (h_inode (lg_file lg)) w" by (auto simp: in_step_def)
    with dir True show thesis by (intro that [of qs]) (simp_all add: in_step_def)
  next
    case False
    with assms(1) have "stored rs lg w" by (simp add: in_step_def)
    with assms(1) False show thesis by (intro that [of rs]) (simp_all add: stored_on_disk)
  qed
  have "only_calls w w' \<and> (\<forall>out. r = Inr out \<longrightarrow> decoded g k qs = Inr out)"
    using for_each_record_any [OF dir qs(1)] assms(2) by (simp add: read_records_def decoded_def)
  then show ?thesis using qs only_calls_same_files [of w w'] in_step_same_files [of w w'] by blast
qed

lemma consistent_in_step: "consistent cr v w \<Longrightarrow> \<exists>rs. in_step rs (vt_log v) w"
  by (auto simp: consistent_def history_def split: if_splits)

lemma keeps_reading:
  "keeps cr (vreading (read_records g k)) (\<lambda>_. True)"
proof (rule keepsI)
  fix v w r v' w' assume c: "consistent cr v w" and run: "vreading (read_records g k) v w = (r, v', w')"
  obtain rr w1 where read: "read_records g k (vt_log v) w = (rr, w1)" by (metis prod.collapse)
  obtain rs where "in_step rs (vt_log v) w" using consistent_in_step [OF c] by blast
  from read_records_in_step [OF this read] have "same_files w w1" by blast
  with run read c show "consistent cr v' w' \<and> (\<forall>x. r = Inr x \<longrightarrow> True)"
    by (simp add: vreading_def vio_def mapE_def consistent_same_files)
qed

lemma keeps_audit_trail: "keeps cr (audit_trail cr c) (\<lambda>_. True)"
  unfolding audit_trail_def
  by (rule keeps_bind [OF keeps_any], rule keeps_bind [OF keeps_any], rule keeps_bind [OF keeps_reading keeps_ret]) simp

text \<open>An attempt to unseal: nothing but the vault changes, and only when it succeeds.\<close>

lemma try_unseal_cases:
  assumes "consistent cr v w" and "try_unseal cr v w = (r, v', w')"
  obtains (failed) e where "r = Inl e" "v' = v" "same_files w w'"
  | (opened) k rs out es where "r = Inr ()" "same_files w w'" "key_ok k" "in_step rs (vt_log v) w'"
      "decoded (cr_gcm cr) k rs = Inr out" "events_of out = Inr es" "vt_barrier v \<noteq> None"
      "v' = v\<lparr>vt_root_key := Some k, vt_state := replay es, vt_pending := []\<rparr>"
proof (cases "\<exists>b m mk k. vt_barrier v = Some b \<and> combine (vt_pending v) = Inr m \<and> key_from_bytes m = Some mk \<and>
    unwrap_key (cr_gcm cr) mk (envelope_of_sealed (br_root_key b)) barrier_context = Inr k")
  case False
  with assms(2) show ?thesis
    by (intro failed [of "projl r"])
      (auto simp: try_unseal_def vbind_def vlook_def ok_or_def map_err_def split: option.splits sum.splits)
next
  case True
  then obtain b m mk k where b: "vt_barrier v = Some b" "combine (vt_pending v) = Inr m" "key_from_bytes m = Some mk"
    "unwrap_key (cr_gcm cr) mk (envelope_of_sealed (br_root_key b)) barrier_context = Inr k" by blast
  have k: "key_ok k" using b(4) by (rule unwrap_key_ok)
  obtain rr w1 where read: "read_records (cr_gcm cr) k (vt_log v) w = (rr, w1)" by (metis prod.collapse)
  obtain rs where "in_step rs (vt_log v) w" using consistent_in_step [OF assms(1)] by blast
  note reads = read_records_in_step [OF this read]
  show ?thesis
  proof (cases rr)
    case (Inl e)
    with assms(2) b read reads show ?thesis
      by (intro failed [of "VaultStore e"])
        (auto simp: try_unseal_def vault_replay_def vreading_def vio_def mapE_def vbind_def vlook_def)
  next
    case (Inr out)
    with reads obtain qs where qs: "in_step qs (vt_log v) w1" "decoded (cr_gcm cr) k qs = Inr out" by blast
    show ?thesis
    proof (cases "events_of out")
      case (Inl e)
      with assms(2) b read reads Inr show ?thesis
        by (intro failed [of "VaultStore e"])
          (auto simp: try_unseal_def vault_replay_def vreading_def vio_def mapE_def vbind_def vlook_def)
    next
      case ev: (Inr es)
      have "r = Inr () \<and> w' = w1 \<and> v' = v\<lparr>vt_root_key := Some k, vt_state := replay es, vt_pending := []\<rparr>"
        using assms(2) b read Inr ev
        by (simp add: try_unseal_def vault_replay_def vreading_def vio_def mapE_def vbind_def vlook_def vset_def)
      with reads qs k ev b(1) show ?thesis by (intro opened [of k qs out es]) simp_all
    qed
  qed
qed

lemma keeps_try_unseal: "keeps cr (try_unseal cr) (\<lambda>_. True)"
proof (rule keepsI)
  fix v w r v' w' assume c: "consistent cr v w" and "try_unseal cr v w = (r, v', w')"
  then show "consistent cr v' w' \<and> (\<forall>x. r = Inr x \<longrightarrow> True)"
  proof (cases rule: try_unseal_cases)
    case (failed e)
    with c show ?thesis by (simp add: consistent_same_files)
  next
    case (opened k rs out es)
    then have "history cr v' w' es" by (auto simp: history_def)
    with opened c show ?thesis
      by (auto simp: consistent_def is_sealed_def inodes_ok_same_files)
  qed
qed

lemma keeps_submit_share: "keeps cr (submit_share cr printed) (\<lambda>_. True)"
proof (rule keepsI)
  fix v w r v' w' assume c: "consistent cr v w" and run: "submit_share cr printed v w = (r, v', w')"
  define v1 where "v1 = (case parse_share (cr_sha cr) printed of
      Inr share \<Rightarrow> v\<lparr>vt_pending := if share \<in> set (vt_pending v) then vt_pending v else vt_pending v @ [share]\<rparr>
    | Inl _ \<Rightarrow> v)"
  have c1: "consistent cr v1 w" using c by (simp add: v1_def split: sum.splits)
  obtain r2 v2 w2 where att: "try_unseal cr v1 w = (r2, v2, w2)" by (metis prod_cases3)
  have c2: "consistent cr v2 w2" by (rule keepsD(1) [OF keeps_try_unseal c1 att])
  from run att have "(v', w') = (v, w) \<or> (v', w') = (v1, w) \<or> (v', w') = (v2, w2) \<or> (v', w') = (v2\<lparr>vt_pending := []\<rparr>, w2)"
    by (auto simp: submit_share_def Let_def v1_def split: option.splits sum.splits if_splits)
  with c c1 c2 show "consistent cr v' w' \<and> (\<forall>x. r = Inr x \<longrightarrow> True)" by auto
qed

text \<open>Steps that leave the vault and the files alone, and what they return.\<close>

definition observes :: "'a vault_op \<Rightarrow> ('a \<Rightarrow> bool) \<Rightarrow> bool" where
  "observes m Q \<longleftrightarrow> (\<forall>v w r v' w'. m v w = (r, v', w') \<longrightarrow>
     v' = v \<and> same_files w w' \<and> (\<forall>x. r = Inr x \<longrightarrow> Q x))"

lemma observes_look: "(\<And>v x. f v = Inr x \<Longrightarrow> Q x) \<Longrightarrow> observes (vlook f) Q"
  by (auto simp: observes_def vlook_def)

lemma observes_io: "quiet m \<Longrightarrow> (\<And>w x w'. m w = (Inr x, w') \<Longrightarrow> Q x) \<Longrightarrow> observes (vio m) Q"
  by (auto simp: observes_def vio_def dest: quietD split: prod.splits)

lemma observes_now: "observes vnow in_range"
  by (auto simp: observes_def vnow_def dest: now_same_files split: prod.splits)

text \<open>Operations on a store that has no barrier yet.\<close>

definition starts :: "'phc crypto \<Rightarrow> 'a vault_op \<Rightarrow> bool" where
  "starts cr m \<longleftrightarrow> (\<forall>v w r v' w'. consistent cr v w \<longrightarrow> vt_barrier v = None \<longrightarrow> m v w = (r, v', w') \<longrightarrow> consistent cr v' w')"

lemma starts_bind:
  assumes "observes m Q" and "\<And>x. Q x \<Longrightarrow> starts cr (f x)"
  shows "starts cr (vbind m f)"
  unfolding starts_def
proof (intro allI impI)
  fix v w r v' w' assume c: "consistent cr v w" "vt_barrier v = None" and run: "vbind m f v w = (r, v', w')"
  obtain r1 v1 w1 where one: "m v w = (r1, v1, w1)" by (metis prod_cases3)
  with assms(1) have o: "v1 = v" "same_files w w1" "\<And>x. r1 = Inr x \<Longrightarrow> Q x" by (auto simp: observes_def)
  with c have c1: "consistent cr v w1" by (simp add: consistent_same_files)
  show "consistent cr v' w'"
  proof (cases r1)
    case (Inl e)
    with run one o(1) c1 show ?thesis by (simp add: vbind_def)
  next
    case (Inr x)
    with run one o(1) have "f x v w1 = (r, v', w')" by (simp add: vbind_def)
    with assms(2) [OF o(3) [OF Inr]] c1 c(2) show ?thesis by (auto simp: starts_def)
  qed
qed

lemma append_plain_first:
  assumes "in_step [] lg w" and "append_plain bs lg w = (r, lg', w')"
  shows "same_else lg w lg' w' \<and> (case r of Inl _ \<Rightarrow> in_step [] lg' w' | Inr _ \<Rightarrow> stored [(kind_plain, bs)] lg' w')"
proof (cases "lg_broken lg")
  case True
  with assms show ?thesis by (auto simp: append_plain_def write_record_def same_else_def)
next
  case False
  with assms have st: "stored [] lg w" and run: "write_record kind_plain bs lg w = (r, lg', w')"
    by (simp_all add: in_step_def append_plain_def)
  have dir: "dir w (lg_path lg) = Some (h_inode (lg_file lg))" using st by (simp add: stored_def)
  from st run have "case r of Inl _ \<Rightarrow> in_step [] lg' w' | Inr _ \<Rightarrow> stored [(kind_plain, bs)] lg' w'"
  proof (cases rule: write_record_cases)
    case (broken k)
    have "on_disk [] (h_inode (lg_file lg)) w' \<or> on_disk ([] @ [(kind_plain, bs)]) (h_inode (lg_file lg)) w'"
      by (rule on_disk_prefix [of _ _ _ _ k]) (use broken in simp_all)
    with broken dir show ?thesis by (auto simp: in_step_def)
  qed (use st in \<open>simp_all add: stored_in_step\<close>)
  with write_record_same_else [OF run] show ?thesis by simp
qed

lemma same_else_kept: "same_else lg w lg' w' \<Longrightarrow> inodes_ok w \<Longrightarrow> inodes_ok w' \<and> lg_path lg' = lg_path lg"
  by (simp add: same_else_def inodes_ok_def)

lemma install_barrier:
  assumes "consistent cr v w" and "vt_barrier v = None" and "key_ok k"
    and "vlog (append_plain bs) v w = (r, v1, w1)"
  shows "case r of Inl _ \<Rightarrow> consistent cr v1 w1
    | Inr _ \<Rightarrow> consistent cr (v1\<lparr>vt_barrier := Some b, vt_root_key := Some k\<rparr>) w1 \<and>
        history cr (v1\<lparr>vt_barrier := Some b, vt_root_key := Some k\<rparr>) w1 []"
proof -
  from assms(1,2) have "in_step [] (vt_log v) w" and st: "vt_state v = empty_state" "is_sealed v"
    by (auto simp: consistent_def split: if_splits)
  obtain rr lg where app: "append_plain bs (vt_log v) w = (rr, lg, w1)" and v1: "v1 = v\<lparr>vt_log := lg\<rparr>"
    and r: "r = map_err VaultStore rr"
    using assms(4) by (auto simp: vlog_def split: prod.splits)
  note f = append_plain_first [OF \<open>in_step [] (vt_log v) w\<close> app]
  have ok: "inodes_ok w1" "lg_path lg = lg_path (vt_log v)"
    using f same_else_kept [of "vt_log v" w lg w1] assms(1) by (auto simp: consistent_def)
  show ?thesis
  proof (cases rr)
    case (Inl e)
    with f ok st assms(1,2) show ?thesis by (auto simp: r v1 map_err_def consistent_def is_sealed_def)
  next
    case (Inr u)
    have "decoded (cr_gcm cr) k [(kind_plain, bs)] = Inr [\<lparr>lr_sealed = False, lr_payload = bs\<rparr>]"
      using decoded_snoc [of "cr_gcm cr" k "[]" "(kind_plain, bs)"] by (simp add: collect_record_def)
    moreover have "events_of [\<lparr>lr_sealed = False, lr_payload = bs\<rparr>] = Inr []" by (simp add: events_of_def)
    moreover have "in_step [(kind_plain, bs)] lg w1" using f Inr by (auto intro: stored_in_step)
    ultimately have "history cr (v1\<lparr>vt_barrier := Some b, vt_root_key := Some k\<rparr>) w1 []"
      using assms(3) st by (auto simp: history_def v1)
    with Inr ok assms(1) show ?thesis by (auto simp: r v1 map_err_def consistent_def is_sealed_def)
  qed
qed

lemma starts_install:
  assumes "key_ok k" and "keeps cr m (\<lambda>_. True)"
  shows "starts cr (vbind (vlog (append_plain bs)) (\<lambda>_.
    vbind (vset (\<lambda>v. v\<lparr>vt_barrier := Some b, vt_root_key := Some k\<rparr>)) (\<lambda>_. m)))"
  unfolding starts_def
proof (intro allI impI)
  fix v w r v' w' assume c: "consistent cr v w" "vt_barrier v = None"
    and run: "vbind (vlog (append_plain bs)) (\<lambda>_. vbind (vset (\<lambda>v. v\<lparr>vt_barrier := Some b, vt_root_key := Some k\<rparr>)) (\<lambda>_. m)) v w = (r, v', w')"
  obtain rr v1 w1 where one: "vlog (append_plain bs) v w = (rr, v1, w1)" by (metis prod_cases3)
  note i = install_barrier [OF c assms(1) one, of b]
  show "consistent cr v' w'"
  proof (cases rr)
    case (Inl e)
    with run one i show ?thesis by (simp add: vbind_def)
  next
    case (Inr u)
    with run one have "m (v1\<lparr>vt_barrier := Some b, vt_root_key := Some k\<rparr>) w1 = (r, v', w')"
      by (simp add: vbind_def vset_def)
    with keepsD(1) [OF assms(2)] i Inr show ?thesis by auto
  qed
qed

lemma key_generate_or_crypto: "or_crypto key_generate w = (Inr k, w') \<Longrightarrow> key_ok k"
  by (auto simp: or_crypto_def mapE_eq_Inr dest: key_generate_ok)

lemma keeps_vault_init:
  assumes "crypto_ok cr"
  shows "keeps cr (vault_init cr t n) (\<lambda>_. True)"
proof (rule keepsI)
  fix v w r v' w' assume c: "consistent cr v w" and run: "vault_init cr t n v w = (r, v', w')"
  have "consistent cr v' w'"
  proof (cases "vt_barrier v")
    case (Some b)
    with run c show ?thesis by (simp add: vault_init_def vbind_def vlook_def is_initialized_def)
  next
    case None
    have "starts cr (vault_init cr t n)"
      unfolding vault_init_def Let_def
      apply (rule starts_bind [OF observes_look [where Q = "\<lambda>_. True"]], simp)
      apply (rule starts_bind [OF observes_io [where Q = "\<lambda>_. True"]], intro quiet_intros, simp)
      apply (rule starts_bind [OF observes_io [where Q = "\<lambda>_. True"]], intro quiet_intros, simp)
      apply (rule starts_bind [OF observes_look [where Q = "\<lambda>_. True"]], simp)
      apply (rule starts_bind [OF observes_io [where Q = key_ok]], intro quiet_intros, rule key_generate_or_crypto, assumption)
      apply (rule starts_bind [OF observes_io [where Q = "\<lambda>_. True"]], intro quiet_intros, simp)
      apply (rule starts_bind [OF observes_io [where Q = "\<lambda>_. True"]], intro quiet_intros, simp)
      apply (rule starts_bind [OF observes_io [where Q = utf8_valid]], intro quiet_intros, rule new_id_text, assumption)
      apply (rule starts_bind [OF observes_now])
      apply (rule starts_install, assumption)
      apply (rule keeps_bind [OF keeps_now])
      apply (rule keeps_bind [OF keeps_map_err [OF keeps_commit] keeps_ret])
        apply (use assms in \<open>simp_all add: crypto_gcm\<close>)
      done
    with c None run show ?thesis by (auto simp: starts_def)
  qed
  then show "consistent cr v' w' \<and> (\<forall>x. r = Inr x \<longrightarrow> True)" by simp
qed

end
