(* ===== verification/Vault_Progress.thy ===== *)
theory Vault_Progress
  imports Vault_Safety
begin

text \<open>
  What succeeds: in a world whose files work and whose entropy does not run out, initialising a new
  store and committing an event of ordinary size go through.
\<close>

section \<open>How long rendered JSON is\<close>

text \<open>Characters that are written as they are.\<close>

definition plain_char :: "char \<Rightarrow> bool" where
  "plain_char c \<longleftrightarrow> 32 \<le> code c \<and> code c < 128 \<and> c \<noteq> CHR 0x22 \<and> c \<noteq> CHR 0x5C"

fun weight :: "json \<Rightarrow> nat" where
  "weight (JString s) = (if list_all plain_char s then length s + 2 else 6 * length s + 2)"
| "weight (JArray xs) = 2 + sum_list (map (\<lambda>v. weight v + 1) xs)"
| "weight (JObject fs) = 2 + sum_list (map (\<lambda>(n, v). weight (JString n) + weight v + 2) fs)"
| "weight v = length (render v)"

lemma write_char_le: "ch \<noteq> [] \<Longrightarrow> length (write_char ch) \<le> 6 * length ch"
  by (auto simp: write_char_def show_04x_def split: list.splits)

lemma write_string_le: "length (write_string s) \<le> weight (JString s)"
proof (cases "list_all plain_char s")
  case True
  have "write_char [c] = [c]" if "plain_char c" for c
    using that by (auto simp: plain_char_def write_char_def)
  moreover have "chars s = map (\<lambda>c. [c]) s"
    by (rule chars_ascii) (use True in \<open>auto simp: list_all_iff plain_char_def\<close>)
  ultimately have "map write_char (chars s) = map (\<lambda>c. [c]) s"
    using True by (simp add: list_all_iff)
  moreover have "length (concat (map (\<lambda>c. [c]) s)) = length s" by (induction s) simp_all
  ultimately show ?thesis using True by (simp add: write_string_def)
next
  case False
  have "length (concat (map write_char chs)) \<le> 6 * length (concat chs)" if "\<forall>ch\<in>set chs. ch \<noteq> []" for chs
    using that write_char_le by (induction chs) (force simp: algebra_simps intro: add_mono)+
  from this [of "chars s"] chars_nonempty [of _ s] False show ?thesis
    by (auto simp: write_string_def)
qed

lemma length_separated_le: "length (separated xs) \<le> sum_list (map (\<lambda>x. length x + 1) xs)"
proof -
  have "length (concat (map (\<lambda>z. CHR '','' # z) zs)) = sum_list (map (\<lambda>x. length x + 1) zs)" for zs
    by (induction zs) simp_all
  then show ?thesis by (simp add: separated_def split: list.split)
qed

lemma length_render_le: "length (render v) \<le> weight v"
proof (induction v rule: render.induct)
  case (5 s)
  then show ?case using write_string_le by simp
next
  case (6 xs)
  have "sum_list (map (\<lambda>x. length x + 1) (map render xs)) \<le> sum_list (map (\<lambda>v. weight v + 1) xs)"
    using 6 by (simp add: o_def sum_list_mono)
  with length_separated_le [of "map render xs"] show ?case by simp
next
  case (7 fs)
  have "sum_list (map (\<lambda>x. length x + 1) (map (\<lambda>(n, v). write_string n @ '':'' @ render v) fs))
      \<le> sum_list (map (\<lambda>(n, v). weight (JString n) + weight v + 2) fs)"
    using 7 write_string_le
    by (auto simp: o_def simp del: weight.simps(1) intro!: sum_list_mono add_mono split: prod.splits)
  with length_separated_le [of "map (\<lambda>(n, v). write_string n @ '':'' @ render v) fs"] show ?case by simp
qed simp_all

lemma plain_hex [simp]: "list_all plain_char (hex_encode bs)"
proof -
  have "plain_char c" if "c \<in> set (hex_encode bs)" for c
    using hex_encode_lowercase [OF that] by (auto simp: plain_char_def is_ascii_digit_def)
  then show ?thesis by (simp add: list_all_iff)
qed

lemma plain_digit: "is_ascii_digit c \<Longrightarrow> plain_char c"
  by (auto simp: plain_char_def is_ascii_digit_def)

lemma plain_show_nat: "list_all plain_char (show_nat n)"
  by (auto simp: list_all_iff intro: plain_digit show_nat_digits)

lemma plain_pad_zero: "list_all plain_char (pad_zero w n)"
proof -
  have "list_all plain_char (replicate k (CHR ''0''))" for k
    by (simp add: list_all_iff plain_char_def)
  moreover have "plain_char (CHR ''-'')" by (simp add: plain_char_def)
  ultimately show ?thesis by (simp add: pad_zero_def Let_def plain_show_nat)
qed

lemma rfc3339_plain:
  assumes "in_range t"
  shows "list_all plain_char (to_rfc3339 t) \<and> length (to_rfc3339 t) = 20"
proof -
  obtain y m d h mi se where f: "fields_ok y m d h mi se" and t: "to_rfc3339 t = rfc3339_text y m d h mi se"
    using to_rfc3339_fields [OF assms] by metis
  have "plain_char (CHR ''-'')" "plain_char (CHR '':'')" "plain_char (CHR ''T'')" "plain_char (CHR ''Z'')"
    by (simp_all add: plain_char_def)
  then have "list_all plain_char (rfc3339_text y m d h mi se)"
    by (simp add: rfc3339_text_def plain_pad_zero)
  moreover have "m \<le> 12" "d \<le> 31" "0 \<le> m" "0 \<le> d"
    using f days_in_month_le [of y m] by (auto simp: fields_ok_def valid_date_def)
  then have "length (rfc3339_text y m d h mi se) = 20"
    using f by (simp add: rfc3339_text_def fields_ok_def length_pad_zero)
  ultimately show ?thesis by (simp add: t)
qed

lemma length_hex [simp]: "length (hex_encode bs) = 2 * length bs"
  by (rule length_hex_encode)

lemma weight_text:
  "list_all plain_char s \<Longrightarrow> weight (JString s) = length s + 2"
  "weight (JString s) \<le> 6 * length s + 2"
  by simp_all

lemma weight_time: "in_range t \<Longrightarrow> weight (time_value t) = 22"
  using rfc3339_plain [of t] by (simp add: time_value_def)

lemma weight_options:
  "opt_ok in_range t \<Longrightarrow> weight (optional_time t) \<le> 22"
  "weight (optional_text s) \<le> 6 * length (unwrap_or [] s) + 4"
  using weight_time by (auto simp: optional_time_def optional_text_def opt_ok_def unwrap_or_def split: option.split)

lemma weight_small_int: "0 \<le> i \<Longrightarrow> i < 1000 \<Longrightarrow> weight (JInt i) \<le> 3"
  using length_show_nat_le [of "nat i" 3] by (simp add: show_int_def)

lemma length_barrier_le:
  assumes "in_range (br_created_at b)" and "length (sl_nonce (br_root_key b)) = 12"
    and "length (sl_ciphertext (br_root_key b)) = 48"
  shows "length (barrier_to_bytes b) \<le> 2000"
proof -
  have "uint x < 1000" for x :: u8 using uint_lt2p [of x] by simp
  then have i: "weight (JInt (uint x)) \<le> 3" for x :: u8 by (intro weight_small_int) simp_all
  have f: "weight (JInt barrier_format) \<le> 3" by (rule weight_small_int) (simp_all add: barrier_format_def)
  have t: "weight (JString (to_rfc3339 (br_created_at b))) = 22" using rfc3339_plain [OF assms(1)] by simp
  have n: "weight (JString (hex_encode bs)) = 2 * length bs + 2" for bs by simp
  have names: "weight (JString ''type'') \<le> 30" "weight (JString ''barrier'') \<le> 50" "weight (JString ''v'') \<le> 10"
    "weight (JString ''threshold'') \<le> 60" "weight (JString ''shares'') \<le> 60" "weight (JString ''root_key_nonce'') \<le> 100"
    "weight (JString ''root_key_ciphertext'') \<le> 130" "weight (JString ''created_at'') \<le> 70"
    by simp_all
  note length_render_le
  also have "weight (json_object [(''type'', JString ''barrier''), (''v'', JInt barrier_format),
      (''threshold'', JInt (int (unat (br_threshold b)))), (''shares'', JInt (int (unat (br_shares b)))),
      (''root_key_nonce'', JString (hex_encode (sl_nonce (br_root_key b)))),
      (''root_key_ciphertext'', JString (hex_encode (sl_ciphertext (br_root_key b)))),
      (''created_at'', JString (to_rfc3339 (br_created_at b)))]) \<le> 2000"
    using names i [of "br_threshold b"] i [of "br_shares b"] f assms(2,3)
    by (simp add: json_object_def t n del: weight.simps(1))
  finally show ?thesis by (simp add: barrier_to_bytes_def as_bytes_def)
qed

lemma length_root_token_le:
  assumes "in_range t" and "length i = 32" and "length h = 32"
  shows "length (event_to_bytes (TokenIssued i h RootToken None None None (Some ''root'') None t)) \<le> 4000"
proof -
  have n: "weight (JString (hex_encode bs)) = 2 * length bs + 2" for bs by simp
  have names: "weight (JString s) \<le> 122" if "length s \<le> 20" for s
    using that weight_text(2) [of s] by linarith
  have i: "weight (JString i) \<le> 194" using weight_text(2) [of i] assms(2) by linarith
  note length_render_le
  also have "weight (event_to_value (TokenIssued i h RootToken None None None (Some ''root'') None t)) \<le> 4000"
    using i weight_time [OF assms(1)] assms(3) names [of "''type''"] names [of "''id''"] names [of "''token_hash''"]
      names [of "''kind''"] names [of "''root''"] names [of "''user_id''"] names [of "''project_id''"] names [of "''label''"]
      names [of "''environment_id''"] names [of "''expires_at''"] names [of "''at''"] names [of "''token.issued''"]
      names [of "''created_at''"]
    by (simp add: event_to_value_def json_object_def optional_text_def optional_time_def kind_name_def n
        del: weight.simps(1))
  finally show ?thesis by (simp add: event_to_bytes_def as_bytes_def)
qed

section \<open>Effects that go through\<close>

definition able :: "world \<Rightarrow> bool" where
  "able w \<longleftrightarrow> fs_healthy w \<and> (\<forall>n. entropy w n \<noteq> None)"

lemma able_simps [simp]:
  "able (w\<lparr>draws := n\<rparr>) = able w" "able (w\<lparr>looks := n\<rparr>) = able w" "able (set_contents i bs w) = able w"
  "able w \<Longrightarrow> calls w \<le> n \<Longrightarrow> able (w\<lparr>calls := n\<rparr>)"
  by (simp_all add: able_def fs_healthy_def)

definition goes_on :: "('e, 'a) io \<Rightarrow> ('a \<Rightarrow> bool) \<Rightarrow> bool" where
  "goes_on m Q \<longleftrightarrow> (\<forall>w. able w \<longrightarrow> (\<exists>x w'. m w = (Inr x, w') \<and> able w' \<and> same_files w w' \<and> Q x))"

lemma goes_on_bindio:
  assumes "goes_on m Q" and "\<And>x. Q x \<Longrightarrow> goes_on (f x) R"
  shows "goes_on (bindio m f) R"
  unfolding goes_on_def
proof (intro allI impI)
  fix w assume "able w"
  with assms(1) obtain x w1 where 1: "m w = (Inr x, w1)" "able w1" "same_files w w1" "Q x" by (auto simp: goes_on_def)
  from assms(2) [OF 1(4)] 1(2) obtain y w2 where "f x w1 = (Inr y, w2)" "able w2" "same_files w1 w2" "R y"
    unfolding goes_on_def by blast
  with 1 show "\<exists>x w'. bindio m f w = (Inr x, w') \<and> able w' \<and> same_files w w' \<and> R x"
    by (auto simp: bindio_def intro: same_files_trans)
qed

lemma goes_on_mapE: "goes_on m Q \<Longrightarrow> goes_on (mapE h m) Q"
  unfolding goes_on_def mapE_def by (fastforce simp: map_err_def)

lemma goes_on_ret: "Q x \<Longrightarrow> goes_on (ret x) Q"
  by (simp add: goes_on_def ret_def)

lemma goes_on_random: "goes_on (random_bytes n) (\<lambda>bs. length bs = n)" "goes_on (random_fill n) (\<lambda>bs. length bs = n)"
  by (auto simp: goes_on_def random_bytes_def random_fill_def able_def fs_healthy_def same_files_def split: option.split)

lemma goes_on_key: "goes_on key_generate key_ok"
  unfolding key_generate_def
  by (rule goes_on_bindio [OF goes_on_random(1) goes_on_ret]) (simp add: key_ok_def)

lemma goes_on_new_id: "goes_on new_id (\<lambda>i. length i = 32 \<and> utf8_valid i)"
  unfolding new_id_def
  by (rule goes_on_bindio [OF goes_on_mapE [OF goes_on_random(1)] goes_on_ret]) simp

lemma goes_on_seal:
  assumes "gcm_ok g" and "key_ok k" and "length p \<le> max_plaintext_len"
  shows "goes_on (aead_seal g k p a) (\<lambda>env. length (env_nonce env) = 12 \<and> length (env_ciphertext env) = length p + 16)"
  unfolding goes_on_def
proof (intro allI impI)
  fix w assume w: "able w"
  then obtain f where f: "entropy w (draws w) = Some f" by (auto simp: able_def)
  let ?env = "\<lparr>env_nonce = map f [0..<nonce_len], env_ciphertext =
    the (gcm_encrypt g (key_bytes k) (map f [0..<nonce_len]) p (aad_bytes a))\<rparr>"
  have run: "aead_seal g k p a w = (Inr ?env, w\<lparr>draws := Suc (draws w)\<rparr>)"
    using assms(3) f by (simp add: aead_seal_outcome [OF assms(1,2)] Let_def)
  have "length (env_ciphertext ?env) = length p + 16"
    using aead_seal_length [OF assms(1,2) run] by (simp add: tag_len_def)
  with run w show "\<exists>x w'. aead_seal g k p a w = (Inr x, w') \<and> able w' \<and> same_files w w' \<and>
      length (env_nonce x) = 12 \<and> length (env_ciphertext x) = length p + 16"
    by (auto simp: nonce_len_def tag_len_def same_files_def)
qed

lemma goes_on_wrap:
  assumes "gcm_ok g" and "key_ok k" and "key_ok k'"
  shows "goes_on (wrap_key g k k' a) (\<lambda>env. length (env_nonce env) = 12 \<and> length (env_ciphertext env) = 48)"
  using goes_on_seal [OF assms(1,2), of "key_bytes k'" a] assms(3)
  by (simp add: wrap_key_def key_ok_def key_len_def max_plaintext_len_def)

lemma goes_on_token:
  "(\<And>x. length (sha x) = 32) \<Longrightarrow> goes_on (generate_token sha) (\<lambda>t. length (hash_bytes (it_hash t)) = 32)"
  unfolding generate_token_def Let_def
  by (rule goes_on_bindio [OF goes_on_random(2) goes_on_ret]) (simp add: hash_token_def)

lemma goes_on_split:
  assumes "1 \<le> t" and "t \<le> n" and "secret \<noteq> []"
  shows "goes_on (shamir_split secret t n) (\<lambda>_. True)"
  unfolding shamir_split_def Let_def
  using assms by (auto intro!: goes_on_bindio goes_on_mapE goes_on_random goes_on_ret)

text \<open>The same for operations of the vault, from a given vault and world.\<close>

definition succeeds :: "'a vault_op \<Rightarrow> vault \<Rightarrow> world \<Rightarrow> ('a \<Rightarrow> vault \<Rightarrow> world \<Rightarrow> bool) \<Rightarrow> bool" where
  "succeeds m v w P \<longleftrightarrow> (\<exists>x v' w'. m v w = (Inr x, v', w') \<and> P x v' w')"

lemma succeeds_bind:
  "succeeds m v w R \<Longrightarrow> (\<And>x v' w'. R x v' w' \<Longrightarrow> succeeds (f x) v' w' P) \<Longrightarrow> succeeds (vbind m f) v w P"
  by (fastforce simp: succeeds_def vbind_def)

lemma succeeds_weaken:
  "succeeds m v w R \<Longrightarrow> (\<And>x v' w'. R x v' w' \<Longrightarrow> P x v' w') \<Longrightarrow> succeeds m v w P"
  by (fastforce simp: succeeds_def)

lemma succeeds_ret: "P x v w \<Longrightarrow> succeeds (vret x) v w P"
  by (simp add: succeeds_def vret_def)

lemma succeeds_look: "f v = Inr x \<Longrightarrow> P x v w \<Longrightarrow> succeeds (vlook f) v w P"
  by (simp add: succeeds_def vlook_def)

lemma succeeds_set: "P () (f v) w \<Longrightarrow> succeeds (vset f) v w P"
  by (simp add: succeeds_def vset_def)

lemma succeeds_io:
  "goes_on m Q \<Longrightarrow> able w \<Longrightarrow>
   succeeds (vio m) v w (\<lambda>x v' w'. v' = v \<and> able w' \<and> same_files w w' \<and> Q x)"
  by (fastforce simp: succeeds_def vio_def goes_on_def)

lemma succeeds_now:
  "able w \<Longrightarrow> succeeds vnow v w (\<lambda>t v' w'. v' = v \<and> able w' \<and> same_files w w' \<and> in_range t)"
  by (auto simp: succeeds_def vnow_def now_def read_clock_def same_files_def)

lemma log_append_able:
  assumes "gcm_ok g" and "key_ok k" and "stored rs lg w" and "able w" and "length payload \<le> 65536"
  obtains r lg' w' where "log_append g k payload lg w = (Inr (), lg', w')" and "stored (rs @ [r]) lg' w'" and "able w'"
proof -
  have h: "fs_healthy w" and e: "entropy w (draws w) \<noteq> None" using assms(4) by (simp_all add: able_def)
  obtain env w1 where seal: "aead_seal g k payload (record_context (lg_count lg)) w = (Inr env, w1)"
    "able w1" "same_files w w1" "length (env_nonce env) = 12" "length (env_ciphertext env) = length payload + 16"
    using goes_on_seal [OF assms(1,2), of payload "record_context (lg_count lg)"] assms(4,5)
    unfolding goes_on_def by (auto simp: max_plaintext_len_def)
  have st: "stored rs lg w1" by (rule stored_same_files [OF seal(3) assms(3)])
  let ?body = "env_nonce env @ env_ciphertext env"
  have fits: "record_fits (kind_sealed, ?body)"
    using seal(4,5) assms(5) by (simp add: record_fits_def max_record_len_def)
  obtain rr lg' w' where run: "write_record kind_sealed ?body lg w1 = (rr, lg', w')" by (metis prod_cases3)
  have "rr = Inr ()" using write_record_healthy [OF st _ fits] seal(2) run by (simp add: able_def)
  with st run have "stored (rs @ [(kind_sealed, ?body)]) lg' w'" by (cases rule: write_record_cases) auto
  moreover have "able w'"
    using run seal(2) by (auto simp: write_record_def Let_def bindio_def healthy_simps able_def ret_def
        split: if_splits prod.splits sum.splits)
  moreover have "log_append g k payload lg w = (Inr (), lg', w')"
    using seal(1) run \<open>rr = Inr ()\<close> assms(5)
    by (simp add: log_append_def seal_record_def bindio_def mapE_def ret_def map_err_def max_record_len_def)
  ultimately show thesis by (rule that [rotated 1])
qed

lemma succeeds_commit:
  assumes "gcm_ok (cr_gcm cr)" and "vt_root_key v = Some k" and "key_ok k" and "stored rs (vt_log v) w" and "able w"
    and "length (event_to_bytes ev) \<le> 65536"
  shows "succeeds (commit cr ev) v w (\<lambda>_ v' w'. able w' \<and> (\<exists>r. stored (rs @ [r]) (vt_log v') w') \<and>
     (\<exists>lg. v' = v\<lparr>vt_log := lg, vt_state := apply_event ev (vt_state v)\<rparr>))"
proof -
  obtain r lg w1 where "log_append (cr_gcm cr) k (event_to_bytes ev) (vt_log v) w = (Inr (), lg, w1)"
    "stored (rs @ [r]) lg w1" "able w1"
    by (rule log_append_able [OF assms(1,3,4,5,6)])
  then show ?thesis using assms(2) by (cases r) (auto simp: succeeds_def commit_def)
qed

lemma succeeds_append_plain:
  assumes "stored rs (vt_log v) w" and "able w" and "length bs \<le> 100000"
  shows "succeeds (vlog (append_plain bs)) v w
    (\<lambda>_ v' w'. able w' \<and> stored (rs @ [(kind_plain, bs)]) (vt_log v') w' \<and> (\<exists>lg. v' = v\<lparr>vt_log := lg\<rparr>))"
proof -
  have fits: "record_fits (kind_plain, bs)" using assms(3) by (simp add: record_fits_def max_record_len_def)
  obtain rr lg w1 where run: "write_record kind_plain bs (vt_log v) w = (rr, lg, w1)" by (metis prod_cases3)
  have "rr = Inr ()" using write_record_healthy [OF assms(1) _ fits] assms(2) run by (simp add: able_def)
  moreover from assms(1) run have "stored (rs @ [(kind_plain, bs)]) lg w1"
    by (cases rule: write_record_cases) (use \<open>rr = Inr ()\<close> in auto)
  moreover have "able w1"
    using run assms(2) by (auto simp: write_record_def Let_def bindio_def healthy_simps able_def ret_def
        split: if_splits prod.splits sum.splits)
  ultimately show ?thesis
    using run by (auto simp: succeeds_def vlog_def append_plain_def map_err_def)
qed

section \<open>Initialising a new store\<close>

lemma succeeds_map_err: "succeeds m v w P \<Longrightarrow> succeeds (vmap_err h m) v w P"
  by (fastforce simp: succeeds_def vmap_err_def)

lemma install_succeeds:
  assumes "gcm_ok (cr_gcm cr)" and "stored [] (vt_log v) w" and "able w" and "key_ok k"
    and "in_range (br_created_at b)" and "length (sl_nonce (br_root_key b)) = 12"
    and "length (sl_ciphertext (br_root_key b)) = 48" and "length i = 32" and "length h = 32"
  shows "succeeds (vbind (vlog (append_plain (barrier_to_bytes b))) (\<lambda>_.
     vbind (vset (\<lambda>v. v\<lparr>vt_barrier := Some b, vt_root_key := Some k\<rparr>)) (\<lambda>_.
     vbind vnow (\<lambda>t. vbind (vmap_err f (commit cr (TokenIssued i h RootToken None None None (Some ''root'') None t))) (\<lambda>_.
       vret out))))) v w (\<lambda>x v' w'. x = out \<and> able w' \<and> (\<exists>rs. stored rs (vt_log v') w') \<and> \<not> is_sealed v' \<and> is_initialized v')"
proof -
  have "length (barrier_to_bytes b) \<le> 100000" using length_barrier_le [OF assms(5-7)] by linarith
  note app = succeeds_append_plain [OF assms(2,3) this]
  show ?thesis
    apply (rule succeeds_bind [OF app])
    apply (rule succeeds_bind, rule succeeds_set [where P = "\<lambda>_ v' w'. able w' \<and> (\<exists>rs. stored rs (vt_log v') w') \<and>
        vt_root_key v' = Some k \<and> vt_barrier v' = Some b"], force)
    apply (elim conjE exE)
    apply (rule succeeds_bind [OF succeeds_now], assumption)
    apply (elim conjE, hypsubst)
    apply (rule succeeds_bind [OF succeeds_map_err [OF succeeds_commit [OF assms(1) _ assms(4)]]], assumption)
       apply (rule stored_same_files, assumption, assumption, assumption)
     apply (rule order_trans [OF length_root_token_le], assumption, rule assms(8), rule assms(9), simp)
    apply (rule succeeds_ret)
    apply (force simp: is_sealed_def is_initialized_def)
    done
qed

text \<open>Steps that leave the vault alone, on a log in step with its file.\<close>

lemma step_io:
  "goes_on m Q \<Longrightarrow> able w \<Longrightarrow> stored rs (vt_log v) w \<Longrightarrow>
   succeeds (vio m) v w (\<lambda>x v' w'. v' = v \<and> able w' \<and> stored rs (vt_log v) w' \<and> Q x)"
  using succeeds_io [of m Q w v] by (auto simp: succeeds_def dest: stored_same_files)

lemma step_now:
  "able w \<Longrightarrow> stored rs (vt_log v) w \<Longrightarrow>
   succeeds vnow v w (\<lambda>t v' w'. v' = v \<and> able w' \<and> stored rs (vt_log v) w' \<and> in_range t)"
  using succeeds_now [of w v] by (auto simp: succeeds_def dest: stored_same_files)

lemma step_look:
  "f v = Inr x \<Longrightarrow> able w \<Longrightarrow> stored rs (vt_log v) w \<Longrightarrow>
   succeeds (vlook f) v w (\<lambda>y v' w'. v' = v \<and> able w' \<and> stored rs (vt_log v) w' \<and> y = x)"
  by (simp add: succeeds_look)

lemmas step_crypto = step_io [OF goes_on_mapE [where h = "\<lambda>_. VaultCrypto", folded or_crypto_def]]

lemma vault_init_succeeds:
  assumes cr: "gcm_ok (cr_gcm cr)" "\<And>x. length (cr_sha cr x) = 32"
    and v: "vt_barrier v = None" "stored [] (vt_log v) w" and w: "able w" and t: "1 \<le> t" "t \<le> n"
  shows "succeeds (vault_init cr t n) v w (\<lambda>out v' w'. able w' \<and> (\<exists>rs. stored rs (vt_log v') w') \<and>
     \<not> is_sealed v' \<and> is_initialized v')"
  unfolding vault_init_def Let_def
  apply (rule succeeds_bind [OF step_look [where x = "()"] ])
     apply (use v w in \<open>simp_all add: is_initialized_def\<close>) [3]
  apply (elim conjE, hypsubst)
  apply (rule succeeds_bind [OF step_crypto [OF goes_on_random(1)]], assumption, assumption)
  apply (elim conjE, hypsubst)
  apply (rule succeeds_bind [OF step_io [OF goes_on_mapE [OF goes_on_split [OF t]]]], force simp: master_key_len_def, assumption, assumption)
  apply (elim conjE, hypsubst)
  apply (rule succeeds_bind [OF step_look])
     apply (simp add: key_from_bytes_def master_key_len_def key_len_def)
    apply (assumption, assumption)
  apply (elim conjE, hypsubst)
  apply (rule succeeds_bind [OF step_crypto [OF goes_on_key]], assumption, assumption)
  apply (elim conjE, hypsubst)
  apply (rule succeeds_bind [OF step_crypto [OF goes_on_wrap [OF cr(1)]]])
        apply (simp add: key_ok_def master_key_len_def key_len_def, assumption, assumption, assumption)
  apply (elim conjE, hypsubst)
  apply (rule succeeds_bind [OF step_crypto [OF goes_on_token [OF cr(2)]]], assumption, assumption)
  apply (elim conjE, hypsubst)
  apply (rule succeeds_bind [OF step_io [OF goes_on_new_id]], assumption, assumption)
  apply (elim conjE, hypsubst)
  apply (rule succeeds_bind [OF step_now], assumption, assumption)
  apply (elim conjE, hypsubst)
  apply (rule succeeds_weaken [OF install_succeeds [OF cr(1)]])
             apply (assumption | simp add: sealed_of_envelope_def)+
  done

section \<open>A vault to try things on\<close>

definition sample_crypto :: "unit crypto" where
  "sample_crypto = \<lparr>cr_gcm = sample_gcm, cr_sha = (\<lambda>x. take 32 (x @ replicate 32 0)),
     cr_argon2 = \<lparr>params_new = (\<lambda>_ _ _. Inr ()), hash_with_salt = (\<lambda>pw salt. Inr ''$argon2id$''),
       phc_new = (\<lambda>s. if s = ''$argon2id$'' then Some () else None), phc_decimal = (\<lambda>_ _. None),
       verify_phc = (\<lambda>pw _. True)\<rparr>\<rparr>"

lemma sample_crypto_ok [simp]:
  "crypto_ok sample_crypto" "gcm_ok (cr_gcm sample_crypto)" "length (cr_sha sample_crypto x) = 32"
  by (simp_all add: crypto_ok_def sample_crypto_def)

lemma sample_opened:
  obtains v w where "vault_open ''s.log'' sample_world = (Inr v, w)" and "able w" and "stored [] (vt_log v) w"
    and "vt_barrier v = None" and "vt_root_key v = None"
proof -
  have "\<exists>lg w1. log_open ''s.log'' sample_world = (Inr lg, w1) \<and> able w1"
    by (simp add: log_open_def start_log_def fs_exists_def next_fault_def open_private_def bindio_def mapE_def
        ret_def fs_open_create_def fs_write_all_def fs_sync_def sample_world_def able_def fs_healthy_def)
  then obtain lg w1 where o: "log_open ''s.log'' sample_world = (Inr lg, w1)" and a: "able w1" by blast
  have "dir sample_world ''s.log'' = None" by (simp add: sample_world_def)
  from log_open_new [OF this o] have st: "stored [] lg w1" by simp
  then obtain w2 where r: "read_plain lg w1 = (Inr [], w2)" "only_calls w1 w2"
    using read_plain_stored [OF _ st] a by (auto simp: able_def plain_of_def)
  have "able w2" "stored [] lg w2" using a st r(2) by (auto simp: only_calls_def stored_def)
  then show thesis
    using o r(1) st
    by (intro that [of "\<lparr>vt_log = lg, vt_state = empty_state, vt_barrier = None, vt_root_key = None, vt_pending = []\<rparr>" w2])
      (simp_all add: vault_open_def bindio_def mapE_def liftR_def stored_def)
qed

end
