(* ===== verification/Vault_Machine.thy ===== *)
theory Vault_Machine
  imports Vault_Progress
begin

text \<open>
  The vault as a machine: its operations in any order, with crashes in between, and every file
  operation free to fail. What is in memory is always the replay of what is on disk.
\<close>

section \<open>The directory stays well formed\<close>

definition tidy :: "('e, 'a) io \<Rightarrow> bool" where
  "tidy m \<longleftrightarrow> (\<forall>w. inodes_ok w \<longrightarrow> inodes_ok (snd (m w)))"

named_theorems tidy_intros \<open>effects that keep the directory well formed\<close>

lemma tidyD: "tidy m \<Longrightarrow> inodes_ok w \<Longrightarrow> m w = (r, w') \<Longrightarrow> inodes_ok w'"
  by (auto simp: tidy_def dest: spec [of _ w])

lemma tidy_bindio [tidy_intros]: "tidy m \<Longrightarrow> (\<And>x. tidy (f x)) \<Longrightarrow> tidy (bindio m f)"
  unfolding tidy_def bindio_def by (auto split: prod.splits sum.splits)

lemma tidy_mapE [tidy_intros]: "tidy m \<Longrightarrow> tidy (mapE h m)"
  by (auto simp: tidy_def mapE_def split: prod.splits)

lemma tidy_leaf [tidy_intros]: "tidy (ret x)" "tidy (fail e)"
  by (simp_all add: tidy_def ret_def fail_def)

lemma tidy_if [tidy_intros]: "tidy m \<Longrightarrow> tidy n \<Longrightarrow> tidy (if b then m else n)"
  by simp

lemma inodes_ok_simps [simp]:
  "inodes_ok (w\<lparr>calls := n\<rparr>) = inodes_ok w" "inodes_ok (set_contents i bs w) = inodes_ok w"
  by (simp_all add: inodes_ok_def)

lemma tidy_only_calls: "(\<And>w. only_calls w (snd (m w))) \<Longrightarrow> tidy m"
  unfolding tidy_def only_calls_def by (metis inodes_ok_simps(1))

lemma tidy_files [tidy_intros]:
  "tidy (fs_open_create p)" "tidy (fs_write_all h bs)" "tidy (fs_set_len h n)" "tidy (fs_rename p q)"
  by (auto simp: tidy_def fs_open_create_def fs_write_all_def fs_set_len_def fs_rename_def next_fault_def Let_def
      inodes_ok_def intro: less_SucI split: option.splits)

lemma tidy_reads [tidy_intros]:
  "tidy (fs_len h)" "tidy (fs_sync h)" "tidy (fs_seek_end h)" "tidy (check_header h)"
  by (rule tidy_only_calls, rule reading_only_calls check_header_only_calls)+

lemma scan_only_calls: "only_calls w (snd (scan h w))"
  unfolding scan_def
  by (intro only_calls_bindio only_calls_mapE reading_only_calls scan_loop_only_calls)

lemma tidy_scan [tidy_intros]: "tidy (scan h)"
  by (rule tidy_only_calls) (rule scan_only_calls)

lemma tidy_log_open [tidy_intros]: "tidy (log_open p)"
proof -
  have "tidy (bindio (open_private p) (\<lambda>file.
      bindio (if \<not> ex then ret True else bindio (mapE StoreIo (fs_len file)) (\<lambda>n. ret (n = 0))) (\<lambda>empty.
        if empty then start_log p file else resume_log p file)))" for ex
    unfolding open_private_def start_log_def resume_log_def Let_def
    by (intro tidy_intros) (auto intro!: tidy_intros)
  note body = this
  show ?thesis
    unfolding tidy_def
  proof (intro allI impI)
    fix w assume ok: "inodes_ok w"
    obtain ex w1 where e: "fs_exists p w = (ex, w1)" by fastforce
    with ok have "inodes_ok w1" by (auto simp: fs_exists_def next_fault_def)
    with body [of ex] e show "inodes_ok (snd (log_open p w))" by (simp add: tidy_def log_open_def)
  qed
qed

lemma tidy_run_log:
  assumes "\<And>w r lg' w'. op lg w = (r, lg', w') \<Longrightarrow> same_else lg w lg' w'"
  shows "tidy (run_log op lg)"
  unfolding tidy_def
proof (intro allI impI)
  fix w assume ok: "inodes_ok w"
  obtain r lg' w' where "op lg w = (r, lg', w')" by (metis prod_cases3)
  with assms [OF this] same_else_kept [OF _ ok, of lg lg' w'] show "inodes_ok (snd (run_log op lg w))"
    by (auto simp: run_log_def split: sum.splits)
qed

lemma tidy_build_fresh [tidy_intros]: "tidy (build_fresh g k plain sld p)"
  unfolding build_fresh_def
  by (intro tidy_intros tidy_run_log) (auto dest: plain_appender.each_touches sealed_appender.each_touches)

lemma tidy_clear [tidy_intros]: "tidy (clear_temporary p)"
  by (auto simp: tidy_def clear_temporary_def fs_remove_def next_fault_def inodes_ok_def split: option.splits)

lemma tidy_flush: "inodes_ok w \<Longrightarrow> inodes_ok (flush_directory w)"
  using flush_directory_only_calls [of w] by (auto simp: only_calls_def)

lemma compact_inodes_ok:
  assumes "inodes_ok w" and "compact g k plain sld lg w = (r, lg', w')"
  shows "inodes_ok w'"
proof -
  let ?tmp = "with_extension ''compacting'' (lg_path lg)"
  have t: "tidy (bindio (clear_temporary ?tmp) (\<lambda>_. bindio (build_fresh g k plain sld ?tmp) (\<lambda>fresh.
      bindio (mapE StoreIo (fs_rename ?tmp (lg_path lg))) (\<lambda>_. ret fresh))))"
    by (intro tidy_intros)
  from assms(2) tidyD [OF t assms(1)] show ?thesis
    by (auto simp: compact_def Let_def tidy_flush split: prod.splits sum.splits)
qed

section \<open>Rekeying\<close>

lemma events_of_rebuilt:
  assumes "\<And>e. e \<in> set es \<Longrightarrow> event_ok e"
  shows "events_of (rebuilt plain (map event_to_bytes es)) = Inr es"
proof -
  have "filter lr_sealed (map (\<lambda>b. \<lparr>lr_sealed = False, lr_payload = b\<rparr>) plain) = []" by (induction plain) simp_all
  moreover have "traverse (\<lambda>r. event_from_bytes (lr_payload r))
      (filter lr_sealed (map (\<lambda>b. \<lparr>lr_sealed = True, lr_payload = b\<rparr>) (map event_to_bytes es))) = Inr es"
    using assms by (induction es) (simp_all add: event_from_to_bytes)
  ultimately show ?thesis by (simp add: events_of_def rebuilt_def)
qed

text \<open>A rewrite of the log with everything under a new key, and the vault following it.\<close>

abbreviation rewrite_under ::
  "'phc crypto \<Rightarrow> data_key \<Rightarrow> bytes list \<Rightarrow> barrier \<Rightarrow> event list \<Rightarrow> 'a \<Rightarrow> 'a vault_op" where
  "rewrite_under cr k plain b es x \<equiv> vbind (vlog (compact (cr_gcm cr) k plain (map event_to_bytes es))) (\<lambda>_.
     vbind (vset (\<lambda>v. v\<lparr>vt_root_key := Some k, vt_barrier := Some b, vt_state := replay es, vt_pending := []\<rparr>)) (\<lambda>_.
       vret x))"

lemma rewrite_run:
  assumes "crypto_ok cr" and "key_ok k" and "\<And>e. e \<in> set es \<Longrightarrow> event_ok e"
    and c: "consistent cr v w" and run: "rewrite_under cr k plain b es x v w = (r, v', w')"
  shows "consistent cr v' w' \<and> (\<forall>y. r = Inr y \<longrightarrow> history cr v' w' es \<and> \<not> lg_broken (vt_log v'))"
proof -
  let ?set = "\<lambda>v. v\<lparr>vt_root_key := Some k, vt_barrier := Some b, vt_state := replay es, vt_pending := []\<rparr>"
  obtain rr lg w1 where com: "compact (cr_gcm cr) k plain (map event_to_bytes es) (vt_log v) w = (rr, lg, w1)"
    by (metis prod_cases3)
  have ok: "inodes_ok w" "with_extension ''compacting'' (lg_path (vt_log v)) \<noteq> lg_path (vt_log v)"
    using c by (simp_all add: consistent_def)
  have ok1: "inodes_ok w1" by (rule compact_inodes_ok [OF ok(1) com])
  have dir: "dir w (lg_path (vt_log v)) = Some (h_inode (lg_file (vt_log v)))"
    using consistent_in_step [OF c] by (auto simp: in_step_def)
  from ok dir com show ?thesis
  proof (cases rule: compact_cases)
    case (failed e)
    have "in_step rs (vt_log v) w1 = in_step rs (vt_log v) w" for rs
      using failed(3,4) dir by (simp add: in_step_def stored_def on_disk_def)
    moreover from this have "history cr v w1 = history cr v w" by (simp add: history_def fun_eq_iff)
    ultimately have "consistent cr v w1" using c ok1 by (simp add: consistent_def)
    moreover have "v' = v" "w' = w1" "r = Inl (VaultStore e)" using run failed com by (simp_all add: vbind_def vlog_def map_err_def)
    ultimately show ?thesis by auto
  next
    case (rewritten rs)
    have v': "v' = ?set (v\<lparr>vt_log := lg\<rparr>)" "w' = w1"
      using run rewritten(1) com by (simp_all add: vbind_def vlog_def map_err_def vset_def vret_def)
    have st: "stored rs lg w1" and "decoded (cr_gcm cr) k rs = Inr (rebuilt plain (map event_to_bytes es))"
      using rewritten(3) assms by (simp_all add: crypto_gcm)
    with assms(2) events_of_rebuilt [OF assms(3)] have "history cr v' w' es"
      unfolding v' history_def by (auto intro: stored_in_step)
    moreover have "\<not> lg_broken (vt_log v')" using st by (simp add: v' stored_def)
    ultimately show ?thesis
      using ok1 ok(2) rewritten(2) by (auto simp: v' consistent_def is_sealed_def)
  qed
qed

lemma keeps_rewrite:
  assumes "crypto_ok cr" and "key_ok k" and "\<And>e. e \<in> set es \<Longrightarrow> event_ok e"
  shows "keeps cr (rewrite_under cr k plain b es x) (\<lambda>_. True)"
proof (rule keepsI)
  fix v w r v' w' assume "consistent cr v w" and "rewrite_under cr k plain b es x v w = (r, v', w')"
  from rewrite_run [OF assms this] show "consistent cr v' w' \<and> (\<forall>y. r = Inr y \<longrightarrow> True)" by simp
qed

lemma carry_event_ok: "event_ok e \<Longrightarrow> carry_event cr k k' e w = (Inr e', w') \<Longrightarrow> event_ok e'"
  by (cases e) (auto simp: carry_event_def Let_def bindio_eq_Inr ret_apply)

lemma carry_events_ok:
  "\<forall>e\<in>set es. event_ok e \<Longrightarrow> carry_events cr k k' es w = (Inr es', w') \<Longrightarrow> \<forall>e\<in>set es'. event_ok e"
  by (induction es arbitrary: es' w) (auto simp: bindio_eq_Inr ret_apply dest: carry_event_ok)

lemma vbind_assoc: "vbind (vbind m f) g = vbind m (\<lambda>x. vbind (f x) g)"
  by (rule ext, rule ext) (simp add: vbind_def split: prod.split sum.split)

lemma vbind_ret: "vbind (vret x) f = f x"
  by (rule ext, rule ext) (simp add: vbind_def vret_def)

text \<open>A rekeying, up to the point where the file is rewritten.\<close>

definition prepare_rekey :: "'phc crypto \<Rightarrow> caller \<Rightarrow> u8 \<Rightarrow> u8 \<Rightarrow> (data_key \<times> barrier \<times> event list \<times> share list) vault_op" where
  "prepare_rekey cr c threshold shares =
     vbind (vlook require_unsealed) (\<lambda>_.
     vbind (vlook (\<lambda>_. require c Administer)) (\<lambda>_.
     vbind (vlook (\<lambda>v. ok_or VaultSealed (vt_root_key v))) (\<lambda>old_root.
     vbind (vreading (read_records (cr_gcm cr) old_root)) (\<lambda>records.
     vbind (vlook (\<lambda>_. map_err VaultStore (events_of records))) (\<lambda>events.
     vbind (vio (or_crypto key_generate)) (\<lambda>new_root.
     vbind (vio (carry_events cr old_root new_root events)) (\<lambda>moved.
     vbind vnow (\<lambda>at.
     vbind (vio (or_crypto (random_bytes master_key_len))) (\<lambda>master_bytes.
     vbind (vio (mapE (\<lambda>_. Invalid ''share configuration'') (shamir_split master_bytes threshold shares))) (\<lambda>split.
     vbind (vlook (\<lambda>_. ok_or VaultCrypto (key_from_bytes master_bytes))) (\<lambda>master_key.
     vbind (vio (or_crypto (wrap_key (cr_gcm cr) master_key new_root barrier_context))) (\<lambda>wrapped_root.
     vbind vnow (\<lambda>created_at.
       vret (new_root, \<lparr>br_threshold = threshold, br_shares = shares,
             br_root_key = sealed_of_envelope wrapped_root, br_created_at = created_at\<rparr>,
           moved @ [Audited at (actor c) ''vault.rekey'' ''unseal shares'' ''ok''], split))))))))))))))"

lemma rekey_split: "rekey cr c t n = vbind (prepare_rekey cr c t n) (\<lambda>(k, b, es, split).
    rewrite_under cr k [barrier_to_bytes b] b es
      \<lparr>io_shares = map (print_share (cr_sha cr)) split, io_root_token = [], io_threshold = t\<rparr>)"
  by (simp add: rekey_def prepare_rekey_def Let_def vbind_assoc vbind_ret)

lemma keeps_prepare_rekey:
  assumes "crypto_ok cr" and "caller_ok c"
  shows "keeps cr (prepare_rekey cr c t n) (\<lambda>(k, b, es, split). key_ok k \<and> (\<forall>e\<in>set es. event_ok e))"
  unfolding prepare_rekey_def
  apply (rule keeps_bind [OF keeps_any])
  apply (rule keeps_bind [OF keeps_any])
  apply (rule keeps_bind [OF keeps_any])
  apply (rule keeps_bind [OF keeps_reading])
  apply (rule keeps_bind [OF keeps_look [where Q = "\<lambda>es. \<forall>e\<in>set es. event_ok e"]])
   apply (auto dest: events_of_ok) [1]
  apply (rule keeps_bind [OF keeps_io [where Q = key_ok]], intro quiet_intros, rule key_generate_or_crypto, assumption)
  apply (rule keeps_bind [OF keeps_io [where Q = "\<lambda>es. \<forall>e\<in>set es. event_ok e"]], intro quiet_intros,
      rule carry_events_ok, assumption, assumption)
  apply (rule keeps_bind [OF keeps_now])
  apply (rule keeps_bind [OF keeps_quiet], intro quiet_intros)
  apply (rule keeps_bind [OF keeps_quiet], intro quiet_intros)
  apply (rule keeps_bind [OF keeps_any])
  apply (rule keeps_bind [OF keeps_quiet], intro quiet_intros)
  apply (rule keeps_bind [OF keeps_now])
  apply (rule keeps_ret)
  apply (use assms in \<open>auto simp: actor_text\<close>)
  done

lemma keeps_rekey:
  assumes "crypto_ok cr" and "caller_ok c"
  shows "keeps cr (rekey cr c t n) (\<lambda>_. True)"
  unfolding rekey_split
  by (rule keeps_bind [OF keeps_prepare_rekey [OF assms]]) (auto intro: keeps_rewrite [OF assms(1)])

section \<open>Opening\<close>

lemma vault_open_consistent:
  assumes "inodes_ok w" and "with_extension ''compacting'' p \<noteq> p"
    and "\<And>lg w1. log_open p w = (Inr lg, w1) \<Longrightarrow> lg_path lg = p \<and> (\<exists>rs. stored rs lg w1)"
    and "vault_open p w = (Inr v, w')"
  shows "consistent cr v w'"
proof -
  obtain lg w1 where o: "log_open p w = (Inr lg, w1)" and
    rest: "bindio (mapE VaultStore (read_plain lg)) (\<lambda>plain.
       if plain = [] \<and> lg_count lg \<noteq> 0
       then fail (UnreadableBarrier ''the store holds records but no barrier'')
       else liftR (and_then
         (if plain = [] then Inr None
          else map_err UnreadableBarrier (and_then (barrier_from_bytes (last plain)) (\<lambda>b. Inr (Some b))))
         (\<lambda>barrier. Inr \<lparr>vt_log = lg, vt_state = empty_state, vt_barrier = barrier, vt_root_key = None,
            vt_pending = []\<rparr>))) w1 = (Inr v, w')"
    using assms(4) by (auto simp: vault_open_def bindio_eq_Inr mapE_eq_Inr)
  from assms(3) [OF o] obtain rs where path: "lg_path lg = p" and st: "stored rs lg w1" by blast
  from rest obtain plain where read: "read_plain lg w1 = (Inr plain, w')"
    and v: "vt_log v = lg" "vt_state v = empty_state" "vt_root_key v = None"
    and none: "vt_barrier v = None \<longrightarrow> plain = [] \<and> lg_count lg = 0"
    by (auto simp: bindio_eq_Inr mapE_eq_Inr liftR_def fail_def split: if_splits)
  have dir: "dir w1 (lg_path lg) = Some (h_inode (lg_file lg))" using st by (simp add: stored_def)
  have "only_calls w1 w'"
    using for_each_record_any [OF dir stored_on_disk [OF st], of collect_plain "[]" "Inr plain" w'] read
    by (simp add: read_plain_def)
  then have "stored rs lg w'" "inodes_ok w' = inodes_ok w1"
    using st only_calls_same_files stored_same_files inodes_ok_same_files by blast+
  moreover have "inodes_ok w1" by (rule tidyD [OF tidy_log_open assms(1) o])
  moreover have "vt_barrier v = None \<longrightarrow> rs = []" using none st by (simp add: stored_def)
  ultimately show ?thesis
    using v path assms(2) by (auto simp: consistent_def is_sealed_def intro: stored_in_step)
qed

section \<open>The machine\<close>

text \<open>Any call of an operation, its result dropped. What callers pass in is text.\<close>

definition run_op :: "'a vault_op \<Rightarrow> vault \<Rightarrow> world \<Rightarrow> vault \<times> world" where
  "run_op m v w = snd (m v w)"

inductive vault_call :: "'phc crypto \<Rightarrow> (vault \<Rightarrow> world \<Rightarrow> vault \<times> world) \<Rightarrow> bool" for cr where
  "vault_call cr (run_op (vault_init cr t n))"
| "vault_call cr (run_op (submit_share cr printed))"
| "vault_call cr (\<lambda>v w. (reset_unseal v, w))"
| "vault_call cr (run_op (seal_as c))"
| "caller_ok c \<Longrightarrow> vault_call cr (run_op (rekey cr c t n))"
| "utf8_valid email \<Longrightarrow> vault_call cr (run_op (create_user cr c email password))"
| "vault_call cr (run_op (login cr email password ttl))"
| "utf8_valid label \<Longrightarrow> vault_call cr (run_op (issue_machine_token cr c p e label ttl'))"
| "utf8_valid i \<Longrightarrow> vault_call cr (run_op (revoke_token cr c i))"
| "utf8_valid name \<Longrightarrow> vault_call cr (run_op (create_project cr c slug name))"
| "utf8_valid name \<Longrightarrow> vault_call cr (run_op (create_environment cr c p slug name))"
| "caller_ok c \<Longrightarrow> utf8_valid p \<Longrightarrow> utf8_valid e \<Longrightarrow> vault_call cr (run_op (set_secret cr c p e k val))"
| "caller_ok c \<Longrightarrow> utf8_valid p \<Longrightarrow> utf8_valid e \<Longrightarrow> utf8_valid k \<Longrightarrow> vault_call cr (run_op (get_secret cr c p e k))"
| "caller_ok c \<Longrightarrow> utf8_valid p \<Longrightarrow> utf8_valid e \<Longrightarrow> vault_call cr (run_op (list_secrets cr c p e))"
| "caller_ok c \<Longrightarrow> utf8_valid p \<Longrightarrow> utf8_valid e \<Longrightarrow> utf8_valid k \<Longrightarrow> vault_call cr (run_op (delete_secret cr c p e k))"
| "vault_call cr (run_op (audit_trail cr c))"

text \<open>The process runs with a vault, or is down and the file remains.\<close>

datatype machine = Running vault world | Down path world

inductive vault_step :: "'phc crypto \<Rightarrow> machine \<Rightarrow> machine \<Rightarrow> bool" for cr where
  call: "vault_call cr f \<Longrightarrow> f v w = (v', w') \<Longrightarrow> vault_step cr (Running v w) (Running v' w')"
| crash: "vault_step cr (Running v w) (Down (lg_path (vt_log v)) w)"
| opened: "vault_open p w = (Inr v, w') \<Longrightarrow> vault_step cr (Down p w) (Running v w')"
| not_opened: "vault_open p w = (Inl e, w') \<Longrightarrow> vault_step cr (Down p w) (Down p w')"

text \<open>
  The one step after which memory and file may part: a reopening that goes through although \<open>exists()\<close>,
  its first file operation, could not look at the file and so answered that there is none. The log is
  then taken for empty, and what is appended overwrites it.
\<close>

fun blind_opening :: "machine \<Rightarrow> machine \<Rightarrow> bool" where
  "blind_opening (Down p w) (Running v w') \<longleftrightarrow> fault w (calls w) \<noteq> None"
| "blind_opening _ _ \<longleftrightarrow> False"

abbreviation sighted_vault_step :: "'phc crypto \<Rightarrow> machine \<Rightarrow> machine \<Rightarrow> bool" where
  "sighted_vault_step cr m m' \<equiv> vault_step cr m m' \<and> \<not> blind_opening m m'"

fun machine_ok :: "'phc crypto \<Rightarrow> machine \<Rightarrow> bool" where
  "machine_ok cr (Running v w) = consistent cr v w"
| "machine_ok cr (Down p w) \<longleftrightarrow> inodes_ok w \<and> with_extension ''compacting'' p \<noteq> p \<and>
     (\<exists>i rs. dir w p = Some i \<and> on_disk rs i w)"

lemma run_op_keeps:
  "run_op m v w = (v', w') \<Longrightarrow> consistent cr v w \<Longrightarrow> keeps cr m (\<lambda>_. True) \<Longrightarrow> consistent cr v' w'"
  by (auto simp: run_op_def keeps_def) (metis prod.collapse)

lemmas operations_keep = keeps_vault_init keeps_submit_share keeps_seal_as keeps_rekey keeps_create_user keeps_login
  keeps_issue_machine_token keeps_revoke_token keeps_create_project keeps_create_environment keeps_set_secret
  keeps_get_secret keeps_list_secrets keeps_delete_secret keeps_audit_trail

lemma vault_call_ok:
  assumes "crypto_ok cr" and "vault_call cr f" and "consistent cr v w" and "f v w = (v', w')"
  shows "consistent cr v' w'"
  using assms(2)
proof cases
  case 3
  with assms(3,4) show ?thesis by (auto simp: reset_unseal_def)
qed (use assms(1,3,4) in \<open>auto elim!: run_op_keeps intro: operations_keep\<close>)

lemma opened_any:
  assumes "on_disk rs i w" and "dir w p = Some i" and "log_open p w = (r, w')"
  shows "dir w' p = Some i \<and> on_disk rs i w' \<and>
    (\<forall>lg. r = Inr lg \<longrightarrow> lg_path lg = p \<and> (fault w (calls w) = None \<longrightarrow> stored rs lg w'))"
proof -
  obtain t where t: "torn t" "contents w i = log_image rs @ t" and fits: "\<And>q. q \<in> set rs \<Longrightarrow> record_fits q"
    using assms(1) by (auto simp: on_disk_def)
  have w: "intact p i rs t w" using assms(2) t(2) by (simp add: intact_def)
  from log_open_keeps [OF fits t(1) w assms(3)] fits t(1) torn_Nil
  have "dir w' p = Some i \<and> on_disk rs i w' \<and> (\<forall>lg. r = Inr lg \<longrightarrow> lg_path lg = p)"
    by (auto simp: kept_def on_disk_def)
  moreover have "stored rs lg w'" if "r = Inr lg" "fault w (calls w) = None" for lg
    using triple_Inr [OF log_open_any [where p = p and i = i, OF fits t(1)]] w that assms(3) by blast
  ultimately show ?thesis by blast
qed

lemma vault_open_failed:
  assumes "on_disk rs i w" and "dir w p = Some i" and "vault_open p w = (Inl e, w')"
  shows "dir w' p = Some i \<and> on_disk rs i w' \<and> (inodes_ok w \<longrightarrow> inodes_ok w')"
proof -
  obtain r w1 where o: "log_open p w = (r, w1)" by fastforce
  note any = opened_any [OF assms(1,2) o]
  have ok1: "inodes_ok w \<longrightarrow> inodes_ok w1" using tidyD [OF tidy_log_open _ o] by blast
  show ?thesis
  proof (cases r)
    case (Inl err)
    with any assms(3) o ok1 show ?thesis by (simp add: vault_open_def bindio_def mapE_def)
  next
    case (Inr lg)
    with any have path: "lg_path lg = p" and dir: "dir w1 (lg_path lg) = Some i" and disk: "on_disk rs i w1" by simp_all
    obtain rr w2 where read: "read_plain lg w1 = (rr, w2)" by fastforce
    from for_each_record_any [OF dir disk, of collect_plain "[]" rr w2] read
    have calls: "only_calls w1 w2" by (simp add: read_plain_def)
    moreover have "w' = w2"
      using assms(3) o Inr read by (auto simp: vault_open_def bindio_def mapE_def liftR_def fail_def split: sum.splits if_splits)
    moreover have "inodes_ok w2 = inodes_ok w1"
      using inodes_ok_same_files [OF only_calls_same_files [OF calls]] by simp
    ultimately show ?thesis
      using ok1 dir disk path by (simp add: only_callsD on_disk_def)
  qed
qed

lemma vault_step_ok:
  assumes "crypto_ok cr" and "vault_step cr m m'" and "\<not> blind_opening m m'" and "machine_ok cr m"
  shows "machine_ok cr m'"
  using assms(2)
proof cases
  case (call f v w v' w')
  with assms(4) vault_call_ok [OF assms(1)] show ?thesis by auto
next
  case (crash v w)
  with assms(4) have c: "consistent cr v w" by simp
  then obtain rs where rs: "in_step rs (vt_log v) w" using consistent_in_step by blast
  then have "\<exists>qs. on_disk qs (h_inode (lg_file (vt_log v))) w"
    by (auto simp: in_step_def dest: stored_on_disk split: if_splits)
  with rs c crash show ?thesis by (auto simp: consistent_def in_step_def)
next
  case (opened p w v w')
  with assms(4) obtain i rs where d: "dir w p = Some i" "on_disk rs i w" "inodes_ok w" "with_extension ''compacting'' p \<noteq> p"
    by auto
  have "fault w (calls w) = None" using assms(3) opened by simp
  then have "consistent cr v w'"
    by (intro vault_open_consistent [OF d(3,4) _ opened(3)]) (use opened_any [OF d(2,1)] in fastforce)
  with opened show ?thesis by simp
next
  case (not_opened p w e w')
  with assms(4) obtain i rs where d: "dir w p = Some i" "on_disk rs i w" "inodes_ok w" "with_extension ''compacting'' p \<noteq> p"
    by auto
  with vault_open_failed [OF d(2,1) not_opened(3)] show ?thesis by (auto simp: not_opened(2))
qed

lemma vault_steps_ok:
  "(sighted_vault_step cr)\<^sup>*\<^sup>* m m' \<Longrightarrow> crypto_ok cr \<Longrightarrow> machine_ok cr m \<Longrightarrow> machine_ok cr m'"
  by (induction rule: rtranclp_induct) (auto intro: vault_step_ok)

lemma new_vault_consistent:
  assumes "inodes_ok w0" and "with_extension ''compacting'' p \<noteq> p" and "dir w0 p = None"
    and "vault_open p w0 = (Inr v, w)"
  shows "consistent cr v w"
  by (rule vault_open_consistent [OF assms(1,2) _ assms(4)]) (use log_open_new [OF assms(3)] in fastforce)

section \<open>Properties\<close>



end
