(* ===== verification/Vault_Secrets.thy ===== *)
theory Vault_Secrets
  imports Vault_Machine
begin

text \<open>
  The secrets of a vault as a map from slots to values, and what each operation does to that map.
\<close>

section \<open>Operations taken apart\<close>

lemma vbind_eq_Inr:
  "vbind m f v w = (Inr y, v2, w2) \<longleftrightarrow> (\<exists>x v1 w1. m v w = (Inr x, v1, w1) \<and> f x v1 w1 = (Inr y, v2, w2))"
  by (auto simp: vbind_def split: prod.splits sum.splits)

lemma vbind_eq_Inl:
  "vbind m f v w = (Inl e, v2, w2) \<longleftrightarrow>
     m v w = (Inl e, v2, w2) \<or> (\<exists>x v1 w1. m v w = (Inr x, v1, w1) \<and> f x v1 w1 = (Inl e, v2, w2))"
  by (auto simp: vbind_def split: prod.splits sum.splits)

lemma vbind_cases:
  assumes "vbind m f v w = (r, v2, w2)"
  obtains e where "m v w = (Inl e, v2, w2)" and "r = Inl e"
  | x v1 w1 where "m v w = (Inr x, v1, w1)" and "f x v1 w1 = (r, v2, w2)"
  using assms by (auto simp: vbind_def split: prod.splits sum.splits)

lemma steps_eq [simp]:
  "vlook f v w = (r, v', w') \<longleftrightarrow> f v = r \<and> v' = v \<and> w' = w"
  "vret x v w = (r, v', w') \<longleftrightarrow> r = Inr x \<and> v' = v \<and> w' = w"
  "vfail e v w = (r, v', w') \<longleftrightarrow> r = Inl e \<and> v' = v \<and> w' = w"
  by (auto simp: vlook_def vret_def vfail_def)

lemma vio_eq [simp]: "vio m v w = (r, v', w') \<longleftrightarrow> m w = (r, w') \<and> v' = v"
  by (auto simp: vio_def split: prod.splits)

lemma vnow_eq [simp]: "vnow v w = (r, v', w') \<longleftrightarrow> (\<exists>t. r = Inr t \<and> now w = (t, w')) \<and> v' = v"
  by (auto simp: vnow_def split: prod.splits)

section \<open>Operations that leave the state alone\<close>

definition same_data :: "vault \<Rightarrow> vault \<Rightarrow> bool" where
  "same_data v v' \<longleftrightarrow> vt_state v' = vt_state v \<and> vt_root_key v' = vt_root_key v \<and> vt_barrier v' = vt_barrier v \<and>
     vt_pending v' = vt_pending v \<and> lg_path (vt_log v') = lg_path (vt_log v)"

lemma same_data_refl [simp]: "same_data v v"
  by (simp add: same_data_def)

lemma same_data_trans: "same_data v1 v2 \<Longrightarrow> same_data v2 v3 \<Longrightarrow> same_data v1 v3"
  by (simp add: same_data_def)

definition leaves :: "'a vault_op \<Rightarrow> bool" where
  "leaves m \<longleftrightarrow> (\<forall>v w r v' w'. m v w = (r, v', w') \<longrightarrow> same_data v v')"

named_theorems leaves_intros \<open>operations that leave the state alone\<close>

lemma leavesD: "leaves m \<Longrightarrow> m v w = (r, v', w') \<Longrightarrow> same_data v v'"
  unfolding leaves_def by blast

lemma leaves_bind [leaves_intros]:
  assumes "leaves m" and "\<And>x. leaves (f x)"
  shows "leaves (vbind m f)"
  unfolding leaves_def
proof (intro allI impI)
  fix v w r v' w' assume "vbind m f v w = (r, v', w')"
  then show "same_data v v'"
    by (cases rule: vbind_cases) (use assms in \<open>auto dest: leavesD intro: same_data_trans\<close>)
qed

lemma leaves_steps [leaves_intros]:
  "leaves (vlook g)" "leaves (vret x)" "leaves (vfail e)" "leaves (vio m)" "leaves vnow" "leaves (vreading rd)"
  by (simp_all add: leaves_def vreading_def)

lemma leaves_if [leaves_intros]: "leaves m \<Longrightarrow> leaves n \<Longrightarrow> leaves (if b then m else n)"
  by simp

text \<open>Committing an event changes the state by that event and nothing else.\<close>

lemma log_append_path: "log_append g k b lg w = (r, lg', w') \<Longrightarrow> lg_path lg' = lg_path lg"
  using log_append_same_else [of g k b lg w r lg' w'] by (simp add: same_else_def)

lemma commit_effect:
  assumes "commit cr ev v w = (r, v', w')"
  shows "case r of Inl e \<Rightarrow> same_data v v' \<and> (e = VaultSealed \<or> (\<exists>s. e = VaultStore s))
    | Inr _ \<Rightarrow> same_data (v\<lparr>vt_state := apply_event ev (vt_state v)\<rparr>) v'"
  using assms log_append_path
  by (auto simp: commit_def same_data_def split: option.splits prod.splits sum.splits)

lemma leaves_audit [leaves_intros]: "leaves (record_audit cr c action target outcome)"
proof -
  have "leaves (commit cr (Audited at who action target outcome))" for at who
    unfolding leaves_def using commit_effect [of cr "Audited at who action target outcome"]
    by (fastforce split: sum.splits simp: same_data_def)
  then show ?thesis unfolding record_audit_def by (intro leaves_intros)
qed

lemma leaves_resolve_and_record [leaves_intros]: "leaves (resolve_and_record cr c action p e target)"
proof -
  have "leaves (vbind (record_audit cr c action target ''unknown'') (\<lambda>_. vfail err))" for err :: vault_error
    by (intro leaves_intros)
  note refused = leavesD [OF this]
  show ?thesis
    unfolding leaves_def resolve_and_record_def by (auto split: sum.splits dest: refused)
qed

lemma leaves_authorise_or_record [leaves_intros]: "leaves (authorise_or_record cr c cap action target ids)"
  unfolding authorise_or_record_def by (auto split: sum.split intro!: leaves_intros)

lemma leaves_get_secret: "leaves (get_secret cr c p e k)"
  unfolding get_secret_def Let_def by (intro leaves_intros) (auto split: option.split intro!: leaves_intros)

lemma leaves_list_secrets: "leaves (list_secrets cr c p e)"
  unfolding list_secrets_def Let_def by (intro leaves_intros)

lemma leaves_audit_trail: "leaves (audit_trail cr c)"
  unfolding audit_trail_def by (intro leaves_intros)

section \<open>The map of secrets\<close>

text \<open>The value of a slot: the one that is stored, opened with the data key of its project.\<close>

definition open_secret :: "'phc crypto \<Rightarrow> vault \<Rightarrow> slot \<Rightarrow> sealed \<Rightarrow> vault_error + bytes" where
  "open_secret cr v k s = (case k of (p, e, n) \<Rightarrow>
     and_then (project_data_key cr p v) (\<lambda>data_key.
       map_err (\<lambda>_. VaultCrypto) (aead_open (cr_gcm cr) data_key (envelope_of_sealed s) (secret_context p e n))))"

definition secret_view :: "'phc crypto \<Rightarrow> vault \<Rightarrow> slot \<Rightarrow> bytes option" where
  "secret_view cr v k =
     Option.bind (lookup_slot k (vt_state v)) (\<lambda>(s, _). case open_secret cr v k s of Inl _ \<Rightarrow> None | Inr val \<Rightarrow> Some val)"

lemma project_data_key_cong:
  "vt_root_key v' = vt_root_key v \<Longrightarrow> projects (vt_state v') = projects (vt_state v) \<Longrightarrow>
   project_data_key cr p v' = project_data_key cr p v"
  by (simp add: project_data_key_def find_project_def)

lemma projects_unchanged [simp]:
  "projects (apply_event (SecretSet p e n s at) st) = projects st"
  "projects (apply_event (SecretDeleted p e n at) st) = projects st"
  by simp_all

lemma open_secret_cong:
  assumes "vt_root_key v' = vt_root_key v" and "projects (vt_state v') = projects (vt_state v)"
  shows "open_secret cr v' k s = open_secret cr v k s"
  by (cases k) (simp add: open_secret_def project_data_key_cong [OF assms])

lemma secret_view_same_data: "same_data v v' \<Longrightarrow> secret_view cr v' = secret_view cr v"
  by (simp add: secret_view_def open_secret_def fun_eq_iff same_data_def project_data_key_def)

text \<open>Storing a sealed value, and removing one, on the view.\<close>

lemma secret_view_set:
  assumes "open_secret cr v (p, e, n) s = Inr val"
  shows "secret_view cr (v\<lparr>vt_state := apply_event (SecretSet p e n s at) (vt_state v)\<rparr>) = (secret_view cr v)((p, e, n) \<mapsto> val)"
proof
  fix k
  let ?v = "v\<lparr>vt_state := apply_event (SecretSet p e n s at) (vt_state v)\<rparr>"
  have "lookup_slot k (vt_state ?v) = (if k = (p, e, n) then Some (s, at) else lookup_slot k (vt_state v))"
    using secret_slots.lookup_put [of k "(p, e, n)" "(s, at)" "vt_state v"]
    by (simp add: put_slot_def del: apply_event.simps)
  moreover have "open_secret cr ?v q t = open_secret cr v q t" for q t
    by (rule open_secret_cong) (simp_all del: apply_event.simps)
  ultimately show "secret_view cr ?v k = ((secret_view cr v)((p, e, n) \<mapsto> val)) k"
    using assms by (simp add: secret_view_def del: apply_event.simps)
qed

lemma secret_view_delete:
  "secret_view cr (v\<lparr>vt_state := apply_event (SecretDeleted p e n at) (vt_state v)\<rparr>) = (secret_view cr v)((p, e, n) := None)"
proof
  fix k
  let ?v = "v\<lparr>vt_state := apply_event (SecretDeleted p e n at) (vt_state v)\<rparr>"
  have "lookup_slot k (vt_state ?v) = (if k = (p, e, n) then None else lookup_slot k (vt_state v))"
    using secret_slots.lookup_remove [of k "(p, e, n)" "vt_state v"] by (simp add: delete_slot_def)
  moreover have "open_secret cr ?v q t = open_secret cr v q t" for q t
    by (rule open_secret_cong) (simp_all del: apply_event.simps)
  ultimately show "secret_view cr ?v k = ((secret_view cr v)((p, e, n) := None)) k"
    by (simp add: secret_view_def del: apply_event.simps)
qed

lemma seal_open_secret:
  assumes "gcm_ok (cr_gcm cr)" and "project_data_key cr p v = Inr dk"
    and "aead_seal (cr_gcm cr) dk val (secret_context p e n) w = (Inr env, w')"
  shows "open_secret cr v (p, e, n) (sealed_of_envelope env) = Inr val"
proof -
  have "key_ok dk" using assms(2) by (auto simp: project_data_key_def dest: unwrap_key_ok)
  from aead_open_seal [OF assms(1) this assms(3)] assms(2) show ?thesis
    by (simp add: open_secret_def)
qed

section \<open>What the operations do to it\<close>

lemma resolve_and_record_Inr:
  "resolve_and_record cr c action p e target v w = (Inr ids, v', w') \<longleftrightarrow>
     resolve p e v = Inr ids \<and> v' = v \<and> w' = w"
  by (auto simp: resolve_and_record_def resolve_for_def vbind_eq_Inr split: sum.splits if_splits)

lemma authorise_or_record_Inr:
  "authorise_or_record cr c cap action target ids v w = (Inr u, v', w') \<longleftrightarrow>
     authorise c cap (fst ids) (snd ids) = Inr () \<and> v' = v \<and> w' = w"
  by (auto simp: authorise_or_record_def vbind_eq_Inr split: sum.splits)

lemma audit_error:
  "record_audit cr c action target outcome v w = (Inl err, v', w') \<Longrightarrow> \<not> is_sealed v \<Longrightarrow> \<exists>s. err = VaultStore s"
  by (auto simp: record_audit_def vbind_eq_Inl commit_def is_sealed_def split: option.splits prod.splits sum.splits)

text \<open>An event is committed and the outcome recorded: what can happen, and what it leaves.\<close>

lemma commit_and_record:
  assumes "vbind (commit cr ev) (\<lambda>_. record_audit cr c action target outcome) v w = (r, v', w')" and "\<not> is_sealed v"
  obtains (refused) err where "r = Inl err" "same_data v v'"
  | (applied) "same_data (v\<lparr>vt_state := apply_event ev (vt_state v)\<rparr>) v'" "r = Inr () \<or> (\<exists>s. r = Inl (VaultStore s))"
  using assms(1)
proof (cases rule: vbind_cases)
  case (1 err)
  with commit_effect [OF 1(1)] show ?thesis by (intro refused) auto
next
  case (2 x v1 w1)
  from commit_effect [OF 2(1)] have one: "same_data (v\<lparr>vt_state := apply_event ev (vt_state v)\<rparr>) v1" by simp
  then have "\<not> is_sealed v1" using assms(2) by (simp add: same_data_def is_sealed_def)
  with 2(2) audit_error [of cr c action target outcome v1 w1] have "r = Inr () \<or> (\<exists>s. r = Inl (VaultStore s))"
    by (cases r) auto
  with same_data_trans [OF one leavesD [OF leaves_audit 2(2)]] show ?thesis by (rule applied)
qed

text \<open>A write of a secret, up to the point where it is stored.\<close>

definition prepare_set ::
  "'phc crypto \<Rightarrow> caller \<Rightarrow> str \<Rightarrow> str \<Rightarrow> str \<Rightarrow> bytes \<Rightarrow> ((str \<times> str) \<times> str \<times> sealed \<times> timestamp) vault_op" where
  "prepare_set cr c p e raw val =
     vbind (vlook require_unsealed) (\<lambda>_.
     vbind (vlook (\<lambda>_. valid_secret_key raw)) (\<lambda>key.
     vbind (resolve_and_record cr c ''secret.set'' p e (slot_target p e key)) (\<lambda>ids.
     vbind (authorise_or_record cr c WriteSecrets ''secret.set'' (slot_target p e key) ids) (\<lambda>_.
     vbind (vlook (project_data_key cr (fst ids))) (\<lambda>data_key.
     vbind (vio (mapE (\<lambda>e. case e of PlaintextTooLarge n limit \<Rightarrow> ValueTooLarge n limit | _ \<Rightarrow> VaultCrypto)
         (aead_seal (cr_gcm cr) data_key val (secret_context (fst ids) (snd ids) key)))) (\<lambda>sealed_value.
     vbind vnow (\<lambda>at. vret (ids, key, sealed_of_envelope sealed_value, at))))))))"

lemma set_secret_split:
  "set_secret cr c p e raw val = vbind (prepare_set cr c p e raw val) (\<lambda>(ids, key, s, at).
     vbind (commit cr (SecretSet (fst ids) (snd ids) key s at)) (\<lambda>_.
       record_audit cr c ''secret.set'' (slot_target p e key) ''ok''))"
  by (simp add: set_secret_def prepare_set_def Let_def vbind_assoc vbind_ret)

lemma leaves_prepare_set: "leaves (prepare_set cr c p e raw val)"
  unfolding prepare_set_def by (intro leaves_intros)

lemma prepare_set_Inr:
  assumes "gcm_ok (cr_gcm cr)" and "prepare_set cr c p e raw val v w = (Inr (ids, key, s, at), v', w')"
  shows "v' = v \<and> \<not> is_sealed v \<and> valid_secret_key raw = Inr key \<and> resolve p e v = Inr ids \<and>
     authorise c WriteSecrets (fst ids) (snd ids) = Inr () \<and> open_secret cr v (fst ids, snd ids, key) s = Inr val"
proof -
  from assms(2) obtain dk w1 env w2 where "v' = v" "require_unsealed v = Inr ()" "valid_secret_key raw = Inr key"
    "resolve p e v = Inr ids" "authorise c WriteSecrets (fst ids) (snd ids) = Inr ()"
    "project_data_key cr (fst ids) v = Inr dk" "s = sealed_of_envelope env"
    "aead_seal (cr_gcm cr) dk val (secret_context (fst ids) (snd ids) key) w1 = (Inr env, w2)"
    unfolding prepare_set_def
    by (auto simp: vbind_eq_Inr resolve_and_record_Inr authorise_or_record_Inr mapE_eq_Inr)
  with seal_open_secret [OF assms(1)] show ?thesis
    by (auto simp: require_unsealed_def split: if_splits)
qed

lemma set_secret_effect:
  assumes "gcm_ok (cr_gcm cr)" and "set_secret cr c p e raw val v w = (r, v', w')"
  obtains (refused) err where "r = Inl err" "same_data v v'"
  | (stored) ids key s at where "valid_secret_key raw = Inr key" "resolve p e v = Inr ids"
      "authorise c WriteSecrets (fst ids) (snd ids) = Inr ()" "\<not> is_sealed v"
      "same_data (v\<lparr>vt_state := apply_event (SecretSet (fst ids) (snd ids) key s at) (vt_state v)\<rparr>) v'"
      "secret_view cr v' = (secret_view cr v)((fst ids, snd ids, key) \<mapsto> val)"
      "r = Inr () \<or> (\<exists>se. r = Inl (VaultStore se))"
  using assms(2) unfolding set_secret_split
proof (cases rule: vbind_cases)
  case (1 err)
  with leavesD [OF leaves_prepare_set 1(1)] show ?thesis by (intro refused) simp_all
next
  case (2 x v1 w1)
  obtain ids key s at where x: "x = (ids, key, s, at)" by (cases x) auto
  note pre = prepare_set_Inr [OF assms(1) 2(1) [unfolded x]]
  from pre 2(2) have run: "vbind (commit cr (SecretSet (fst ids) (snd ids) key s at)) (\<lambda>_.
      record_audit cr c ''secret.set'' (slot_target p e key) ''ok'') v w1 = (r, v', w')" and un: "\<not> is_sealed v"
    by (simp_all add: x)
  from run un show ?thesis
  proof (cases rule: commit_and_record)
    case (refused err)
    then show ?thesis by (rule that(1))
  next
    case applied
    with pre secret_view_set [of cr v "fst ids" "snd ids" key s val at] secret_view_same_data [OF applied(1), of cr]
    show ?thesis by (intro that(2) [of key ids s at]) (simp_all del: apply_event.simps)
  qed
qed

definition prepare_delete :: "'phc crypto \<Rightarrow> caller \<Rightarrow> str \<Rightarrow> str \<Rightarrow> str \<Rightarrow> ((str \<times> str) \<times> timestamp) vault_op" where
  "prepare_delete cr c p e key =
     vbind (vlook require_unsealed) (\<lambda>_.
     vbind (resolve_and_record cr c ''secret.delete'' p e (slot_target p e key)) (\<lambda>ids.
     vbind (authorise_or_record cr c WriteSecrets ''secret.delete'' (slot_target p e key) ids) (\<lambda>_.
     vbind (vlook (\<lambda>v. if find_secret (fst ids) (snd ids) key (vt_state v) = None
         then Inl (NotFound ''secret'') else Inr ())) (\<lambda>_.
     vbind vnow (\<lambda>at. vret (ids, at))))))"

lemma delete_secret_split:
  "delete_secret cr c p e key = vbind (prepare_delete cr c p e key) (\<lambda>(ids, at).
     vbind (commit cr (SecretDeleted (fst ids) (snd ids) key at)) (\<lambda>_.
       record_audit cr c ''secret.delete'' (slot_target p e key) ''ok''))"
  by (simp add: delete_secret_def prepare_delete_def Let_def vbind_assoc vbind_ret)

lemma leaves_prepare_delete: "leaves (prepare_delete cr c p e key)"
  unfolding prepare_delete_def by (intro leaves_intros)

lemma prepare_delete_Inr:
  assumes "prepare_delete cr c p e key v w = (Inr (ids, at), v', w')"
  shows "v' = v \<and> \<not> is_sealed v \<and> resolve p e v = Inr ids \<and> authorise c WriteSecrets (fst ids) (snd ids) = Inr () \<and>
     find_secret (fst ids) (snd ids) key (vt_state v) \<noteq> None"
  using assms unfolding prepare_delete_def
  by (auto simp: vbind_eq_Inr resolve_and_record_Inr authorise_or_record_Inr require_unsealed_def split: if_splits)

lemma delete_secret_effect:
  assumes "delete_secret cr c p e key v w = (r, v', w')"
  obtains (refused) err where "r = Inl err" "same_data v v'"
  | (deleted) ids at where "resolve p e v = Inr ids" "authorise c WriteSecrets (fst ids) (snd ids) = Inr ()"
      "find_secret (fst ids) (snd ids) key (vt_state v) \<noteq> None" "\<not> is_sealed v"
      "same_data (v\<lparr>vt_state := apply_event (SecretDeleted (fst ids) (snd ids) key at) (vt_state v)\<rparr>) v'"
      "secret_view cr v' = (secret_view cr v)((fst ids, snd ids, key) := None)"
      "r = Inr () \<or> (\<exists>se. r = Inl (VaultStore se))"
  using assms unfolding delete_secret_split
proof (cases rule: vbind_cases)
  case (1 err)
  with leavesD [OF leaves_prepare_delete 1(1)] show ?thesis by (intro refused) simp_all
next
  case (2 x v1 w1)
  obtain ids at where x: "x = (ids, at)" by (cases x) auto
  note pre = prepare_delete_Inr [OF 2(1) [unfolded x]]
  from pre 2(2) have run: "vbind (commit cr (SecretDeleted (fst ids) (snd ids) key at)) (\<lambda>_.
      record_audit cr c ''secret.delete'' (slot_target p e key) ''ok'') v w1 = (r, v', w')" and un: "\<not> is_sealed v"
    by (simp_all add: x)
  from run un show ?thesis
  proof (cases rule: commit_and_record)
    case (refused err)
    then show ?thesis by (rule that(1))
  next
    case applied
    with pre secret_view_delete [of cr "fst ids" "snd ids" key at v] secret_view_same_data [OF applied(1), of cr]
    show ?thesis by (intro that(2) [of ids at]) (simp_all del: apply_event.simps)
  qed
qed

section \<open>Reading\<close>

text \<open>A read that returns a value returns the value of its slot, and only to who may read it.\<close>

lemma get_secret_Inr:
  assumes "get_secret cr c p e key v w = (Inr val, v', w')"
  shows "\<exists>ids. \<not> is_sealed v \<and> resolve p e v = Inr ids \<and> authorise c ReadSecrets (fst ids) (snd ids) = Inr () \<and>
     secret_view cr v (fst ids, snd ids, key) = Some val \<and>
     record_audit cr c ''secret.read'' (slot_target p e key) ''ok'' v w = (Inr (), v', w')"
  using assms unfolding get_secret_def Let_def
  by (auto simp: vbind_eq_Inr resolve_and_record_Inr authorise_or_record_Inr require_unsealed_def secret_view_def
      lookup_slot_def open_secret_def split: if_splits option.splits)

text \<open>And one who may read it gets it, or the failure to record it.\<close>

lemma get_secret_complete:
  assumes "\<not> is_sealed v" and "resolve p e v = Inr ids" and "authorise c ReadSecrets (fst ids) (snd ids) = Inr ()"
    and "secret_view cr v (fst ids, snd ids, key) = Some val"
  shows "\<exists>r. get_secret cr c p e key v w = r \<and> (fst r = Inr val \<or> (\<exists>s. fst r = Inl (VaultStore s)))"
proof -
  from assms(4) obtain sec dk where sec: "find_secret (fst ids) (snd ids) key (vt_state v) = Some sec"
    and dk: "project_data_key cr (fst ids) v = Inr dk"
    and val: "aead_open (cr_gcm cr) dk (envelope_of_sealed (s_value sec)) (secret_context (fst ids) (snd ids) key) = Inr val"
    by (auto simp: secret_view_def lookup_slot_def open_secret_def split: bind_splits sum.splits option.splits)
  obtain r v1 w1 where audit: "record_audit cr c ''secret.read'' (slot_target p e key) ''ok'' v w = (r, v1, w1)"
    by (metis prod_cases3)
  have "resolve_for c p e v = Inr ids" using assms(2) by (simp add: resolve_for_def)
  with assms(1,3) sec dk val audit have "fst (get_secret cr c p e key v w) = map_err id (and_then r (\<lambda>_. Inr val))"
    by (cases r) (simp_all add: get_secret_def Let_def vbind_def vlook_def require_unsealed_def resolve_and_record_def vret_def
      authorise_or_record_def)
  then show ?thesis using audit_error [of cr c "''secret.read''" "slot_target p e key" "''ok''" v w] audit assms(1)
    by (cases r) auto
qed

text \<open>A listing is the part of the map that lies in one environment, in the order of the keys.\<close>

lemma list_secrets_Inr:
  assumes "list_secrets cr c p e v w = (Inr out, v', w')" and "slots_distinct (vt_state v)"
  shows "\<exists>ids. \<not> is_sealed v \<and> resolve p e v = Inr ids \<and> authorise c ReadSecrets (fst ids) (snd ids) = Inr () \<and>
     sorted_wrt (<) (map fst out) \<and>
     (\<forall>key val. (key, val) \<in> set out \<longleftrightarrow> secret_view cr v (fst ids, snd ids, key) = Some val) \<and>
     record_audit cr c ''secret.list'' (p @ ''/'' @ e) ''ok'' v w = (Inr (), v', w')"
proof -
  let ?open = "\<lambda>ids dk (key, s). and_then (map_err (\<lambda>_. VaultCrypto) (aead_open (cr_gcm cr) dk (envelope_of_sealed s)
      (secret_context (fst ids) (snd ids) key))) (\<lambda>plain. Inr (key, plain))"
  from assms(1) obtain ids dk where un: "\<not> is_sealed v" and ids: "resolve p e v = Inr ids"
    and auth: "authorise c ReadSecrets (fst ids) (snd ids) = Inr ()" and dk: "project_data_key cr (fst ids) v = Inr dk"
    and out: "traverse (?open ids dk) (map (\<lambda>s. (s_key s, s_value s)) (secrets_in (fst ids) (snd ids) (vt_state v))) = Inr out"
    and audit: "record_audit cr c ''secret.list'' (p @ ''/'' @ e) ''ok'' v w = (Inr (), v', w')"
    unfolding list_secrets_def Let_def
    by (auto simp: vbind_eq_Inr resolve_and_record_Inr authorise_or_record_Inr require_unsealed_def split: if_splits)
  let ?in = "secrets_in (fst ids) (snd ids) (vt_state v)"
  note spec = secrets_in_spec [OF assms(2), of "fst ids" "snd ids"]
  have rel: "list_all2 (\<lambda>s q. fst q = s_key s \<and>
      aead_open (cr_gcm cr) dk (envelope_of_sealed (s_value s)) (secret_context (fst ids) (snd ids) (s_key s)) = Inr (snd q)) ?in out"
    using out unfolding traverse_eq_Inr_iff list_all2_map1 by (rule list_all2_mono) auto
  then have keys: "map fst out = map s_key ?in"
    by (induction rule: list_all2_induct) auto
  have "(key, val) \<in> set out \<longleftrightarrow> secret_view cr v (fst ids, snd ids, key) = Some val" for key val
  proof -
    have "(key, val) \<in> set out \<longleftrightarrow> (\<exists>s\<in>set ?in. s_key s = key \<and>
        aead_open (cr_gcm cr) dk (envelope_of_sealed (s_value s)) (secret_context (fst ids) (snd ids) key) = Inr val)"
      using rel
      by (induction rule: list_all2_induct) (use keys in \<open>auto\<close>)
    also have "\<dots> \<longleftrightarrow> (\<exists>s. find_secret (fst ids) (snd ids) key (vt_state v) = Some s \<and>
        aead_open (cr_gcm cr) dk (envelope_of_sealed (s_value s)) (secret_context (fst ids) (snd ids) key) = Inr val)"
      using spec find_secret_iff [OF assms(2)] by (auto simp: slot_of_def)
    also have "\<dots> \<longleftrightarrow> secret_view cr v (fst ids, snd ids, key) = Some val"
      using dk by (auto simp: secret_view_def lookup_slot_def open_secret_def split: bind_splits sum.splits)
    finally show ?thesis .
  qed
  with un ids auth audit keys spec show ?thesis by auto
qed

text \<open>Whoever may list an environment all of whose values open gets the listing, or the failure to record it.\<close>

lemma list_secrets_complete:
  assumes "\<not> is_sealed v" and "resolve p e v = Inr ids" and "authorise c ReadSecrets (fst ids) (snd ids) = Inr ()"
    and "project_data_key cr (fst ids) v = Inr dk" and "slots_distinct (vt_state v)"
    and "\<And>key. lookup_slot (fst ids, snd ids, key) (vt_state v) \<noteq> None \<Longrightarrow> secret_view cr v (fst ids, snd ids, key) \<noteq> None"
  shows "\<exists>out. fst (list_secrets cr c p e v w) = Inr out \<or> (\<exists>s. fst (list_secrets cr c p e v w) = Inl (VaultStore s))"
proof -
  let ?in = "secrets_in (fst ids) (snd ids) (vt_state v)"
  let ?open = "\<lambda>(key, s). and_then (map_err (\<lambda>_. VaultCrypto) (aead_open (cr_gcm cr) dk (envelope_of_sealed s)
      (secret_context (fst ids) (snd ids) key))) (\<lambda>plain. Inr (key, plain))"
  let ?out = "map (\<lambda>s. (s_key s, the (secret_view cr v (fst ids, snd ids, s_key s)))) ?in"
  have opens: "?open (s_key s, s_value s) = Inr (s_key s, the (secret_view cr v (fst ids, snd ids, s_key s)))"
    if "s \<in> set ?in" for s
  proof -
    have "find_secret (fst ids) (snd ids) (s_key s) (vt_state v) = Some s"
      using that secrets_in_spec [OF assms(5), of "fst ids" "snd ids" s] find_secret_iff [OF assms(5)]
      by (auto simp: slot_of_def)
    with assms(4) assms(6) [of "s_key s"] show ?thesis
      by (auto simp: secret_view_def lookup_slot_def open_secret_def split: sum.splits)
  qed
  have listed: "traverse ?open (map (\<lambda>s. (s_key s, s_value s)) ?in) = Inr ?out"
    by (rule traverse_map_Inr) (rule opens)
  obtain r v1 w1 where audit: "record_audit cr c ''secret.list'' (p @ ''/'' @ e) ''ok'' v w = (r, v1, w1)"
    by (metis prod_cases3)
  have "resolve_for c p e v = Inr ids" using assms(2) by (simp add: resolve_for_def)
  with assms(1,3,4) listed audit have "fst (list_secrets cr c p e v w) = and_then r (\<lambda>_. Inr ?out)"
    by (cases r) (simp_all add: list_secrets_def Let_def vbind_def vlook_def require_unsealed_def resolve_and_record_def
      vret_def authorise_or_record_def)
  then show ?thesis using audit_error [OF _ assms(1)] audit by (cases r) auto
qed

section \<open>Rekeying leaves the map as it is\<close>

text \<open>The same project under two root keys: the same data key comes out.\<close>

definition same_project :: "'phc crypto \<Rightarrow> data_key \<Rightarrow> data_key \<Rightarrow> project \<Rightarrow> project \<Rightarrow> bool" where
  "same_project cr k k' p q \<longleftrightarrow> p_id q = p_id p \<and> p_slug q = p_slug p \<and> p_name q = p_name p \<and>
     p_created_at q = p_created_at p \<and>
     unwrap_key (cr_gcm cr) k' (envelope_of_sealed (p_data_key q)) (project_key_context (p_id p)) =
       unwrap_key (cr_gcm cr) k (envelope_of_sealed (p_data_key p)) (project_key_context (p_id p))"

definition moved_state :: "'phc crypto \<Rightarrow> data_key \<Rightarrow> data_key \<Rightarrow> state \<Rightarrow> state \<Rightarrow> bool" where
  "moved_state cr k k' st st' \<longleftrightarrow> users st' = users st \<and> tokens st' = tokens st \<and>
     environments st' = environments st \<and> secrets st' = secrets st \<and>
     list_all2 (same_project cr k k') (projects st) (projects st')"

definition moved_event :: "'phc crypto \<Rightarrow> data_key \<Rightarrow> data_key \<Rightarrow> event \<Rightarrow> event \<Rightarrow> bool" where
  "moved_event cr k k' e e' \<longleftrightarrow> (case e of
     ProjectCreated i slug name dk at \<Rightarrow> (\<exists>dk'. e' = ProjectCreated i slug name dk' at \<and>
       unwrap_key (cr_gcm cr) k' (envelope_of_sealed dk') (project_key_context i) =
         unwrap_key (cr_gcm cr) k (envelope_of_sealed dk) (project_key_context i))
   | _ \<Rightarrow> e' = e)"

lemma carry_event_moved:
  assumes "gcm_ok (cr_gcm cr)" and "key_ok k'" and "carry_event cr k k' e w = (Inr e', w')"
  shows "moved_event cr k k' e e'"
proof (cases e)
  case (ProjectCreated i slug name dk at)
  with assms(3) obtain key env w1 where key: "unwrap_key (cr_gcm cr) k (envelope_of_sealed dk) (project_key_context i) = Inr key"
    and env: "wrap_key (cr_gcm cr) k' key (project_key_context i) w1 = (Inr env, w')"
    and e': "e' = ProjectCreated i slug name (sealed_of_envelope env) at"
    by (auto simp: carry_event_def Let_def bindio_eq_Inr liftR_def or_crypto_def mapE_eq_Inr ret_apply)
  from unwrap_wrap [OF assms(1,2) unwrap_key_ok [OF key] env] key show ?thesis
    by (simp add: moved_event_def ProjectCreated e')
qed (use assms(3) in \<open>auto simp: moved_event_def carry_event_def ret_apply\<close>)

lemma carry_events_moved:
  assumes "gcm_ok (cr_gcm cr)" and "key_ok k'"
  shows "carry_events cr k k' es w = (Inr es', w') \<Longrightarrow> list_all2 (moved_event cr k k') es es'"
  by (induction es arbitrary: es' w) (auto simp: bindio_eq_Inr ret_apply intro: carry_event_moved [OF assms])

lemma apply_moved:
  "moved_event cr k k' e e' \<Longrightarrow> moved_state cr k k' st st' \<Longrightarrow> moved_state cr k k' (apply_event e st) (apply_event e' st')"
  by (cases e) (auto simp: moved_event_def moved_state_def same_project_def list_all2_appendI)

lemma replay_moved: "list_all2 (moved_event cr k k') es es' \<Longrightarrow> moved_state cr k k' (replay es) (replay es')"
proof -
  assume "list_all2 (moved_event cr k k') es es'"
  moreover have "moved_state cr k k' empty_state empty_state" by (simp add: moved_state_def empty_state_def)
  ultimately have "moved_state cr k k' (fold apply_event es st) (fold apply_event es' st')"
    if "moved_state cr k k' st st'" for st st'
    using that by (induction arbitrary: st st' rule: list_all2_induct) (simp_all add: apply_moved)
  with \<open>moved_state cr k k' empty_state empty_state\<close> show ?thesis by (simp add: replay_def)
qed

lemma find_same_project:
  assumes "list_all2 (same_project cr k k') ps qs"
  shows "case List.find (\<lambda>p. p_id p = i) ps of None \<Rightarrow> List.find (\<lambda>p. p_id p = i) qs = None
    | Some p \<Rightarrow> \<exists>q. List.find (\<lambda>p. p_id p = i) qs = Some q \<and> same_project cr k k' p q \<and> p_id p = i"
  using assms by (induction rule: list_all2_induct) (auto simp: same_project_def split: option.splits)

lemma moved_view:
  assumes "moved_state cr k k' (vt_state v) (vt_state v')" and "vt_root_key v = Some k" and "vt_root_key v' = Some k'"
  shows "secret_view cr v' = secret_view cr v"
proof
  fix q
  have "project_data_key cr i v' = project_data_key cr i v" for i
    using find_same_project [of cr k k' "projects (vt_state v)" "projects (vt_state v')" i] assms
    by (auto simp: project_data_key_def find_project_def moved_state_def same_project_def split: option.splits)
  then have "open_secret cr v' q s = open_secret cr v q s" for s
    by (cases q) (simp add: open_secret_def)
  moreover have "lookup_slot q (vt_state v') = lookup_slot q (vt_state v)"
    using assms(1) by (simp add: lookup_slot_def find_secret_def moved_state_def)
  ultimately show "secret_view cr v' q = secret_view cr v q" by (simp add: secret_view_def)
qed

text \<open>Audit records are carried as they are.\<close>

lemma moved_audit: "list_all2 (moved_event cr k k') es es' \<Longrightarrow> List.map_filter audit_of es' = List.map_filter audit_of es"
proof (induction rule: list_all2_induct)
  case (Cons e es e' es')
  then have "audit_of e' = audit_of e" by (cases e) (auto simp: moved_event_def)
  with Cons show ?case by (simp add: List.map_filter_def)
qed (simp add: List.map_filter_def)

text \<open>What a rekeying that succeeds has done to the history and the state.\<close>

lemma prepare_rekey_Inr:
  assumes "prepare_rekey cr c t n v w = (Inr (k', b, es', split), v', w')"
  obtains k records w1 es moved w2 w3 at where "vt_root_key v = Some k" and "require c Administer = Inr ()"
    and "read_records (cr_gcm cr) k (vt_log v) w = (Inr records, w1)" and "events_of records = Inr es" and "key_ok k'"
    and "carry_events cr k k' es w2 = (Inr moved, w3)"
    and "es' = moved @ [Audited at (actor c) ''vault.rekey'' ''unseal shares'' ''ok'']"
  using assms unfolding prepare_rekey_def
  by (auto simp: vbind_eq_Inr vreading_def mapE_eq_Inr dest: key_generate_or_crypto)

lemma rekey_history:
  assumes "crypto_ok cr" and "caller_ok c" and "consistent cr v w" and "\<not> lg_broken (vt_log v)"
    and "rekey cr c t n v w = (Inr out, v', w')"
  obtains k k' es moved at where "vt_root_key v = Some k" and "vt_root_key v' = Some k'" and "require c Administer = Inr ()"
    and "history cr v w es" and "list_all2 (moved_event cr k k') es moved"
    and "history cr v' w' (moved @ [Audited at (actor c) ''vault.rekey'' ''unseal shares'' ''ok''])"
    and "\<not> lg_broken (vt_log v')"
proof -
  from assms(5) obtain k' b es' split v1 w1 where pre: "prepare_rekey cr c t n v w = (Inr (k', b, es', split), v1, w1)"
    and run: "rewrite_under cr k' [barrier_to_bytes b] b es'
      \<lparr>io_shares = map (print_share (cr_sha cr)) split, io_root_token = [], io_threshold = t\<rparr> v1 w1 = (Inr out, v', w')"
    unfolding rekey_split by (auto simp: vbind_eq_Inr)
  note keeps = keepsD [OF keeps_prepare_rekey [OF assms(1,2)] assms(3) pre]
  from prepare_rekey_Inr [OF pre] obtain k records w2 es moved w3 w4 at where r: "vt_root_key v = Some k"
    "require c Administer = Inr ()" "read_records (cr_gcm cr) k (vt_log v) w = (Inr records, w2)" "events_of records = Inr es"
    "key_ok k'" "carry_events cr k k' es w3 = (Inr moved, w4)"
    "es' = moved @ [Audited at (actor c) ''vault.rekey'' ''unseal shares'' ''ok'']" by metis
  from assms(3) r(1) obtain es0 where hist: "history cr v w es0"
    by (auto simp: consistent_def is_sealed_def)
  with r(1) obtain rs out0 where h: "in_step rs (vt_log v) w" "decoded (cr_gcm cr) k rs = Inr out0" "events_of out0 = Inr es0"
    by (auto simp: history_def)
  from read_records_in_step [OF h(1) r(3)] assms(4) h(2) have "records = out0" by auto
  with r(4) h(3) have "es = es0" by simp
  moreover have "list_all2 (moved_event cr k k') es moved"
    by (rule carry_events_moved [OF crypto_gcm [OF assms(1)] r(5,6)])
  moreover have "history cr v' w' es' \<and> \<not> lg_broken (vt_log v')"
    using rewrite_run [OF assms(1) r(5) _ keeps(1) run] keeps(2) by auto
  moreover have "vt_root_key v' = Some k'"
    using run by (auto simp: vbind_eq_Inr vset_def)
  ultimately show thesis using that r(1,2,7) hist by blast
qed

text \<open>
  Two vaults that no reader can tell apart: the same values in the same slots, the same accounts and
  tokens, the same projects and environments by the same names, and the same tokens let in.
\<close>

definition same_to_readers :: "'phc crypto \<Rightarrow> vault \<Rightarrow> vault \<Rightarrow> bool" where
  "same_to_readers cr v v' \<longleftrightarrow> secret_view cr v' = secret_view cr v \<and>
     users (vt_state v') = users (vt_state v) \<and> tokens (vt_state v') = tokens (vt_state v) \<and>
     environments (vt_state v') = environments (vt_state v) \<and>
     map (\<lambda>p. (p_id p, p_slug p, p_name p, p_created_at p)) (projects (vt_state v')) =
       map (\<lambda>p. (p_id p, p_slug p, p_name p, p_created_at p)) (projects (vt_state v)) \<and>
     secrets (vt_state v') = secrets (vt_state v) \<and>
     (\<forall>p e. resolve p e v' = resolve p e v) \<and>
     (\<forall>a. project_slugs a v' = project_slugs a v) \<and> (\<forall>a p. environment_slugs a p v' = environment_slugs a p v) \<and>
     (\<forall>presented u. authenticate cr presented v' u = authenticate cr presented v u)"

lemma same_data_to_readers:
  assumes "same_data v v'"
  shows "same_to_readers cr v v'"
proof -
  have eqs: "vt_state v' = vt_state v" "vt_root_key v' = vt_root_key v" using assms by (simp_all add: same_data_def)
  show ?thesis
    unfolding same_to_readers_def resolve_def project_slugs_def environment_slugs_def authenticate_def
      require_unsealed_def is_sealed_def eqs secret_view_same_data [OF assms] by simp
qed

lemma find_moved_slug:
  assumes "list_all2 (same_project cr k k') ps qs"
  shows "map_option p_id (List.find (\<lambda>p. p_slug p = s) qs) = map_option p_id (List.find (\<lambda>p. p_slug p = s) ps)"
  using assms by (induction rule: list_all2_induct) (auto simp: same_project_def)

lemma moved_to_readers:
  assumes m: "moved_state cr k k' (vt_state v) (vt_state v')" and k: "vt_root_key v = Some k" "vt_root_key v' = Some k'"
  shows "same_to_readers cr v v'"
proof -
  let ?ps = "projects (vt_state v)" and ?qs = "projects (vt_state v')"
  have rel: "list_all2 (same_project cr k k') ?ps ?qs" using m by (simp add: moved_state_def)
  from rel have cols: "map (\<lambda>p. (p_id p, p_slug p, p_name p, p_created_at p)) ?qs = map (\<lambda>p. (p_id p, p_slug p, p_name p, p_created_at p)) ?ps"
    by (induction rule: list_all2_induct) (auto simp: same_project_def)
  from rel have slugs: "map p_slug ?qs = map p_slug ?ps"
    by (induction rule: list_all2_induct) (auto simp: same_project_def)
  note found = find_moved_slug [OF rel]
  have res: "resolve p e v' = resolve p e v" for p e
    using m found [of p]
    by (cases "List.find (\<lambda>q. p_slug q = p) ?ps"; cases "List.find (\<lambda>q. p_slug q = p) ?qs")
      (simp_all add: resolve_def project_by_slug_def environment_by_slug_def moved_state_def ok_or_def)
  have envs: "environment_slugs a p v' = environment_slugs a p v" for a p
    using m k found [of p]
    by (cases "List.find (\<lambda>q. p_slug q = p) ?ps"; cases "List.find (\<lambda>q. p_slug q = p) ?qs")
      (simp_all add: environment_slugs_def project_by_slug_def environments_in_def moved_state_def ok_or_def
        require_unsealed_def is_sealed_def)
  have auth: "authenticate cr presented v' u = authenticate cr presented v u" for presented u
  proof -
    have eqs: "users (vt_state v') = users (vt_state v)" "token_by_hash h (vt_state v') = token_by_hash h (vt_state v)" for h
      using m by (simp_all add: moved_state_def token_by_hash_def)
    show ?thesis unfolding authenticate_def is_sealed_def eqs k by simp
  qed
  have "project_slugs a v' = project_slugs a v" for a
    using k slugs by (simp add: project_slugs_def require_unsealed_def is_sealed_def)
  with moved_view [OF m k] m cols res envs auth show ?thesis
    by (simp add: same_to_readers_def moved_state_def)
qed

lemma rekey_to_readers:
  assumes "crypto_ok cr" and "caller_ok c" and "consistent cr v w" and "\<not> lg_broken (vt_log v)"
    and "rekey cr c t n v w = (Inr out, v', w')"
  shows "same_to_readers cr v v'"
proof -
  from rekey_history [OF assms] obtain k k' es moved at where h: "vt_root_key v = Some k" "vt_root_key v' = Some k'"
    "history cr v w es" "list_all2 (moved_event cr k k') es moved"
    "history cr v' w' (moved @ [Audited at (actor c) ''vault.rekey'' ''unseal shares'' ''ok''])" by metis
  have "vt_state v' = replay moved" using h(5) by (auto simp: history_def replay_def)
  with replay_moved [OF h(4)] h(3) have "moved_state cr k k' (vt_state v) (vt_state v')" by (auto simp: history_def)
  then show ?thesis using h(1,2) by (rule moved_to_readers)
qed

text \<open>Reading the trail back.\<close>

lemma audit_trail_history:
  assumes "history cr v w es" and "\<not> lg_broken (vt_log v)" and "fs_healthy w" and "require a Administer = Inr ()"
  shows "fst (audit_trail cr a v w) = Inr (List.map_filter audit_of es)"
proof -
  from assms(1,2) obtain k rs out where k: "vt_root_key v = Some k" and st: "stored rs (vt_log v) w"
    and out: "decoded (cr_gcm cr) k rs = Inr out" "events_of out = Inr es"
    by (auto simp: history_def in_step_def)
  from read_records_stored [OF assms(3) st, of "cr_gcm cr" k] out(1)
  obtain w1 where read: "read_records (cr_gcm cr) k (vt_log v) w = (Inr out, w1)" by auto
  have "list_all2 (\<lambda>q ev. event_from_bytes (lr_payload q) = Inr ev) (filter lr_sealed out) es"
    using out(2) by (simp add: events_of_def traverse_eq_Inr_iff)
  then have "List.map_filter (\<lambda>q. case event_from_bytes (lr_payload q) of Inl _ \<Rightarrow> None | Inr ev \<Rightarrow> audit_of ev)
      (filter lr_sealed out) = List.map_filter audit_of es"
    by (induction rule: list_all2_induct) (simp_all add: List.map_filter_def)
  with assms(4) k read show ?thesis
    by (simp add: audit_trail_def vbind_def vlook_def vreading_def vio_def mapE_def vret_def)
qed

lemma map_filter_snoc: "List.map_filter f (xs @ [x]) = List.map_filter f xs @ (case f x of None \<Rightarrow> [] | Some y \<Rightarrow> [y])"
  by (simp add: List.map_filter_def split: option.split)

text \<open>An operation that changes the vault only when it succeeds.\<close>

definition fails_leave :: "'a vault_op \<Rightarrow> bool" where
  "fails_leave m \<longleftrightarrow> (\<forall>v w e v' w'. m v w = (Inl e, v', w') \<longrightarrow> same_data v v')"

lemma fails_leave_bind:
  assumes "leaves m" and "\<And>x. fails_leave (f x)"
  shows "fails_leave (vbind m f)"
  unfolding fails_leave_def
proof (intro allI impI)
  fix v w e v' w' assume "vbind m f v w = (Inl e, v', w')"
  then show "same_data v v'"
  proof (cases rule: vbind_cases)
    case (2 x v1 w1)
    with assms(2) [of x] have "same_data v1 v'" unfolding fails_leave_def by blast
    with leavesD [OF assms(1) 2(1)] show ?thesis by (rule same_data_trans)
  qed (use leavesD [OF assms(1)] in blast)
qed

lemma fails_leave_rewrite:
  "fails_leave (vbind (vlog (compact g k plain sld)) (\<lambda>_. vbind (vset f) (\<lambda>_. vret x)))"
  by (auto simp: fails_leave_def vbind_eq_Inl vlog_def vset_def compact_def Let_def same_data_def
      split: prod.splits sum.splits)

lemma rekey_fails_leave: "fails_leave (rekey cr c t n)"
  unfolding rekey_def Let_def
  by (intro fails_leave_bind leaves_intros fails_leave_rewrite)

section \<open>A vault with one secret\<close>

definition sample_sealed :: "aad \<Rightarrow> bytes \<Rightarrow> sealed" where
  "sample_sealed a m = \<lparr>sl_nonce = replicate 12 0,
     sl_ciphertext = m @ sample_tag (aad_bytes (secret_slot ''p1'' ''dev'' ''KEY'')) (aad_bytes a)\<rparr>"

definition sample_vault :: vault where
  "sample_vault = \<lparr>vt_log = \<lparr>lg_path = ''s.log'', lg_file = \<lparr>h_inode = 0, h_offset = 8\<rparr>, lg_count = 0,
       lg_broken = False, lg_repaired = False\<rparr>,
     vt_state = empty_state\<lparr>
       projects := [\<lparr>p_id = ''p1'', p_slug = ''app'', p_name = ''app'',
         p_data_key = sample_sealed (project_key_context ''p1'') (replicate 32 9), p_created_at = Timestamp 0\<rparr>],
       environments := [\<lparr>e_id = ''dev'', e_project_id = ''p1'', e_slug = ''dev'', e_name = ''dev'', e_created_at = Timestamp 0\<rparr>],
       secrets := [\<lparr>s_project_id = ''p1'', s_environment_id = ''dev'', s_key = ''KEY'',
         s_value = sample_sealed (secret_context ''p1'' ''dev'' ''KEY'') [1, 2, 3], s_updated_at = Timestamp 0\<rparr>]\<rparr>,
     vt_barrier = None, vt_root_key = Some sample_key, vt_pending = []\<rparr>"

definition sample_caller :: "token_kind \<Rightarrow> caller" where
  "sample_caller kind = \<lparr>ca_token_id = ''t1'', ca_kind = kind, ca_user_id = None,
     ca_project_id = Some ''p1'', ca_environment_id = Some ''dev''\<rparr>"

lemma sample_open [simp]:
  "aead_open sample_gcm k (envelope_of_sealed (sample_sealed a m)) a = Inr m"
  by (simp add: sample_sealed_def envelope_of_sealed_def aead_open_def sample_gcm_def sample_gcm_for_def nonce_len_def
      tag_len_def)

lemma sample_view: "secret_view sample_crypto sample_vault (''p1'', ''dev'', ''KEY'') = Some [1, 2, 3]"
  by (simp add: secret_view_def lookup_slot_def find_secret_def sample_vault_def at_slot_def open_secret_def empty_state_def
      project_data_key_def find_project_def unwrap_key_def sample_crypto_def key_from_bytes_def key_len_def)

lemma sample_resolve: "resolve ''app'' ''dev'' sample_vault = Inr (''p1'', ''dev'')"
  by (simp add: resolve_def project_by_slug_def environment_by_slug_def sample_vault_def empty_state_def)

lemma sample_initialised:
  obtains v w out v0 w1 rs where "\<not> is_sealed v" and "consistent sample_crypto v w" and "stored rs (vt_log v) w"
    and "able w" and "vault_init sample_crypto 2 3 v0 w1 = (Inr out, v, w)" and "consistent sample_crypto v0 w1"
    and "is_initialized v"
proof -
  obtain v0 w1 where o: "vault_open ''s.log'' sample_world = (Inr v0, w1)" "able w1" "stored [] (vt_log v0) w1"
    "vt_barrier v0 = None" by (rule sample_opened)
  have "succeeds (vault_init sample_crypto 2 3) v0 w1
      (\<lambda>out v' w'. able w' \<and> (\<exists>rs. stored rs (vt_log v') w') \<and> \<not> is_sealed v' \<and> is_initialized v')"
    by (rule vault_init_succeeds [OF _ _ o(4,3,2)]) simp_all
  then obtain out v w rs where i: "vault_init sample_crypto 2 3 v0 w1 = (Inr out, v, w)" "stored rs (vt_log v) w"
    "\<not> is_sealed v" "able w" "is_initialized v"
    by (auto simp: succeeds_def)
  have c0: "consistent sample_crypto v0 w1"
    by (rule new_vault_consistent [OF _ _ _ o(1)])
      (simp_all add: inodes_ok_def sample_world_def with_extension_def file_stem_def Let_def)
  then have "consistent sample_crypto v w"
    by (rule keepsD(1) [OF keeps_vault_init [OF sample_crypto_ok(1)] _ i(1)])
  with i c0 show thesis by (intro that) simp_all
qed

section \<open>Properties\<close>

text \<open>
  C3: The secrets are a map: setting a secret either fails and leaves the map of readable values as it
  was, or, for a caller allowed to write, changes exactly its own slot to the given value; deleting
  one either fails and changes nothing or empties exactly its slot. The one failure that comes after
  the change is that the audit record could not be stored.
\<close>

theorem writes_change_one_slot:
  assumes "gcm_ok (cr_gcm cr)" and "set_secret cr c p e raw val v w = (r, v1, w1)"
    and "delete_secret cr c' p' e' key' v w = (r', v2, w2)"
  shows "((\<exists>err. r = Inl err \<and> secret_view cr v1 = secret_view cr v) \<or>
      (\<exists>ids key. valid_secret_key raw = Inr key \<and> resolve p e v = Inr ids \<and>
         authorise c WriteSecrets (fst ids) (snd ids) = Inr () \<and>
         secret_view cr v1 = (secret_view cr v)((fst ids, snd ids, key) \<mapsto> val) \<and>
         (r = Inr () \<or> (\<exists>s. r = Inl (VaultStore s))))) \<and>
    ((\<exists>err. r' = Inl err \<and> secret_view cr v2 = secret_view cr v) \<or>
      (\<exists>ids. resolve p' e' v = Inr ids \<and> authorise c' WriteSecrets (fst ids) (snd ids) = Inr () \<and>
         secret_view cr v2 = (secret_view cr v)((fst ids, snd ids, key') := None) \<and>
         (r' = Inr () \<or> (\<exists>s. r' = Inl (VaultStore s)))))"
proof
  from assms(1,2) show "(\<exists>err. r = Inl err \<and> secret_view cr v1 = secret_view cr v) \<or>
      (\<exists>ids key. valid_secret_key raw = Inr key \<and> resolve p e v = Inr ids \<and>
         authorise c WriteSecrets (fst ids) (snd ids) = Inr () \<and>
         secret_view cr v1 = (secret_view cr v)((fst ids, snd ids, key) \<mapsto> val) \<and>
         (r = Inr () \<or> (\<exists>s. r = Inl (VaultStore s))))"
    by (cases rule: set_secret_effect) (blast dest: secret_view_same_data)+
next
  from assms(3) show "(\<exists>err. r' = Inl err \<and> secret_view cr v2 = secret_view cr v) \<or>
      (\<exists>ids. resolve p' e' v = Inr ids \<and> authorise c' WriteSecrets (fst ids) (snd ids) = Inr () \<and>
         secret_view cr v2 = (secret_view cr v)((fst ids, snd ids, key') := None) \<and>
         (r' = Inr () \<or> (\<exists>s. r' = Inl (VaultStore s))))"
    by (cases rule: delete_secret_effect) (blast dest: secret_view_same_data)+
qed

theorem writes_change_one_slot_witness:
  "\<exists>r v1 w1. set_secret sample_crypto (sample_caller SessionToken) ''app'' ''dev'' ''KEY'' [7] sample_vault sample_world = (r, v1, w1) \<and>
     (secret_view sample_crypto v1 = secret_view sample_crypto sample_vault \<or>
      (\<exists>ids key. secret_view sample_crypto v1 = (secret_view sample_crypto sample_vault)((fst ids, snd ids, key) \<mapsto> [7])))"
proof -
  let ?c = "sample_caller SessionToken"
  obtain r v1 w1 where set: "set_secret sample_crypto ?c ''app'' ''dev'' ''KEY'' [7] sample_vault sample_world = (r, v1, w1)"
    by (metis prod_cases3)
  obtain r' v2 w2 where "delete_secret sample_crypto ?c ''app'' ''dev'' ''KEY'' sample_vault sample_world = (r', v2, w2)"
    by (metis prod_cases3)
  from conjunct1 [OF writes_change_one_slot [OF sample_crypto_ok(2) set this]] set show ?thesis by blast
qed

text \<open>
  C4: Reading and listing return the map. A read that returns a value returns the value of the slot the
  names resolve to, in an environment the caller may read, and one who may read a slot that holds a value
  gets it unless recording the read fails. A listing holds exactly the values of the environment,
  each key once and in ascending order, and one who may list an environment whose values all open gets it
  unless recording fails. Neither changes a secret, a token or a key. (The state is the replay of some
  events, as every state the vault holds is.)
\<close>

theorem reads_return_the_slot:
  assumes "vt_state v = replay es"
    and "get_secret cr c p e key v w = (r, v', w')" and "list_secrets cr c p e v w = (rl, vl, wl)"
  shows "(\<forall>val. r = Inr val \<longrightarrow> (\<exists>ids. resolve p e v = Inr ids \<and> authorise c ReadSecrets (fst ids) (snd ids) = Inr () \<and>
       secret_view cr v (fst ids, snd ids, key) = Some val)) \<and>
     (\<forall>ids val. \<not> is_sealed v \<and> resolve p e v = Inr ids \<and> authorise c ReadSecrets (fst ids) (snd ids) = Inr () \<and>
       secret_view cr v (fst ids, snd ids, key) = Some val \<longrightarrow> r = Inr val \<or> (\<exists>s. r = Inl (VaultStore s))) \<and>
     vt_state v' = vt_state v \<and> vt_root_key v' = vt_root_key v \<and>
     (\<forall>out. rl = Inr out \<longrightarrow> (\<exists>ids. resolve p e v = Inr ids \<and> authorise c ReadSecrets (fst ids) (snd ids) = Inr () \<and>
       sorted_wrt (<) (map fst out) \<and>
       (\<forall>k val. (k, val) \<in> set out \<longleftrightarrow> secret_view cr v (fst ids, snd ids, k) = Some val))) \<and>
     (\<forall>ids dk. \<not> is_sealed v \<and> resolve p e v = Inr ids \<and> authorise c ReadSecrets (fst ids) (snd ids) = Inr () \<and>
       project_data_key cr (fst ids) v = Inr dk \<and>
       (\<forall>k. lookup_slot (fst ids, snd ids, k) (vt_state v) \<noteq> None \<longrightarrow> secret_view cr v (fst ids, snd ids, k) \<noteq> None) \<longrightarrow>
       (\<exists>out. rl = Inr out) \<or> (\<exists>s. rl = Inl (VaultStore s))) \<and>
     vt_state vl = vt_state v \<and> vt_root_key vl = vt_root_key v"
proof (intro conjI allI impI)
  note distinct = replay_slots_distinct [of es, folded assms(1)]
  { fix val assume "r = Inr val"
    from get_secret_Inr [OF assms(2) [unfolded this]] show "\<exists>ids. resolve p e v = Inr ids \<and>
        authorise c ReadSecrets (fst ids) (snd ids) = Inr () \<and> secret_view cr v (fst ids, snd ids, key) = Some val" by blast }
  { fix ids val assume "\<not> is_sealed v \<and> resolve p e v = Inr ids \<and> authorise c ReadSecrets (fst ids) (snd ids) = Inr () \<and>
         secret_view cr v (fst ids, snd ids, key) = Some val"
    with get_secret_complete [of v p e ids c cr key val w] assms(2)
    show "r = Inr val \<or> (\<exists>s. r = Inl (VaultStore s))" by simp }
  { fix out assume "rl = Inr out"
    from list_secrets_Inr [OF assms(3) [unfolded this] distinct] show "\<exists>ids. resolve p e v = Inr ids \<and>
        authorise c ReadSecrets (fst ids) (snd ids) = Inr () \<and> sorted_wrt (<) (map fst out) \<and>
        (\<forall>k val. (k, val) \<in> set out \<longleftrightarrow> secret_view cr v (fst ids, snd ids, k) = Some val)" by blast }
  { fix ids dk assume "\<not> is_sealed v \<and> resolve p e v = Inr ids \<and> authorise c ReadSecrets (fst ids) (snd ids) = Inr () \<and>
        project_data_key cr (fst ids) v = Inr dk \<and>
        (\<forall>k. lookup_slot (fst ids, snd ids, k) (vt_state v) \<noteq> None \<longrightarrow> secret_view cr v (fst ids, snd ids, k) \<noteq> None)"
    with list_secrets_complete [OF _ _ _ _ distinct, of p e ids c cr dk w] assms(3)
    show "(\<exists>out. rl = Inr out) \<or> (\<exists>s. rl = Inl (VaultStore s))" by auto }
qed (use leavesD [OF leaves_get_secret assms(2)] leavesD [OF leaves_list_secrets assms(3)] in \<open>simp_all add: same_data_def\<close>)

text \<open>The sample vault as the replay of three events.\<close>

lemma sample_replay:
  "vt_state sample_vault = replay
     [ProjectCreated ''p1'' ''app'' ''app'' (sample_sealed (project_key_context ''p1'') (replicate 32 9)) (Timestamp 0),
      EnvironmentCreated ''dev'' ''p1'' ''dev'' ''dev'' (Timestamp 0),
      SecretSet ''p1'' ''dev'' ''KEY'' (sample_sealed (secret_context ''p1'' ''dev'' ''KEY'') [1, 2, 3]) (Timestamp 0)]"
  by (simp add: replay_def sample_vault_def empty_state_def)

theorem reads_return_the_slot_witness:
  "\<exists>r rl. fst (get_secret sample_crypto (sample_caller MachineToken) ''app'' ''dev'' ''KEY'' sample_vault sample_world) = r \<and>
     (r = Inr [1, 2, 3] \<or> (\<exists>s. r = Inl (VaultStore s))) \<and>
     fst (list_secrets sample_crypto (sample_caller MachineToken) ''app'' ''dev'' sample_vault sample_world) = rl \<and>
     (\<forall>out. rl = Inr out \<longrightarrow> (''KEY'', [1, 2, 3]) \<in> set out)"
proof -
  let ?c = "sample_caller MachineToken"
  obtain r v' w' where run: "get_secret sample_crypto ?c ''app'' ''dev'' ''KEY'' sample_vault sample_world = (r, v', w')"
    by (metis prod_cases3)
  obtain rl vl wl where list: "list_secrets sample_crypto ?c ''app'' ''dev'' sample_vault sample_world = (rl, vl, wl)"
    by (metis prod_cases3)
  note claim = reads_return_the_slot [OF sample_replay run list]
  have "authorise ?c ReadSecrets ''p1'' ''dev'' = Inr ()"
    by (simp add: authorise_def require_def sample_caller_def granted_to_def)
  moreover have "\<not> is_sealed sample_vault" by (simp add: is_sealed_def sample_vault_def)
  ultimately have "r = Inr [1, 2, 3] \<or> (\<exists>s. r = Inl (VaultStore s))"
    using conjunct1 [OF conjunct2 [OF claim]] sample_view sample_resolve by simp
  moreover have "\<forall>out. rl = Inr out \<longrightarrow> (''KEY'', [1, 2, 3]) \<in> set out"
    using claim sample_view sample_resolve by fastforce
  ultimately show ?thesis using run list by simp
qed



end
