(* ===== verification/Vault_Access.thy ===== *)
theory Vault_Access
  imports Vault_Secrets
begin

text \<open>
  Who may do what: a sealed vault answers nobody, a machine token reads one environment and nothing
  else, the root token creates the first user and nothing else, and whatever is read is recorded.
\<close>

section \<open>Refusals\<close>

lemma require_cases: "require c cap = Inr () \<or> require c cap = Inl Forbidden"
  by (simp add: require_def)

lemma authorise_machine:
  "ca_kind c = MachineToken \<Longrightarrow> authorise c cap p e =
     (if cap = ReadSecrets \<and> ca_project_id c = Some p \<and> ca_environment_id c = Some e then Inr () else Inl Forbidden)"
  by (simp add: authorise_def require_def granted_to_def)

lemma authorise_root: "ca_kind c = RootToken \<Longrightarrow> cap \<noteq> Bootstrap \<Longrightarrow> authorise c cap p e = Inl Forbidden"
  by (simp add: authorise_def require_def granted_to_def)

text \<open>
  What every operation on secrets comes to when the names do not resolve, or the caller is not
  allowed: the refusal, or the failure to record it.
\<close>

definition refused_as :: "vault_error \<Rightarrow> (vault_error + 'a) \<Rightarrow> bool" where
  "refused_as e r \<longleftrightarrow> r = Inl e \<or> (\<exists>s. r = Inl (VaultStore s))"

lemma record_and_fail:
  assumes "vbind (record_audit cr c action target outcome) (\<lambda>_. vfail e) v w = (r, v', w')" and "\<not> is_sealed v"
  shows "refused_as e r \<and> same_data v v'"
proof -
  have "leaves (vbind (record_audit cr c action target outcome) (\<lambda>_. vfail e :: 'a vault_op))" by (intro leaves_intros)
  from leavesD [OF this assms(1)] have "same_data v v'" .
  moreover from assms(1) have "refused_as e r"
    by (cases rule: vbind_cases) (auto simp: refused_as_def dest: audit_error [OF _ assms(2)])
  ultimately show ?thesis by blast
qed

lemma checked_refusal:
  assumes "vbind (resolve_and_record cr c action p e target) (\<lambda>ids.
      vbind (authorise_or_record cr c cap action target ids) (f ids)) v w = (r, v', w')"
    and "\<not> is_sealed v" and "ca_kind c = MachineToken"
    and "\<And>ids. resolve p e v = Inr ids \<Longrightarrow> authorise c cap (fst ids) (snd ids) = Inl Forbidden"
  shows "refused_as Forbidden r \<and> same_data v v'"
proof (cases "resolve p e v")
  case (Inl err)
  then have "resolve_for c p e v = Inl Forbidden" using assms(3) by (simp add: resolve_for_def)
  with assms(1) have "\<exists>r0. vbind (record_audit cr c action target ''unknown'') (\<lambda>_. vfail Forbidden :: (str \<times> str) vault_op) v w = (r0, v', w') \<and>
      (refused_as Forbidden r0 \<longrightarrow> refused_as Forbidden r)"
    by (auto simp: vbind_def resolve_and_record_def vfail_def refused_as_def split: prod.splits sum.splits)
  with record_and_fail [OF _ assms(2)] show ?thesis by blast
next
  case (Inr ids)
  then have "resolve_for c p e v = Inr ids" by (simp add: resolve_for_def)
  with assms(1) assms(4) [OF Inr] have "\<exists>r0. vbind (record_audit cr c action target ''denied'') (\<lambda>_. vfail Forbidden :: unit vault_op) v w = (r0, v', w') \<and>
      (refused_as Forbidden r0 \<longrightarrow> refused_as Forbidden r)"
    by (auto simp: vbind_def resolve_and_record_def authorise_or_record_def vret_def vfail_def refused_as_def
        split: prod.splits sum.splits)
  with record_and_fail [OF _ assms(2)] show ?thesis by blast
qed

text \<open>Operations that need a capability the caller does not have end at once.\<close>

lemma vbind_unsealed: "\<not> is_sealed v \<Longrightarrow> vbind (vlook require_unsealed) f v w = f () v w"
  by (simp add: vbind_def vlook_def require_unsealed_def)

lemma no_session:
  assumes "ca_kind c \<noteq> SessionToken"
  shows "require c Administer = Inl Forbidden" and "authorise c WriteSecrets p e = Inl Forbidden"
  using assms by (cases "ca_kind c"; simp add: require_def granted_to_def authorise_def)+

lemma administer_refused:
  assumes "require c Administer = Inl Forbidden" and "\<not> is_sealed v"
  shows "create_project cr c slug name v w = (Inl Forbidden, v, w)"
    and "create_environment cr c p slug name v w = (Inl Forbidden, v, w)"
    and "issue_machine_token cr c p e label ttl v w = (Inl Forbidden, v, w)"
    and "rekey cr c t n v w = (Inl Forbidden, v, w)" and "audit_trail cr c v w = (Inl Forbidden, v, w)"
    and "seal_as c v w = (Inl Forbidden, v, w)"
    and "project_slugs c v = Inl Forbidden" and "environment_slugs c p v = Inl Forbidden"
    and "i \<noteq> ca_token_id c \<Longrightarrow> revoke_token cr c i v w = (Inl Forbidden, v, w)"
  using assms by (simp_all add: vbind_def vlook_def require_unsealed_def create_project_def create_environment_def
      issue_machine_token_def rekey_def audit_trail_def seal_as_def project_slugs_def environment_slugs_def revoke_token_def)

section \<open>Authentication\<close>

text \<open>A caller stands for a token of the state that is valid at that moment.\<close>

lemma authenticate_Some:
  "authenticate cr presented v w = (Some c, w') \<longleftrightarrow>
     \<not> is_sealed v \<and> presented \<noteq> [] \<and> (\<exists>tk t. token_by_hash (hash_bytes (hash_token (cr_sha cr) presented)) (vt_state v) = Some tk \<and>
       now w = (t, w') \<and> is_valid_at tk t \<and> \<not> (t_kind tk = RootToken \<and> users (vt_state v) \<noteq> []) \<and>
       c = \<lparr>ca_token_id = t_id tk, ca_kind = t_kind tk, ca_user_id = t_user_id tk,
             ca_project_id = t_project_id tk, ca_environment_id = t_environment_id tk\<rparr>)"
  by (auto simp: authenticate_def split: option.splits prod.splits)

lemma create_user_users:
  "create_user cr c email password v w = (Inr i, v', w') \<Longrightarrow> users (vt_state v') \<noteq> []"
  by (auto simp: create_user_def vbind_eq_Inr dest!: commit_effect simp: same_data_def)

section \<open>A user that can be created\<close>

lemma length_user_created_le:
  assumes "in_range t"
  shows "length (event_to_bytes (UserCreated i email h t)) \<le> 2000 + 6 * (length i + length email + length h)"
proof -
  have names: "weight (JString s) \<le> 122" if "length s \<le> 20" for s
    using that weight_text(2) [of s] by linarith
  note length_render_le
  also have "weight (event_to_value (UserCreated i email h t)) \<le> 2000 + 6 * (length i + length email + length h)"
    using weight_text(2) [of i] weight_text(2) [of email] weight_text(2) [of h] weight_time [OF assms]
      names [of "''type''"] names [of "''id''"] names [of "''email''"] names [of "''password_hash''"]
      names [of "''created_at''"] names [of "''user.created''"]
    by (simp add: event_to_value_def json_object_def del: weight.simps(1))
  finally show ?thesis by (simp add: event_to_bytes_def as_bytes_def)
qed

lemma sample_user:
  obtains v w i v1 w1 where "create_user sample_crypto (sample_caller RootToken) ''a@b.c'' ''correct horse'' v w = (Inr i, v1, w1)"
    and "tokens (vt_state v1) = []" and "vt_root_key v1 \<noteq> None"
proof -
  obtain v0 w where i: "\<not> is_sealed v0" "consistent sample_crypto v0 w" "able w"
    and "\<exists>rs. stored rs (vt_log v0) w" by (metis sample_initialised)
  then obtain rs k where st: "stored rs (vt_log v0) w" and k: "vt_root_key v0 = Some k" "key_ok k"
    by (auto simp: consistent_def history_def)
  let ?v = "v0\<lparr>vt_state := empty_state\<rparr>" and ?c = "sample_caller RootToken"
  have st': "stored rs (vt_log ?v) w" and k': "vt_root_key ?v = Some k" using st k by simp_all
  have email: "valid_email ''a@b.c'' = Inr ''a@b.c''" by code_simp
  have pw: "goes_on (hash_password (cr_argon2 sample_crypto) ''correct horse'') (\<lambda>h. h = ''$argon2id$'')"
    unfolding hash_password_def Let_def
    by (auto simp: sample_crypto_def is_continuation_def min_len_def max_len_def argon2_hasher_def liftR_def goes_on_def
        bindio_def mapE_def random_bytes_def random_fill_def able_def same_files_def fs_healthy_def split: option.split)
  have "succeeds (create_user sample_crypto ?c ''a@b.c'' ''correct horse'') ?v w
      (\<lambda>_ v' w'. tokens (vt_state v') = [] \<and> vt_root_key v' \<noteq> None)"
    unfolding create_user_def
    apply (rule succeeds_bind [OF step_look [where x = "()", OF _ i(3) st']])
     apply (use k' in \<open>simp add: require_unsealed_def is_sealed_def\<close>)
    apply (elim conjE, hypsubst)
    apply (rule succeeds_bind [OF step_look [where x = "()"]], simp add: require_def sample_caller_def granted_to_def, assumption, assumption)
    apply (elim conjE, hypsubst)
    apply (rule succeeds_bind [OF step_look [where x = "''a@b.c''", OF email]], assumption, assumption)
    apply (elim conjE, hypsubst)
    apply (rule succeeds_bind [OF step_look [where x = "()"]], simp add: user_by_email_def empty_state_def, assumption, assumption)
    apply (elim conjE, hypsubst)
    apply (rule succeeds_bind [OF step_io [OF goes_on_mapE [OF pw]]], assumption, assumption)
    apply (elim conjE, hypsubst)
    apply (rule succeeds_bind [OF step_io [OF goes_on_new_id]], assumption, assumption)
    apply (elim conjE, hypsubst)
    apply (rule succeeds_bind [OF step_now], assumption, assumption)
    apply (elim conjE, hypsubst)
    apply (rule succeeds_bind [OF succeeds_commit [OF sample_crypto_ok(2) k' k(2)]], assumption, assumption)
     apply (rule order_trans [OF length_user_created_le], assumption, simp)
    apply (rule succeeds_ret)
    apply (use k' in \<open>auto simp: empty_state_def\<close>)
    done
  then obtain id v1 w1 where "create_user sample_crypto ?c ''a@b.c'' ''correct horse'' ?v w = (Inr id, v1, w1)"
    "tokens (vt_state v1) = []" "vt_root_key v1 \<noteq> None" by (auto simp: succeeds_def)
  then show thesis by (rule that)
qed

section \<open>Properties\<close>

text \<open>
  C11: A sealed vault answers nobody: no presented token authenticates, and every operation and every
  listing of secrets, users, tokens, projects, environments and the audit trail, the check before a batch
  and rekeying are refused as sealed without touching anything (the audit trail as forbidden, when the
  caller may not read it anyway). What is left is initialising, unsealing and sealing again, which, for a
  caller who may, comes to the sealed vault; after sealing there is no key and no state in memory.
\<close>

theorem a_sealed_vault_answers_nobody:
  assumes "is_sealed v"
  shows "authenticate cr presented v w = (None, w) \<and>
    get_secret cr c p e key v w = (Inl VaultSealed, v, w) \<and> list_secrets cr c p e v w = (Inl VaultSealed, v, w) \<and>
    set_secret cr c p e key val v w = (Inl VaultSealed, v, w) \<and> delete_secret cr c p e key v w = (Inl VaultSealed, v, w) \<and>
    check_secret c p e key val v = Inl VaultSealed \<and>
    create_user cr c email password v w = (Inl VaultSealed, v, w) \<and> login cr email password ttl v w = (Inl VaultSealed, v, w) \<and>
    issue_machine_token cr c p e label ttl' v w = (Inl VaultSealed, v, w) \<and> revoke_token cr c i v w = (Inl VaultSealed, v, w) \<and>
    create_project cr c slug name v w = (Inl VaultSealed, v, w) \<and> create_environment cr c p slug name v w = (Inl VaultSealed, v, w) \<and>
    project_slugs c v = Inl VaultSealed \<and> environment_slugs c p v = Inl VaultSealed \<and>
    rekey cr c t n v w = (Inl VaultSealed, v, w) \<and>
    audit_trail cr c v w = (Inl (if ca_kind c = SessionToken then VaultSealed else Forbidden), v, w) \<and>
    seal_as c v w = (if ca_kind c = SessionToken then (Inr (), vault_seal v, w) else (Inl Forbidden, v, w)) \<and>
    is_sealed (vault_seal u) \<and> vt_state (vault_seal u) = empty_state \<and> vt_pending (vault_seal u) = []"
proof -
  have s: "require_unsealed v = Inl VaultSealed" "vt_root_key v = None"
    using assms by (simp_all add: require_unsealed_def is_sealed_def)
  have "authenticate cr presented v w = (None, w)" using assms by (simp add: authenticate_def)
  moreover have "audit_trail cr c v w = (Inl (if ca_kind c = SessionToken then VaultSealed else Forbidden), v, w)"
    "seal_as c v w = (if ca_kind c = SessionToken then (Inr (), vault_seal v, w) else (Inl Forbidden, v, w))"
    using s(2) by (cases "ca_kind c"; simp add: audit_trail_def seal_as_def vbind_def vlook_def vset_def require_def granted_to_def)+
  moreover have "is_sealed (vault_seal u)" by (simp add: is_sealed_def vault_seal_def)
  ultimately show ?thesis
    using s(1) by (simp add: vbind_def vlook_def get_secret_def list_secrets_def set_secret_def delete_secret_def create_user_def
        login_def issue_machine_token_def revoke_token_def create_project_def create_environment_def rekey_def vault_seal_def
        check_secret_def project_slugs_def environment_slugs_def)
qed

theorem a_sealed_vault_answers_nobody_witness:
  "get_secret sample_crypto (sample_caller SessionToken) ''app'' ''dev'' ''KEY'' (vault_seal sample_vault) sample_world =
     (Inl VaultSealed, vault_seal sample_vault, sample_world)"
proof -
  have "is_sealed (vault_seal sample_vault)" by (simp add: is_sealed_def vault_seal_def)
  from a_sealed_vault_answers_nobody [OF this] show ?thesis by blast
qed

text \<open>
  C9: A machine token reads its own environment and nothing else. Where the names resolve to the project
  and environment it was issued for, a read gives the value of the slot when it holds one, and a listing
  all values of the environment when all of them open, unless recording fails. Anywhere else the answer
  is the same refusal, whether or not the names exist, so it tells nothing about other environments.
\<close>

theorem machine_tokens_stay_in_their_environment:
  assumes "ca_kind c = MachineToken" and "\<not> is_sealed v" and "vt_state v = replay es"
    and "get_secret cr c p e key v w = (r, v', w')" and "list_secrets cr c p e v w = (rl, vl, wl)"
  shows "(\<forall>pid eid. resolve p e v = Inr (pid, eid) \<and> ca_project_id c = Some pid \<and> ca_environment_id c = Some eid \<longrightarrow>
      (\<forall>val. secret_view cr v (pid, eid, key) = Some val \<longrightarrow> r = Inr val \<or> (\<exists>s. r = Inl (VaultStore s))) \<and>
      (\<forall>dk. project_data_key cr pid v = Inr dk \<and>
         (\<forall>k. lookup_slot (pid, eid, k) (vt_state v) \<noteq> None \<longrightarrow> secret_view cr v (pid, eid, k) \<noteq> None) \<longrightarrow>
         (\<exists>out. rl = Inr out \<and> (\<forall>k val. (k, val) \<in> set out \<longleftrightarrow> secret_view cr v (pid, eid, k) = Some val)) \<or>
         (\<exists>s. rl = Inl (VaultStore s)))) \<and>
    (\<not> (\<exists>pid eid. resolve p e v = Inr (pid, eid) \<and> ca_project_id c = Some pid \<and> ca_environment_id c = Some eid) \<longrightarrow>
      (r = Inl Forbidden \<or> (\<exists>s. r = Inl (VaultStore s))) \<and> (rl = Inl Forbidden \<or> (\<exists>s. rl = Inl (VaultStore s))))"
proof (intro conjI allI impI)
  note distinct = replay_slots_distinct [of es, folded assms(3)]
  fix pid eid assume own: "resolve p e v = Inr (pid, eid) \<and> ca_project_id c = Some pid \<and> ca_environment_id c = Some eid"
  then have res: "resolve p e v = Inr (pid, eid)" and auth: "authorise c ReadSecrets pid eid = Inr ()"
    using assms(1) by (simp_all add: authorise_machine)
  { fix val assume "secret_view cr v (pid, eid, key) = Some val"
    with get_secret_complete [OF assms(2) res, of c cr key val w] auth assms(4)
    show "r = Inr val \<or> (\<exists>s. r = Inl (VaultStore s))" by simp }
  { fix dk assume "project_data_key cr pid v = Inr dk \<and>
        (\<forall>k. lookup_slot (pid, eid, k) (vt_state v) \<noteq> None \<longrightarrow> secret_view cr v (pid, eid, k) \<noteq> None)"
    with list_secrets_complete [OF assms(2) res _ _ distinct, of c cr dk w] auth assms(5)
    consider out where "rl = Inr out" | "\<exists>s. rl = Inl (VaultStore s)" by auto
    then show "(\<exists>out. rl = Inr out \<and> (\<forall>k val. (k, val) \<in> set out \<longleftrightarrow> secret_view cr v (pid, eid, k) = Some val)) \<or>
        (\<exists>s. rl = Inl (VaultStore s))"
    proof cases
      case 1
      with list_secrets_Inr [OF assms(5) [unfolded 1] distinct] res show ?thesis by auto
    qed simp }
next
  assume "\<not> (\<exists>pid eid. resolve p e v = Inr (pid, eid) \<and> ca_project_id c = Some pid \<and> ca_environment_id c = Some eid)"
  then have auth: "authorise c ReadSecrets (fst ids) (snd ids) = Inl Forbidden" if "resolve p e v = Inr ids" for ids
    using assms(1) that by (cases ids) (auto simp: authorise_machine)
  note checked = conjunct1 [OF checked_refusal [OF _ assms(2,1) auth]]
  show "r = Inl Forbidden \<or> (\<exists>s. r = Inl (VaultStore s))"
    using checked [OF assms(4) [unfolded get_secret_def Let_def vbind_unsealed [OF assms(2)]]] by (simp add: refused_as_def)
  show "rl = Inl Forbidden \<or> (\<exists>s. rl = Inl (VaultStore s))"
    using checked [OF assms(5) [unfolded list_secrets_def Let_def vbind_unsealed [OF assms(2)]]] by (simp add: refused_as_def)
qed

theorem machine_tokens_stay_in_their_environment_witness:
  "(\<exists>r. fst (get_secret sample_crypto (sample_caller MachineToken) ''app'' ''dev'' ''KEY'' sample_vault sample_world) = r \<and>
     (r = Inr [1, 2, 3] \<or> (\<exists>s. r = Inl (VaultStore s)))) \<and>
   (\<exists>r. fst (get_secret sample_crypto (sample_caller MachineToken) ''other'' ''dev'' ''KEY'' sample_vault sample_world) = r \<and>
     (r = Inl Forbidden \<or> (\<exists>s. r = Inl (VaultStore s))))"
proof -
  let ?c = "sample_caller MachineToken"
  have claim: "get_secret sample_crypto ?c p ''dev'' ''KEY'' sample_vault sample_world = (r, v', w') \<Longrightarrow>
      list_secrets sample_crypto ?c p ''dev'' sample_vault sample_world = (rl, vl, wl) \<Longrightarrow>
      (resolve p ''dev'' sample_vault = Inr (''p1'', ''dev'') \<longrightarrow> r = Inr [1, 2, 3] \<or> (\<exists>s. r = Inl (VaultStore s))) \<and>
      (\<not> (\<exists>ids. resolve p ''dev'' sample_vault = Inr ids) \<longrightarrow> r = Inl Forbidden \<or> (\<exists>s. r = Inl (VaultStore s)))"
    for p r v' w' rl vl wl
    using machine_tokens_stay_in_their_environment [of ?c sample_vault, OF _ _ sample_replay, of sample_crypto p "''dev''" "''KEY''"
        sample_world r v' w' rl vl wl] sample_view
    by (simp add: sample_caller_def is_sealed_def) (simp add: sample_vault_def)
  have "resolve ''other'' ''dev'' sample_vault = Inl (NotFound ''project'')"
    by (simp add: resolve_def project_by_slug_def sample_vault_def empty_state_def ok_or_def)
  with claim [of "''app''"] claim [of "''other''"] sample_resolve show ?thesis
    by (metis prod_cases3 fst_conv sum.distinct(1))
qed

text \<open>
  C10: Only sessions change anything: whatever a machine token or the root token asks for, no secret, user,
  token, project or environment changes, apart from the root token creating a user while there is
  none and a caller revoking its own token.
\<close>

theorem only_sessions_change_the_state:
  assumes "ca_kind c \<noteq> SessionToken" and "\<not> is_sealed v" and "gcm_ok (cr_gcm cr)"
    and "set_secret cr c p e key val v w = (r1, v1, w1)" and "delete_secret cr c p e key v w = (r2, v2, w2)"
  shows "(\<exists>err. r1 = Inl err) \<and> vt_state v1 = vt_state v \<and> (\<exists>err. r2 = Inl err) \<and> vt_state v2 = vt_state v \<and>
    create_project cr c slug name v w = (Inl Forbidden, v, w) \<and>
    create_environment cr c p slug name v w = (Inl Forbidden, v, w) \<and>
    issue_machine_token cr c p e label ttl v w = (Inl Forbidden, v, w) \<and>
    rekey cr c t n v w = (Inl Forbidden, v, w) \<and> audit_trail cr c v w = (Inl Forbidden, v, w) \<and>
    seal_as c v w = (Inl Forbidden, v, w) \<and>
    (i = ca_token_id c \<or> revoke_token cr c i v w = (Inl Forbidden, v, w)) \<and>
    (ca_kind c = RootToken \<or> create_user cr c email password v w = (Inl Forbidden, v, w))"
proof -
  note none = no_session [OF assms(1)]
  have "(\<exists>err. r1 = Inl err) \<and> vt_state v1 = vt_state v"
    using assms(3,4) by (cases rule: set_secret_effect) (auto simp: none same_data_def)
  moreover have "(\<exists>err. r2 = Inl err) \<and> vt_state v2 = vt_state v"
    using assms(5) by (cases rule: delete_secret_effect) (auto simp: none same_data_def)
  moreover have "ca_kind c = RootToken \<or> create_user cr c email password v w = (Inl Forbidden, v, w)"
    using assms(1,2) by (cases "ca_kind c")
      (simp_all add: create_user_def vbind_def vlook_def require_unsealed_def require_def granted_to_def)
  moreover have "i = ca_token_id c \<or> revoke_token cr c i v w = (Inl Forbidden, v, w)"
    using administer_refused(9) [OF none(1) assms(2)] by blast
  ultimately show ?thesis by (simp add: administer_refused [OF none(1) assms(2)])
qed

theorem only_sessions_change_the_state_witness:
  "rekey sample_crypto (sample_caller MachineToken) 1 1 sample_vault sample_world = (Inl Forbidden, sample_vault, sample_world)"
proof -
  let ?c = "sample_caller MachineToken"
  obtain r1 v1 w1 where 1: "set_secret sample_crypto ?c ''app'' ''dev'' ''KEY'' [1] sample_vault sample_world = (r1, v1, w1)"
    by (metis prod_cases3)
  obtain r2 v2 w2 where 2: "delete_secret sample_crypto ?c ''app'' ''dev'' ''KEY'' sample_vault sample_world = (r2, v2, w2)"
    by (metis prod_cases3)
  have "ca_kind ?c \<noteq> SessionToken" "\<not> is_sealed sample_vault"
    by (simp_all add: sample_caller_def is_sealed_def sample_vault_def)
  from only_sessions_change_the_state [OF this sample_crypto_ok(2) 1 2] show ?thesis by blast
qed

text \<open>
  C12: The root token is spent by the first user: it authenticates only while there is no user; once a
  user has been created no presented secret makes a root caller again, on that vault or on any later
  state of its log, and whoever authenticates does so by a token of the state that is valid then.
\<close>

theorem the_root_token_is_spent:
  assumes "create_user cr c email password v w = (Inr i, v1, w1)"
    and "vt_state v2 = fold apply_event es (vt_state v1)"
    and "authenticate cr presented v2 w2 = (Some c2, w3)"
  shows "ca_kind c2 \<noteq> RootToken \<and> (\<exists>tk t. token_by_hash (hash_bytes (hash_token (cr_sha cr) presented)) (vt_state v2) = Some tk \<and>
     now w2 = (t, w3) \<and> is_valid_at tk t \<and> ca_kind c2 = t_kind tk)"
proof -
  have "users st \<noteq> [] \<Longrightarrow> users (apply_event ev st) \<noteq> []" for ev st by (cases ev) auto
  then have "users (fold apply_event es (vt_state v1)) \<noteq> []"
    by (rule fold_apply_induct [where P = "\<lambda>st. users st \<noteq> []", OF create_user_users [OF assms(1)]])
  then have u: "users (vt_state v2) \<noteq> []" unfolding assms(2) .
  from assms(3) obtain tk t where "token_by_hash (hash_bytes (hash_token (cr_sha cr) presented)) (vt_state v2) = Some tk"
    "now w2 = (t, w3)" "is_valid_at tk t" "\<not> (t_kind tk = RootToken \<and> users (vt_state v2) \<noteq> [])" "ca_kind c2 = t_kind tk"
    unfolding authenticate_Some by force
  with u show ?thesis by simp
qed

theorem the_root_token_is_spent_witness:
  "\<exists>c2 v2 w3. authenticate sample_crypto ''x'' v2 sample_world = (Some c2, w3) \<and> users (vt_state v2) \<noteq> [] \<and>
     ca_kind c2 \<noteq> RootToken"
proof -
  obtain v w i v1 w1 where c: "create_user sample_crypto (sample_caller RootToken) ''a@b.c'' ''correct horse'' v w = (Inr i, v1, w1)"
    and t: "tokens (vt_state v1) = []" and k: "vt_root_key v1 \<noteq> None" by (rule sample_user)
  let ?h = "hash_bytes (hash_token (cr_sha sample_crypto) ''x'')"
  let ?e = "TokenIssued ''t1'' ?h SessionToken None None None None None (Timestamp 0)"
  let ?v2 = "v1\<lparr>vt_state := fold apply_event [?e] (vt_state v1)\<rparr>"
  obtain m w3 where m: "now sample_world = (m, w3)" by fastforce
  have "authenticate sample_crypto ''x'' ?v2 sample_world = (Some \<lparr>ca_token_id = ''t1'', ca_kind = SessionToken,
      ca_user_id = None, ca_project_id = None, ca_environment_id = None\<rparr>, w3)"
    using t k m by (simp add: authenticate_def is_sealed_def token_by_hash_def is_valid_at_def)
  moreover have "users (vt_state ?v2) \<noteq> []" using create_user_users [OF c] by simp
  ultimately show ?thesis
    using the_root_token_is_spent [OF c, of ?v2 "[?e]"] by fastforce
qed

end
