(* ===== verification/Vault_Audit.thy ===== *)
theory Vault_Audit
  imports Vault_Access
begin

text \<open>
  The audit trail: what is handed out or refused is recorded first, and the trail an administrator
  reads back is exactly what was recorded.
\<close>

section \<open>Recording\<close>

lemma record_audit_history:
  assumes "crypto_ok cr" and "caller_ok c" and "utf8_valid action" and "utf8_valid target" and "utf8_valid outcome"
    and "history cr v w es" and "record_audit cr c action target outcome v w = (r, v', w')"
  shows "case r of
      Inl _ \<Rightarrow> history cr v' w' es
    | Inr _ \<Rightarrow> \<not> lg_broken (vt_log v') \<and> (\<exists>at. history cr v' w' (es @ [Audited at (actor c) action target outcome]))"
proof -
  obtain at w1 where n: "now w = (at, w1)" by fastforce
  note files = now_same_files [OF n]
  from assms(7) n have run: "commit cr (Audited at (actor c) action target outcome) v w1 = (r, v', w')"
    by (simp add: record_audit_def vbind_def vnow_def)
  have h: "history cr v w1 es" using assms(6) history_same_files [of w w1 cr v] files by simp
  have "event_ok (Audited at (actor c) action target outcome)" using assms files by (simp add: actor_text)
  from crypto_gcm [OF assms(1)] this h run show ?thesis
    by (cases rule: commit_cases) auto
qed

text \<open>What has just been recorded is the last entry of the trail.\<close>

lemma recorded_last:
  assumes "record_audit cr c action target outcome v w = (Inr (), v', w')" and "history cr v w es"
    and "crypto_ok cr" and "caller_ok c" and "utf8_valid action" and "utf8_valid target" and "utf8_valid outcome"
    and "fs_healthy w'" and "require a Administer = Inr ()"
  shows "\<exists>at. fst (audit_trail cr a v' w') = Inr (List.map_filter audit_of es @
    [\<lparr>au_at = at, au_actor = actor c, au_action = action, au_target = target, au_outcome = outcome\<rparr>])"
proof -
  from record_audit_history [OF assms(3-7,2,1)] obtain at where "\<not> lg_broken (vt_log v')"
    "history cr v' w' (es @ [Audited at (actor c) action target outcome])" by auto
  from audit_trail_history [OF this(2,1) assms(8,9)] show ?thesis
    by (auto simp: map_filter_snoc)
qed

section \<open>Every way a read of a secret can end\<close>

lemma resolved_data_key:
  assumes "resolve p e v = Inr ids" and "project_data_key cr (fst ids) v = Inl err" and "\<not> is_sealed v"
  shows "err = VaultCrypto"
proof -
  from assms(1) obtain q where "project_by_slug p (vt_state v) = Some q" "fst ids = p_id q"
    by (auto simp: resolve_def)
  then have "find_project (fst ids) (vt_state v) \<noteq> None"
    by (auto simp: find_project_def find_None_iff dest: lookups_in_state)
  with assms(2,3) show ?thesis
    by (auto simp: project_data_key_def is_sealed_def map_err_def split: sum.splits)
qed

lemma record_then_fail:
  "vbind (record_audit cr c action target outcome) (\<lambda>_. vfail e) v w = (Inl err, v', w') \<Longrightarrow> \<not> is_sealed v \<Longrightarrow>
     (\<exists>s. err = VaultStore s) \<or> record_audit cr c action target outcome v w = (Inr (), v', w')"
  by (auto simp: vbind_eq_Inl dest: audit_error)

lemma get_secret_refused:
  assumes "get_secret cr c p e key v w = (Inl err, v', w')" and un: "\<not> is_sealed v"
  shows "(\<exists>s. err = VaultStore s) \<or> err = VaultCrypto \<or>
    (\<exists>outcome\<in>{''unknown'', ''denied'', ''missing''}.
       record_audit cr c ''secret.read'' (slot_target p e key) outcome v w = (Inr (), v', w'))"
proof (cases "resolve_for c p e v")
  case (Inl e0)
  with assms(1) have "vbind (record_audit cr c ''secret.read'' (slot_target p e key) ''unknown'')
      (\<lambda>_. vfail e0 :: (str \<times> str) vault_op) v w = (Inl err, v', w')"
    unfolding get_secret_def Let_def vbind_unsealed [OF un]
    by (cases "record_audit cr c ''secret.read'' (slot_target p e key) ''unknown'' v w")
      (auto simp: vbind_def resolve_and_record_def vfail_def split: sum.splits)
  from record_then_fail [OF this un] show ?thesis by blast
next
  case (Inr ids)
  then have ids: "resolve p e v = Inr ids" by (auto simp: resolve_for_def split: sum.splits if_splits)
  show ?thesis
  proof (cases "authorise c ReadSecrets (fst ids) (snd ids)")
    case (Inl e0)
    with assms(1) Inr have "vbind (record_audit cr c ''secret.read'' (slot_target p e key) ''denied'')
        (\<lambda>_. vfail e0 :: unit vault_op) v w = (Inl err, v', w')"
      unfolding get_secret_def Let_def vbind_unsealed [OF un]
      by (cases "record_audit cr c ''secret.read'' (slot_target p e key) ''denied'' v w")
        (auto simp: vbind_def resolve_and_record_def authorise_or_record_def vret_def vfail_def split: sum.splits)
    from record_then_fail [OF this un] show ?thesis by blast
  next
    case auth: (Inr u)
    show ?thesis
    proof (cases "find_secret (fst ids) (snd ids) key (vt_state v)")
      case None
      with assms(1) Inr auth have "vbind (record_audit cr c ''secret.read'' (slot_target p e key) ''missing'')
          (\<lambda>_. vfail (NotFound ''secret'') :: bytes vault_op) v w = (Inl err, v', w')"
        unfolding get_secret_def Let_def vbind_unsealed [OF un]
        by (simp add: vbind_def resolve_and_record_def authorise_or_record_def vret_def vlook_def)
      from record_then_fail [OF this un] show ?thesis by blast
    next
      case (Some sec)
      with assms(1) Inr auth have "(\<exists>e0. project_data_key cr (fst ids) v = Inl e0 \<and> err = e0) \<or> err = VaultCrypto \<or>
          record_audit cr c ''secret.read'' (slot_target p e key) ''ok'' v w = (Inl err, v', w')"
        unfolding get_secret_def Let_def vbind_unsealed [OF un]
        by (auto simp: vbind_def resolve_and_record_def authorise_or_record_def vret_def vlook_def map_err_def
            split: sum.splits prod.splits)
      with resolved_data_key [OF ids _ un] audit_error [OF _ un] show ?thesis by blast
    qed
  qed
qed

text \<open>A working disk goes on working.\<close>

definition stays_healthy :: "'a vault_op \<Rightarrow> bool" where
  "stays_healthy m \<longleftrightarrow> (\<forall>v w r v' w'. m v w = (r, v', w') \<longrightarrow> fs_healthy w \<longrightarrow> fs_healthy w')"

lemma stays_healthyD: "stays_healthy m \<Longrightarrow> m v w = (r, v', w') \<Longrightarrow> fs_healthy w \<Longrightarrow> fs_healthy w'"
  unfolding stays_healthy_def by blast

lemma stays_healthy_bind:
  assumes "stays_healthy m" and "\<And>x. stays_healthy (f x)"
  shows "stays_healthy (vbind m f)"
  unfolding stays_healthy_def
proof (intro allI impI)
  fix v w r v' w' assume "vbind m f v w = (r, v', w')" "fs_healthy w"
  then show "fs_healthy w'"
    by (cases rule: vbind_cases) (use assms in \<open>auto dest: stays_healthyD\<close>)
qed

lemma commit_stays_healthy: "stays_healthy (commit cr ev)"
  by (auto simp: stays_healthy_def commit_def dest: log_append_stays_healthy split: option.splits prod.splits sum.splits)

lemma stays_healthy_steps: "stays_healthy (vlook g)" "stays_healthy (vret x)" "stays_healthy (vfail e)" "stays_healthy vnow"
  by (auto simp: stays_healthy_def vlook_def vret_def vfail_def vnow_def now_def read_clock_def fs_healthy_def split: prod.splits)

lemma record_audit_stays_healthy: "stays_healthy (record_audit cr c action target outcome)"
  unfolding record_audit_def by (intro stays_healthy_bind stays_healthy_steps commit_stays_healthy)

lemmas healthy_intros = stays_healthy_bind stays_healthy_steps record_audit_stays_healthy

lemma checks_stay_healthy:
  "stays_healthy (resolve_and_record cr c action p e target)"
  "stays_healthy (authorise_or_record cr c cap action target ids)"
proof -
  have fin: "stays_healthy (vbind (record_audit cr c action target outcome) (\<lambda>_. vfail err))" for outcome err
    by (intro healthy_intros)
  show "stays_healthy (resolve_and_record cr c action p e target)"
    "stays_healthy (authorise_or_record cr c cap action target ids)"
    unfolding stays_healthy_def resolve_and_record_def authorise_or_record_def
    by (auto simp: vret_def split: sum.splits dest: stays_healthyD [OF fin])
qed

lemma get_secret_stays_healthy: "stays_healthy (get_secret cr c p e key)"
  unfolding get_secret_def Let_def
  by (intro healthy_intros checks_stay_healthy) (auto split: option.split intro!: healthy_intros)

lemma list_secrets_stays_healthy: "stays_healthy (list_secrets cr c p e)"
  unfolding list_secrets_def Let_def by (intro healthy_intros checks_stay_healthy)

section \<open>Properties\<close>

text \<open>
  C8: Nothing is disclosed without a record: when a read or a listing hands out values, its own entry
  (who, what, \<open>ok\<close>) is already the last one of the audit trail that any administrator reads back from
  the file; and a read that is refused or misses leaves an entry saying so, unless storing it failed
  or a stored value does not decrypt.
\<close>

theorem every_disclosure_is_recorded:
  assumes "crypto_ok cr" and "caller_ok c" and "utf8_valid p" and "utf8_valid e" and "utf8_valid key"
    and "history cr v w es" and "\<not> is_sealed v" and "require a Administer = Inr ()" and "slots_distinct (vt_state v)"
    and "get_secret cr c p e key v w = (r, v1, w1)" and "fs_healthy w1"
    and "list_secrets cr c p e v w = (rl, v2, w2)" and "fs_healthy w2"
  shows "(\<forall>val. r = Inr val \<longrightarrow> (\<exists>at. fst (audit_trail cr a v1 w1) = Inr (List.map_filter audit_of es @
        [\<lparr>au_at = at, au_actor = actor c, au_action = ''secret.read'', au_target = slot_target p e key, au_outcome = ''ok''\<rparr>]))) \<and>
     (\<forall>vals. rl = Inr vals \<longrightarrow> (\<exists>at. fst (audit_trail cr a v2 w2) = Inr (List.map_filter audit_of es @
        [\<lparr>au_at = at, au_actor = actor c, au_action = ''secret.list'', au_target = p @ ''/'' @ e, au_outcome = ''ok''\<rparr>]))) \<and>
     (\<forall>err. r = Inl err \<longrightarrow> (\<exists>s. err = VaultStore s) \<or> err = VaultCrypto \<or>
        (\<exists>at. \<exists>outcome\<in>{''unknown'', ''denied'', ''missing''}. fst (audit_trail cr a v1 w1) = Inr (List.map_filter audit_of es @
          [\<lparr>au_at = at, au_actor = actor c, au_action = ''secret.read'', au_target = slot_target p e key, au_outcome = outcome\<rparr>])))"
proof (intro conjI allI impI)
  note last = recorded_last [OF _ assms(6,1,2) _ _ _ _ assms(8)]
  have texts: "utf8_valid (slot_target p e key)" "utf8_valid (p @ ''/'' @ e)"
    using assms(3-5) by (simp_all add: slot_target_text)
  {
    fix val assume "r = Inr val"
    with get_secret_Inr assms(10) have "record_audit cr c ''secret.read'' (slot_target p e key) ''ok'' v w = (Inr (), v1, w1)"
      by blast
    from last [OF this _ texts(1) _ assms(11)] show "\<exists>at. fst (audit_trail cr a v1 w1) = Inr (List.map_filter audit_of es @
        [\<lparr>au_at = at, au_actor = actor c, au_action = ''secret.read'', au_target = slot_target p e key, au_outcome = ''ok''\<rparr>])"
      by simp
  next
    fix vals assume "rl = Inr vals"
    with list_secrets_Inr [OF _ assms(9)] assms(12)
    have "record_audit cr c ''secret.list'' (p @ ''/'' @ e) ''ok'' v w = (Inr (), v2, w2)" by blast
    from last [OF this _ texts(2) _ assms(13)] show "\<exists>at. fst (audit_trail cr a v2 w2) = Inr (List.map_filter audit_of es @
        [\<lparr>au_at = at, au_actor = actor c, au_action = ''secret.list'', au_target = p @ ''/'' @ e, au_outcome = ''ok''\<rparr>])"
      by simp
  next
    fix err assume "r = Inl err"
    with get_secret_refused [OF _ assms(7)] assms(10) have "(\<exists>s. err = VaultStore s) \<or> err = VaultCrypto \<or>
        (\<exists>outcome\<in>{''unknown'', ''denied'', ''missing''}.
          record_audit cr c ''secret.read'' (slot_target p e key) outcome v w = (Inr (), v1, w1))" by blast
    moreover have "\<exists>at. fst (audit_trail cr a v1 w1) = Inr (List.map_filter audit_of es @
        [\<lparr>au_at = at, au_actor = actor c, au_action = ''secret.read'', au_target = slot_target p e key, au_outcome = outcome\<rparr>])"
      if "outcome \<in> {''unknown'', ''denied'', ''missing''}"
        "record_audit cr c ''secret.read'' (slot_target p e key) outcome v w = (Inr (), v1, w1)" for outcome
      using last [OF that(2) _ texts(1) _ assms(11)] that(1) by auto
    ultimately show "(\<exists>s. err = VaultStore s) \<or> err = VaultCrypto \<or>
        (\<exists>at. \<exists>outcome\<in>{''unknown'', ''denied'', ''missing''}. fst (audit_trail cr a v1 w1) = Inr (List.map_filter audit_of es @
          [\<lparr>au_at = at, au_actor = actor c, au_action = ''secret.read'', au_target = slot_target p e key, au_outcome = outcome\<rparr>]))"
      by blast
  }
qed

theorem every_disclosure_is_recorded_witness:
  "\<exists>v w es r v1 w1. get_secret sample_crypto (sample_caller SessionToken) ''app'' ''dev'' ''KEY'' v w = (r, v1, w1) \<and>
     history sample_crypto v w es \<and>
     (case r of
        Inr val \<Rightarrow> \<exists>at. fst (audit_trail sample_crypto (sample_caller SessionToken) v1 w1) = Inr (List.map_filter audit_of es @
          [\<lparr>au_at = at, au_actor = actor (sample_caller SessionToken), au_action = ''secret.read'',
            au_target = slot_target ''app'' ''dev'' ''KEY'', au_outcome = ''ok''\<rparr>])
      | Inl err \<Rightarrow> (\<exists>s. err = VaultStore s) \<or> err = VaultCrypto \<or>
        (\<exists>at. \<exists>outcome\<in>{''unknown'', ''denied'', ''missing''}.
          fst (audit_trail sample_crypto (sample_caller SessionToken) v1 w1) = Inr (List.map_filter audit_of es @
            [\<lparr>au_at = at, au_actor = actor (sample_caller SessionToken), au_action = ''secret.read'',
              au_target = slot_target ''app'' ''dev'' ''KEY'', au_outcome = outcome\<rparr>])))"
proof -
  let ?c = "sample_caller SessionToken"
  obtain v w where i: "\<not> is_sealed v" "consistent sample_crypto v w" "able w" by (metis sample_initialised)
  then obtain es where h: "history sample_crypto v w es" by (auto simp: consistent_def)
  have "slots_distinct (vt_state v)" using h replay_slots_distinct by (auto simp: history_def)
  obtain r v1 w1 where run: "get_secret sample_crypto ?c ''app'' ''dev'' ''KEY'' v w = (r, v1, w1)" by (metis prod_cases3)
  obtain rl v2 w2 where run': "list_secrets sample_crypto ?c ''app'' ''dev'' v w = (rl, v2, w2)" by (metis prod_cases3)
  have hw: "fs_healthy w1" "fs_healthy w2"
    using stays_healthyD [OF get_secret_stays_healthy run] stays_healthyD [OF list_secrets_stays_healthy run'] i(3)
    by (simp_all add: able_def)
  have "utf8_valid ''t1''" by code_simp
  then have c: "caller_ok ?c" by (simp add: caller_ok_def sample_caller_def opt_ok_def)
  have a: "require (sample_caller SessionToken) Administer = Inr ()" by (simp add: require_def sample_caller_def granted_to_def)
  have t: "utf8_valid ''app''" "utf8_valid ''dev''" "utf8_valid ''KEY''" by code_simp+
  note all = every_disclosure_is_recorded [OF sample_crypto_ok(1) c t h i(1) a \<open>slots_distinct (vt_state v)\<close> run hw(1) run' hw(2)]
  have "case r of Inr val \<Rightarrow> \<exists>at. fst (audit_trail sample_crypto ?c v1 w1) = Inr (List.map_filter audit_of es @
          [\<lparr>au_at = at, au_actor = actor ?c, au_action = ''secret.read'',
            au_target = slot_target ''app'' ''dev'' ''KEY'', au_outcome = ''ok''\<rparr>])
      | Inl err \<Rightarrow> (\<exists>s. err = VaultStore s) \<or> err = VaultCrypto \<or>
        (\<exists>at. \<exists>outcome\<in>{''unknown'', ''denied'', ''missing''}.
          fst (audit_trail sample_crypto ?c v1 w1) = Inr (List.map_filter audit_of es @
            [\<lparr>au_at = at, au_actor = actor ?c, au_action = ''secret.read'',
              au_target = slot_target ''app'' ''dev'' ''KEY'', au_outcome = outcome\<rparr>]))"
    using conjunct1 [OF all] conjunct2 [OF conjunct2 [OF all]] by (cases r) (simp only: sum.case sum.inject simp_thms)+
  with run h show ?thesis by blast
qed

end
