(* ===== verification/Http_Request.thy ===== *)
theory Http_Request
  imports LS_Prelude
begin

text \<open>
  Reading one HTTP/1.1 request: \<open>ls-http/src/lib.rs\<close> (limits and errors) and
  \<open>ls-http/src/request.rs\<close>.

  A connection is what its buffered reader will answer: the bytes it holds, the answers further
  reads of the socket will give (some bytes, an interruption, a failure, and the end of the stream
  when no answer is left), and the time that will have passed at each look at the clock.
\<close>

section \<open>Limits and errors\<close>

record limits =
  max_head :: nat
  max_headers :: nat
  max_body :: nat
  head_deadline :: nat

definition default_limits :: limits where
  "default_limits = \<lparr>max_head = 8 * 1024, max_headers = 64, max_body = 1024 * 1024,
     head_deadline = 10 * 1000000000\<rparr>"

datatype http_error =
    Incomplete
  | TimedOut
  | Malformed str
  | UnsupportedVersion str
  | AmbiguousLength
  | AmbiguousHost
  | UnsupportedTransferEncoding
  | IncompleteBody
  | BodyTooLarge nat nat
  | HeadTooLarge
  | TooManyHeaders
  | HttpIo

definition show_http_error :: "http_error \<Rightarrow> str" where
  "show_http_error e = (case e of
     Incomplete \<Rightarrow> ''request ended early''
   | TimedOut \<Rightarrow> ''request took too long to arrive''
   | Malformed what \<Rightarrow> ''malformed request: '' @ what
   | UnsupportedVersion v \<Rightarrow> ''unsupported HTTP version '' @ v
   | AmbiguousLength \<Rightarrow> ''more than one Content-Length''
   | AmbiguousHost \<Rightarrow> ''more than one Host''
   | UnsupportedTransferEncoding \<Rightarrow> ''Transfer-Encoding is not supported''
   | IncompleteBody \<Rightarrow> ''body shorter than its declared length''
   | BodyTooLarge n m \<Rightarrow> ''body of '' @ show_nat n @ '' bytes exceeds the limit of '' @ show_nat m
   | HeadTooLarge \<Rightarrow> ''request head too large''
   | TooManyHeaders \<Rightarrow> ''too many headers''
   | HttpIo \<Rightarrow> ''connection failed: '')"

definition error_status :: "http_error \<Rightarrow> nat" where
  "error_status e = (case e of
     BodyTooLarge _ _ \<Rightarrow> 413
   | HeadTooLarge \<Rightarrow> 431
   | TooManyHeaders \<Rightarrow> 431
   | UnsupportedVersion _ \<Rightarrow> 505
   | UnsupportedTransferEncoding \<Rightarrow> 501
   | TimedOut \<Rightarrow> 408
   | _ \<Rightarrow> 400)"

section \<open>The connection\<close>

datatype arrival = Chunk bytes | Interruption | Failure

datatype read_error = ReadInterrupted | ReadFailed

record conn =
  buffered :: bytes
  arrivals :: "arrival list"
  elapsed :: "nat \<Rightarrow> nat"
  asks :: nat

text \<open>\<open>started.elapsed() > limits.head_deadline\<close>.\<close>

definition past_deadline :: "limits \<Rightarrow> conn \<Rightarrow> bool \<times> conn" where
  "past_deadline l c = (elapsed c (asks c) > head_deadline l, c\<lparr>asks := Suc (asks c)\<rparr>)"

text \<open>\<open>BufRead::fill_buf\<close>, \<open>BufRead::consume\<close> and \<open>Read::read\<close> into a buffer of \<open>n\<close> bytes.\<close>

definition fill_buf :: "conn \<Rightarrow> (read_error + bytes) \<times> conn" where
  "fill_buf c =
     (if buffered c \<noteq> [] then (Inr (buffered c), c)
      else (case arrivals c of
          [] \<Rightarrow> (Inr [], c)
        | Chunk bs # as \<Rightarrow> (Inr bs, c\<lparr>buffered := bs, arrivals := as\<rparr>)
        | Interruption # as \<Rightarrow> (Inl ReadInterrupted, c\<lparr>arrivals := as\<rparr>)
        | Failure # as \<Rightarrow> (Inl ReadFailed, c\<lparr>arrivals := as\<rparr>)))"

definition consume :: "nat \<Rightarrow> conn \<Rightarrow> conn" where
  "consume n c = c\<lparr>buffered := drop n (buffered c)\<rparr>"

definition conn_read :: "nat \<Rightarrow> conn \<Rightarrow> (read_error + bytes) \<times> conn" where
  "conn_read n c = (case fill_buf c of
     (Inl e, c1) \<Rightarrow> (Inl e, c1)
   | (Inr available, c1) \<Rightarrow> (Inr (take n available), consume n c1))"

text \<open>What the connection still has to give, as a measure of the loops that read it.\<close>

fun arrival_size :: "arrival \<Rightarrow> nat" where
  "arrival_size (Chunk bs) = Suc (length bs)"
| "arrival_size _ = 1"

definition left :: "conn \<Rightarrow> nat" where
  "left c = length (buffered c) + sum_list (map arrival_size (arrivals c))"

lemma fill_buf_left:
  "fill_buf c = (Inl e, c') \<Longrightarrow> left c' < left c"
  "fill_buf c = (Inr bs, c') \<Longrightarrow> left c' \<le> left c"
  by (auto simp: fill_buf_def left_def split: if_splits list.splits arrival.splits)

lemma fill_buf_buffered: "fill_buf c = (Inr bs, c') \<Longrightarrow> buffered c' = bs"
  by (auto simp: fill_buf_def split: if_splits list.splits arrival.splits)

lemma left_simps [simp]:
  "left (c\<lparr>asks := n\<rparr>) = left c"
  "left (consume n c) = left c - min n (length (buffered c))"
  by (auto simp: left_def consume_def min_def)

lemma length_buffered_left: "length (buffered c) \<le> left c"
  by (simp add: left_def)

section \<open>The head\<close>

definition terminator :: bytes where
  "terminator = [13, 10, 13, 10]"

text \<open>\<open>windows(n).position(|window| window == pattern)\<close>.\<close>

fun window_at :: "'a list \<Rightarrow> 'a list \<Rightarrow> nat option" where
  "window_at pattern [] = (if pattern = [] then Some 0 else None)"
| "window_at pattern (x # xs) =
     (if take (length pattern) (x # xs) = pattern then Some 0 else map_option Suc (window_at pattern xs))"

function read_head_loop :: "limits \<Rightarrow> bytes \<Rightarrow> conn \<Rightarrow> (http_error + bytes) \<times> conn" where
  "read_head_loop l head c =
     (case past_deadline l c of (late, c0) \<Rightarrow>
      if late then (Inl TimedOut, c0)
      else (case fill_buf c0 of
          (Inl ReadInterrupted, c1) \<Rightarrow> read_head_loop l head c1
        | (Inl ReadFailed, c1) \<Rightarrow> (Inl TimedOut, c1)
        | (Inr available, c1) \<Rightarrow>
            if available = []
            then (Inl (if head = [] then Incomplete else Malformed ''head ended without a blank line''), c1)
            else
              let overlap = min (length head) (length terminator - 1);
                  search_from = length head - overlap;
                  taken = min (length available) (max_head l - length head);
                  head1 = head @ take taken available
              in (case map_option (\<lambda>at. search_from + at + length terminator) (window_at terminator (drop search_from head1)) of
                    Some stop \<Rightarrow> (Inr (take stop head1), consume (stop - search_from - overlap) c1)
                  | None \<Rightarrow>
                      if length head1 \<ge> max_head l then (Inl HeadTooLarge, consume taken c1)
                      else read_head_loop l head1 (consume taken c1))))"
  by pat_completeness auto
termination
proof (relation "measure (\<lambda>(l, head, c). left c)", goal_cases)
  case 1
  show ?case by simp
next
  case (2 l head c late c0 r c1)
  then have "fill_buf (c\<lparr>asks := Suc (asks c)\<rparr>) = (Inl ReadInterrupted, c1)" by (simp add: past_deadline_def)
  from fill_buf_left(1) [OF this] show ?case by simp
next
  case (3 l head c late c0 r c1 available overlap search_from taken head1)
  from 3 have "fill_buf (c\<lparr>asks := Suc (asks c)\<rparr>) = (Inr available, c1)" by (simp add: past_deadline_def)
  from fill_buf_left(2) [OF this] fill_buf_buffered [OF this]
  have "left c1 \<le> left c" "buffered c1 = available" by simp_all
  moreover have "0 < taken" using 3 by (auto simp: min_def)
  moreover have "0 < length available" using 3 by simp
  moreover have "length available \<le> left c1" using length_buffered_left [of c1] \<open>buffered c1 = available\<close> by simp
  ultimately show ?case by (cases available) (auto simp: min_def)
qed

declare read_head_loop.simps [simp del]

definition read_head :: "limits \<Rightarrow> conn \<Rightarrow> (http_error + bytes) \<times> conn" where
  "read_head l c = read_head_loop l [] c"

section \<open>The body\<close>

function read_body_loop :: "limits \<Rightarrow> nat \<Rightarrow> bytes \<Rightarrow> conn \<Rightarrow> (http_error + bytes) \<times> conn" where
  "read_body_loop l declared body c =
     (if length body < declared
      then (case past_deadline l c of (late, c0) \<Rightarrow>
        if late then (Inl TimedOut, c0)
        else (case conn_read (declared - length body) c0 of
            (Inl _, c1) \<Rightarrow> (Inl IncompleteBody, c1)
          | (Inr bs, c1) \<Rightarrow>
              if bs = [] then (Inl IncompleteBody, c1) else read_body_loop l declared (body @ bs) c1))
      else (Inr body, c))"
  by pat_completeness auto
termination
proof (relation "measure (\<lambda>(l, declared, body, c). declared - length body)", goal_cases)
  case 1
  show ?case by simp
next
  case (2 l declared body c late c0 r c1 bs)
  then have "0 < length bs" "length body < declared" by simp_all
  then show ?case by (simp only: in_measure prod.case length_append)
qed

declare read_body_loop.simps [simp del]

definition read_body :: "limits \<Rightarrow> nat \<Rightarrow> conn \<Rightarrow> (http_error + bytes) \<times> conn" where
  "read_body l declared c = read_body_loop l declared [] c"

section \<open>Lines\<close>

text \<open>
  The line still carries what stood before the newline it was split at: it must end in a carriage
  return, or be empty.
\<close>

definition strip_cr :: "bytes \<Rightarrow> http_error + bytes" where
  "strip_cr line =
     (if line = [] then Inr line
      else if last line = 13 then Inr (butlast line)
      else Inl (Malformed ''line does not end with CRLF''))"

definition is_token_byte :: "char \<Rightarrow> bool" where
  "is_token_byte c \<longleftrightarrow> is_ascii_alphanumeric c \<or> c \<in> set (''!#$%&'' @ [CHR 0x27] @ ''*+-.^_'' @ [CHR 0x60] @ ''|~'')"

definition starts_with :: "str \<Rightarrow> str \<Rightarrow> bool" where
  "starts_with p s \<longleftrightarrow> strip_prefix p s \<noteq> None"

definition parse_request_line :: "bytes \<Rightarrow> http_error + str \<times> str" where
  "parse_request_line line =
     and_then (ok_or (Malformed ''request line'') (from_utf8 line)) (\<lambda>text.
       case split_on (CHR '' '') text of
         [method] \<Rightarrow> Inl (Malformed ''missing target'')
       | [method, target] \<Rightarrow> Inl (Malformed ''missing version'')
       | [method, target, version] \<Rightarrow>
           if method = [] \<or> \<not> list_all is_token_byte method then Inl (Malformed ''method'')
           else if \<not> starts_with ''/'' target then Inl (Malformed ''target must be an absolute path'')
           else if version = ''HTTP/1.1'' \<or> version = ''HTTP/1.0'' then Inr (method, target)
           else if starts_with ''HTTP/'' version then Inl (UnsupportedVersion version)
           else Inl (Malformed ''version'')
       | _ \<Rightarrow> Inl (Malformed ''extra words in request line''))"

definition is_blank :: "str \<Rightarrow> bool" where
  "is_blank ch \<longleftrightarrow> ch = '' '' \<or> ch = [CHR 0x09]"

definition parse_header :: "bytes \<Rightarrow> http_error + str \<times> str" where
  "parse_header line =
     (if line \<noteq> [] \<and> (hd line = 32 \<or> hd line = 9) then Inl (Malformed ''folded header line'')
      else
        and_then (ok_or (Malformed ''header encoding'') (from_utf8 line)) (\<lambda>text.
        and_then (ok_or (Malformed ''header without a colon'') (split_once (CHR '':'') text)) (\<lambda>(name, rest).
          if name = [] \<or> \<not> list_all is_token_byte name then Inl (Malformed ''header name'')
          else
            let val = trim_matches is_blank rest in
            if list_ex (\<lambda>c. code c < 0x20 \<and> c \<noteq> CHR 0x09) val
            then Inl (Malformed ''control character in header value'')
            else Inr (to_ascii_lowercase name, val))))"

definition usize_max :: nat where
  "usize_max = 2 ^ 64 - 1"

definition parse_content_length :: "str \<Rightarrow> http_error + nat" where
  "parse_content_length val =
     (if val = [] \<or> \<not> list_all is_ascii_digit val then Inl (Malformed ''Content-Length'')
      else ok_or (Malformed ''Content-Length'') (parse_unsigned usize_max val))"

section \<open>The target\<close>

definition hex_value :: "byte \<Rightarrow> byte option" where
  "hex_value b =
     (if 48 \<le> b \<and> b \<le> 57 then Some (b - 48)
      else if 97 \<le> b \<and> b \<le> 102 then Some (b - 97 + 10)
      else if 65 \<le> b \<and> b \<le> 70 then Some (b - 65 + 10)
      else None)"

fun percent_decode_loop :: "bool \<Rightarrow> bytes \<Rightarrow> http_error + bytes" where
  "percent_decode_loop pl [] = Inr []"
| "percent_decode_loop pl (b # bs) =
     (if b = 37
      then (case bs of
          h # l # rest \<Rightarrow>
            and_then (ok_or (Malformed ''percent escape'') (hex_value h)) (\<lambda>high.
            and_then (ok_or (Malformed ''percent escape'') (hex_value l)) (\<lambda>low.
            and_then (percent_decode_loop pl rest) (\<lambda>out. Inr ((push_bit 4 high OR low) # out))))
        | _ \<Rightarrow> Inl (Malformed ''truncated percent escape''))
      else and_then (percent_decode_loop pl bs) (\<lambda>out. Inr ((if b = 43 \<and> pl then 32 else b) # out)))"

definition percent_decode :: "str \<Rightarrow> bool \<Rightarrow> http_error + str" where
  "percent_decode input plus_is_space =
     and_then (percent_decode_loop plus_is_space (as_bytes input)) (\<lambda>out.
       if 0 \<in> set out then Inl (Malformed ''null byte in target'')
       else ok_or (Malformed ''target is not valid UTF-8'') (from_utf8 out))"

definition split_target :: "str \<Rightarrow> http_error + str \<times> (str \<times> str) list" where
  "split_target target =
     (let (raw_path, raw_query) = (case split_once (CHR ''?'') target of
          Some (path, query) \<Rightarrow> (path, Some query)
        | None \<Rightarrow> (target, None))
      in and_then (percent_decode raw_path False) (\<lambda>path.
         and_then (case raw_query of
             None \<Rightarrow> Inr []
           | Some raw \<Rightarrow> traverse (\<lambda>pair.
               let (key, val) = (case split_once (CHR ''='') pair of Some kv \<Rightarrow> kv | None \<Rightarrow> (pair, [])) in
               and_then (percent_decode key True) (\<lambda>key. and_then (percent_decode val True) (\<lambda>val. Inr (key, val))))
               (filter (\<lambda>p. p \<noteq> []) (split_on (CHR ''&'') raw))) (\<lambda>query.
           Inr (path, query))))"

section \<open>A request\<close>

record request =
  rq_method :: str
  rq_path :: str
  rq_query :: "(str \<times> str) list"
  rq_headers :: "(str \<times> str) list"
  rq_body :: bytes

text \<open>
  The loop over the header lines: the headers so far, the declared length and whether a host was
  seen, until the blank line or the last line.
\<close>

fun header_lines ::
  "limits \<Rightarrow> (str \<times> str) list \<Rightarrow> nat option \<Rightarrow> bool \<Rightarrow> bytes list \<Rightarrow>
   http_error + (str \<times> str) list \<times> nat option" where
  "header_lines l headers len seen_host [] = Inr (headers, len)"
| "header_lines l headers len seen_host (raw # lines) =
     and_then (strip_cr raw) (\<lambda>line.
       if line = [] then Inr (headers, len)
       else if length headers = max_headers l then Inl TooManyHeaders
       else and_then (parse_header line) (\<lambda>(name, val).
         if name = ''host'' \<and> seen_host then Inl AmbiguousHost
         else if name = ''transfer-encoding'' then Inl UnsupportedTransferEncoding
         else if name = ''content-length'' then
           if len \<noteq> None then Inl AmbiguousLength
           else and_then (parse_content_length val) (\<lambda>n.
             header_lines l (headers @ [(name, val)]) (Some n) (seen_host \<or> name = ''host'') lines)
         else header_lines l (headers @ [(name, val)]) len (seen_host \<or> name = ''host'') lines))"

definition parse_head ::
  "limits \<Rightarrow> bytes \<Rightarrow> http_error + str \<times> str \<times> (str \<times> str) list \<times> (str \<times> str) list \<times> nat option" where
  "parse_head l head =
     (case split_on 10 head of
        [] \<Rightarrow> Inl Incomplete
      | first # lines \<Rightarrow>
          and_then (and_then (strip_cr first) parse_request_line) (\<lambda>(method, target).
          and_then (header_lines l [] None False lines) (\<lambda>(headers, len).
          and_then (split_target target) (\<lambda>(path, query).
            Inr (method, path, query, headers, len)))))"

definition request_read :: "limits \<Rightarrow> conn \<Rightarrow> (http_error + request) \<times> conn" where
  "request_read l c =
     (case read_head l c of
        (Inl e, c1) \<Rightarrow> (Inl e, c1)
      | (Inr head, c1) \<Rightarrow>
          (case parse_head l head of
             Inl e \<Rightarrow> (Inl e, c1)
           | Inr (method, path, query, headers, len) \<Rightarrow>
               (let (body, c2) =
                  (case len of
                     None \<Rightarrow> (Inr [], c1)
                   | Some n \<Rightarrow>
                       if n = 0 then (Inr [], c1)
                       else if n > max_body l then (Inl (BodyTooLarge n (max_body l)), c1)
                       else read_body l n c1)
                in (and_then body (\<lambda>bs.
                      Inr \<lparr>rq_method = method, rq_path = path, rq_query = query, rq_headers = headers, rq_body = bs\<rparr>), c2))))"

text \<open>\<open>Request::header\<close>, \<open>Request::query\<close> and \<open>Request::body_text\<close>.\<close>

definition field_named :: "str \<Rightarrow> (str \<times> str) list \<Rightarrow> str option" where
  "field_named name kvs = map_option snd (List.find (\<lambda>(k, _). k = name) kvs)"

definition request_header :: "str \<Rightarrow> request \<Rightarrow> str option" where
  "request_header name rq = field_named (to_ascii_lowercase name) (rq_headers rq)"

definition request_query :: "str \<Rightarrow> request \<Rightarrow> str option" where
  "request_query name rq = field_named name (rq_query rq)"

definition body_text :: "request \<Rightarrow> str option" where
  "body_text rq = from_utf8 (rq_body rq)"

end
