(* ===== verification/Http_Framing.thy ===== *)
theory Http_Framing
  imports Http_Request "HOL-Library.Code_Target_Nat"
begin

text \<open>
  What a request is made of does not depend on how its bytes arrived: reading from a connection
  that delivers them in pieces of any size is the same as cutting the flat sequence of bytes at the
  first blank line and at the declared length.
\<close>

section \<open>Searching for the blank line\<close>

lemma window_at_Some:
  assumes "p \<noteq> []"
  shows "window_at p xs = Some i \<longleftrightarrow> take (length p) (drop i xs) = p \<and> (\<forall>j<i. take (length p) (drop j xs) \<noteq> p)"
proof (induction xs arbitrary: i)
  case Nil
  show ?case using assms by auto
next
  case (Cons x xs)
  show ?case
    by (cases i) (use Cons in \<open>auto simp: All_less_Suc2\<close>)
qed

lemma window_at_None:
  assumes "p \<noteq> []"
  shows "window_at p xs = None \<longleftrightarrow> (\<forall>j. take (length p) (drop j xs) \<noteq> p)"
proof (induction xs)
  case Nil
  show ?case using assms by auto
next
  case (Cons x xs)
  have "(\<forall>j. take (length p) (drop j (x # xs)) \<noteq> p) \<longleftrightarrow>
      take (length p) (x # xs) \<noteq> p \<and> (\<forall>j. take (length p) (drop j xs) \<noteq> p)"
    by (metis drop0 drop_Suc_Cons nat.exhaust)
  with Cons show ?case by auto
qed

lemma window_at_bound: "window_at p xs = Some i \<Longrightarrow> p \<noteq> [] \<Longrightarrow> i + length p \<le> length xs"
proof -
  assume a: "window_at p xs = Some i" "p \<noteq> []"
  then have "length (take (length p) (drop i xs)) = length p" by (simp add: window_at_Some)
  then show ?thesis using a(2) by (cases "i \<le> length xs") auto
qed

lemma window_within: "j + n \<le> length xs \<Longrightarrow> take n (drop j (xs @ ys)) = take n (drop j xs)"
  by simp

lemma window_at_append:
  assumes "window_at p xs = Some i" and "p \<noteq> []"
  shows "window_at p (xs @ ys) = Some i"
proof -
  have same: "take (length p) (drop j (xs @ ys)) = take (length p) (drop j xs)" if "j \<le> i" for j
    by (rule window_within) (use window_at_bound [OF assms] that in simp)
  with assms show ?thesis by (metis window_at_Some less_imp_le order_refl)
qed

text \<open>Looking back over the last bytes of what was searched before finds what a fresh search finds.\<close>

lemma window_at_overlap:
  assumes "window_at p xs = None" and "p \<noteq> []" and "k + (length p - 1) \<le> length xs"
  shows "window_at p (xs @ ys) = map_option ((+) k) (window_at p (drop k (xs @ ys)))"
proof -
  have early: "take (length p) (drop j (xs @ ys)) \<noteq> p" if "j < k" for j
  proof -
    have "j + length p \<le> length xs" using that assms(3) by simp
    from window_within [OF this, of ys] assms(1) window_at_None [OF assms(2), of xs] show ?thesis by metis
  qed
  show ?thesis
  proof (cases "window_at p (drop k (xs @ ys))")
    case None
    with window_at_None [OF assms(2)] have late: "take (length p) (drop (j - k) (drop k (xs @ ys))) \<noteq> p" for j by blast
    have "take (length p) (drop j (xs @ ys)) \<noteq> p" for j
      using early [of j] late [of j] by (cases "j < k") (simp_all del: drop_append take_append)
    then have "window_at p (xs @ ys) = None" using window_at_None [OF assms(2)] by blast
    with None show ?thesis by simp
  next
    case (Some i)
    with window_at_Some [OF assms(2)] have at: "take (length p) (drop i (drop k (xs @ ys))) = p"
      and late: "\<And>j. j - k < i \<Longrightarrow> take (length p) (drop (j - k) (drop k (xs @ ys))) \<noteq> p" by blast+
    have "take (length p) (drop j (xs @ ys)) \<noteq> p" if "j < k + i" for j
      using early [of j] late [of j] that by (cases "j < k") (simp_all del: drop_append take_append)
    moreover have "take (length p) (drop (k + i) (xs @ ys)) = p"
      using at by (simp add: add.commute del: drop_append take_append)
    ultimately have "window_at p (xs @ ys) = Some (k + i)" using window_at_Some [OF assms(2)] by blast
    with Some show ?thesis by simp
  qed
qed

section \<open>A connection without accidents\<close>

fun chunk_bytes :: "arrival \<Rightarrow> bytes" where
  "chunk_bytes (Chunk bs) = bs"
| "chunk_bytes _ = []"

definition stream :: "conn \<Rightarrow> bytes" where
  "stream c = buffered c @ concat (map chunk_bytes (arrivals c))"

definition smooth :: "limits \<Rightarrow> conn \<Rightarrow> bool" where
  "smooth l c \<longleftrightarrow> (\<forall>n. elapsed c n \<le> head_deadline l) \<and> (\<forall>a\<in>set (arrivals c). \<exists>b bs. a = Chunk (b # bs))"

lemma smooth_simps [simp]:
  "smooth l (c\<lparr>asks := n\<rparr>) = smooth l c" "stream (c\<lparr>asks := n\<rparr>) = stream c"
  "smooth l (consume n c) = smooth l c"
  "n \<le> length (buffered c) \<Longrightarrow> stream (consume n c) = drop n (stream c)"
  by (simp_all add: smooth_def stream_def consume_def)

lemma smooth_in_time: "smooth l c \<Longrightarrow> past_deadline l c = (False, c\<lparr>asks := Suc (asks c)\<rparr>)"
  by (simp add: past_deadline_def smooth_def not_less)

lemma fill_buf_smooth:
  assumes "smooth l c"
  obtains bs c' where "fill_buf c = (Inr bs, c')" and "smooth l c'" and "stream c' = stream c" and "buffered c' = bs"
    and "bs = [] \<longleftrightarrow> stream c = []"
proof (cases "buffered c = []")
  case True
  show thesis
  proof (cases "arrivals c")
    case Nil
    with True show thesis by (intro that [of "[]" c]) (auto simp: fill_buf_def stream_def assms)
  next
    case (Cons a as)
    with assms obtain b bs where "a = Chunk (b # bs)" by (auto simp: smooth_def)
    with True Cons assms show thesis
      by (intro that [of "b # bs" "c\<lparr>buffered := b # bs, arrivals := as\<rparr>"]) (auto simp: fill_buf_def stream_def smooth_def)
  qed
next
  case False
  then show thesis by (intro that [of "buffered c" c]) (auto simp: fill_buf_def stream_def assms)
qed

section \<open>The head, whatever the pieces\<close>

definition head_result :: "limits \<Rightarrow> bytes \<Rightarrow> (http_error + bytes) \<times> conn \<Rightarrow> bool" where
  "head_result l bs out \<longleftrightarrow>
     (case window_at terminator (take (max_head l) bs) of
        None \<Rightarrow> fst out = Inl (if bs = [] then Incomplete else if max_head l \<le> length bs then HeadTooLarge
          else Malformed ''head ended without a blank line'')
      | Some at \<Rightarrow> fst out = Inr (take (at + 4) bs) \<and> smooth l (snd out) \<and> stream (snd out) = drop (at + 4) bs)"

lemma terminator_simps [simp]: "terminator \<noteq> []" "length terminator = 4"
  by (simp_all add: terminator_def)

lemma read_head_loop_smooth:
  assumes "smooth l c" and "window_at terminator head = None" and "head = [] \<or> length head < max_head l"
  shows "head_result l (head @ stream c) (read_head_loop l head c)"
  using assms
proof (induction "left c" arbitrary: head c rule: less_induct)
  case less
  obtain avail c1 where f: "fill_buf (c\<lparr>asks := Suc (asks c)\<rparr>) = (Inr avail, c1)" "smooth l c1" "stream c1 = stream c"
    "buffered c1 = avail" "avail = [] \<longleftrightarrow> stream c = []"
    using fill_buf_smooth [of l "c\<lparr>asks := Suc (asks c)\<rparr>"] less.prems(1) by auto
  note run = read_head_loop.simps [of l head c, unfolded smooth_in_time [OF less.prems(1)] prod.case f(1) sum.case if_False]
  show ?case
  proof (cases "avail = []")
    case True
    with f less.prems show ?thesis
      by (subst run) (auto simp: head_result_def split: option.splits)
  next
    case False
    define taken where "taken = min (length avail) (max_head l - length head)"
    define head1 where "head1 = head @ take taken avail"
    define start where "start = length head - min (length head) 3"
    have start: "start + min (length head) 3 = length head" by (simp add: start_def)
    have "stream c1 = avail @ concat (map chunk_bytes (arrivals c1))" by (simp add: stream_def f(4))
    with f(3) obtain more where S: "stream c = avail @ more" by metis
    have pre: "take (max_head l) (head @ stream c) = head1 @ take (max_head l - length head1) (drop taken (stream c))"
      using less.prems(3) by (auto simp: head1_def taken_def S min_def)
    have found: "window_at terminator head1 = map_option ((+) start) (window_at terminator (drop start head1))"
      unfolding head1_def
    proof (cases "length head \<ge> 3")
      case True
      then show "window_at terminator (head @ take taken avail) =
          map_option ((+) start) (window_at terminator (drop start (head @ take taken avail)))"
        by (intro window_at_overlap less.prems(2)) (simp_all add: start_def)
    next
      case False
      then have "start = 0" by (simp add: start_def)
      moreover have "(+) (0::nat) = id" by (simp add: fun_eq_iff)
      ultimately show "window_at terminator (head @ take taken avail) =
          map_option ((+) start) (window_at terminator (drop start (head @ take taken avail)))"
        by (simp add: option.map_id)
    qed
    have run': "read_head_loop l head c = (case map_option (\<lambda>at. start + at + 4) (window_at terminator (drop start head1)) of
        Some stop \<Rightarrow> (Inr (take stop head1), consume (stop - start - min (length head) 3) c1)
      | None \<Rightarrow> if length head1 \<ge> max_head l then (Inl HeadTooLarge, consume taken c1)
               else read_head_loop l head1 (consume taken c1))"
    proof -
      have three: "(4 :: nat) - 1 = 3" by simp
      show ?thesis by (simp only: run Let_def False if_False head1_def taken_def start_def terminator_simps three)
    qed
    have taken: "taken \<le> length (buffered c1)" by (simp add: taken_def f(4))
    show ?thesis
    proof (cases "window_at terminator head1")
      case (Some p)
      with found obtain q where q: "window_at terminator (drop start head1) = Some q" "p = start + q"
        by (cases "window_at terminator (drop start head1)") auto
      from window_at_bound [OF Some] have p: "p + 4 \<le> length head1" by simp
      have "\<not> p + 4 \<le> length head"
        using less.prems(2) Some window_within [of p 4 head "take taken avail"]
        by (auto simp: window_at_None window_at_Some head1_def)
      then have stop: "start + q + 4 - start - min (length head) 3 = p + 4 - length head"
        "p + 4 - length head \<le> length (buffered c1)" "length head \<le> p + 4"
        using p start q(2) taken by (simp_all add: head1_def)
      from pre window_at_append [OF Some] have "window_at terminator (take (max_head l) (head @ stream c)) = Some p" by simp
      moreover have "take (p + 4) head1 = take (p + 4) (head @ stream c)"
        using p by (simp add: head1_def S)
      moreover have "drop (p + 4 - length head) (stream c) = drop (p + 4) (head @ stream c)"
        using stop(3) by simp
      ultimately show ?thesis
        using run' q stop f(2,3) by (simp add: head_result_def)
    next
      case None
      with found have q: "window_at terminator (drop start head1) = None" by simp
      show ?thesis
      proof (cases "max_head l \<le> length head1")
        case True
        have "stream c \<noteq> []" using False f(5) by simp
        moreover from True pre have "take (max_head l) (head @ stream c) = head1" by simp
        moreover have "max_head l \<le> length (head @ stream c)"
          using True by (simp add: head1_def S)
        ultimately show ?thesis using run' q True None by (simp add: head_result_def)
      next
        case small: False
        then have t: "taken = length avail" by (auto simp: head1_def taken_def)
        have "0 < length avail" "length avail \<le> left c1" "left c1 \<le> left c"
          using False length_buffered_left [of c1] fill_buf_left(2) [OF f(1)] by (simp_all add: f(4))
        then have "left (consume taken c1) < left c" by (simp only: left_simps t f(4) min.idem)
        from less.hyps [OF this, of head1] f(2) None small
        have "head_result l (head1 @ stream (consume taken c1)) (read_head_loop l head1 (consume taken c1))" by simp
        moreover have "head1 @ stream (consume taken c1) = head @ stream c"
          using taken f(3) by (simp add: head1_def t S)
        ultimately show ?thesis using run' q small by simp
      qed
    qed
  qed
qed

lemma read_head_smooth: "smooth l c \<Longrightarrow> head_result l (stream c) (read_head l c)"
  using read_head_loop_smooth [of l c "[]"] by (simp add: read_head_def)

section \<open>The body, whatever the pieces\<close>

lemma conn_read_smooth:
  assumes "smooth l c" and "0 < n"
  obtains bs c' where "conn_read n c = (Inr bs, c')" and "smooth l c'" and "length bs \<le> n"
    and "bs @ stream c' = stream c" and "bs = [] \<longleftrightarrow> stream c = []"
proof -
  obtain avail c1 where f: "fill_buf c = (Inr avail, c1)" "smooth l c1" "stream c1 = stream c" "buffered c1 = avail"
    "avail = [] \<longleftrightarrow> stream c = []" by (rule fill_buf_smooth [OF assms(1)])
  show thesis
  proof (rule that)
    show "conn_read n c = (Inr (take n avail), consume n c1)" by (simp add: conn_read_def f(1))
    show "take n avail @ stream (consume n c1) = stream c"
      using f(3,4) by (simp add: stream_def consume_def) (metis append.assoc append_take_drop_id)
  qed (use f assms(2) in simp_all)
qed

lemma read_body_loop_smooth:
  assumes "smooth l c" and "length body \<le> n"
  shows "if n \<le> length body + length (stream c)
    then fst (read_body_loop l n body c) = Inr (body @ take (n - length body) (stream c)) \<and>
      stream (snd (read_body_loop l n body c)) = drop (n - length body) (stream c)
    else fst (read_body_loop l n body c) = Inl IncompleteBody"
  using assms
proof (induction "n - length body" arbitrary: body c rule: less_induct)
  case less
  show ?case
  proof (cases "length body < n")
    case False
    with less.prems show ?thesis by (subst (1 2 3) read_body_loop.simps) simp
  next
    case True
    from less.prems(1) have "smooth l (c\<lparr>asks := Suc (asks c)\<rparr>)" by simp
    then obtain bs c1 where r: "conn_read (n - length body) (c\<lparr>asks := Suc (asks c)\<rparr>) = (Inr bs, c1)" "smooth l c1"
      "length bs \<le> n - length body" "bs @ stream c1 = stream c" "bs = [] \<longleftrightarrow> stream c = []"
      using conn_read_smooth [of l "c\<lparr>asks := Suc (asks c)\<rparr>" "n - length body"] True by (auto simp: smooth_simps(2))
    have run: "read_body_loop l n body c = (if bs = [] then (Inl IncompleteBody, c1) else read_body_loop l n (body @ bs) c1)"
      using True r(1) by (subst read_body_loop.simps) (simp add: smooth_in_time [OF less.prems(1)])
    show ?thesis
    proof (cases "bs = []")
      case True
      with run r(5) \<open>length body < n\<close> show ?thesis by simp
    next
      case False
      with True have "n - length (body @ bs) < n - length body" by (cases bs) auto
      from less.hyps [OF this r(2)] r(3) True run False r(4) [symmetric] show ?thesis by auto
    qed
  qed
qed

section \<open>The whole request as a function of the bytes\<close>

text \<open>
  The reference: the head is what stands before the first blank line within the limit, the body the
  declared number of bytes behind it, the rest is left alone.
\<close>

definition request_of :: "limits \<Rightarrow> bytes \<Rightarrow> http_error + request \<times> bytes" where
  "request_of l bs =
     (case window_at terminator (take (max_head l) bs) of
        None \<Rightarrow> Inl (if bs = [] then Incomplete else if max_head l \<le> length bs then HeadTooLarge
          else Malformed ''head ended without a blank line'')
      | Some at \<Rightarrow>
          and_then (parse_head l (take (at + 4) bs)) (\<lambda>(method, path, query, headers, len).
            let rest = drop (at + 4) bs; n = (case len of None \<Rightarrow> 0 | Some n \<Rightarrow> n) in
            if n > max_body l then Inl (BodyTooLarge n (max_body l))
            else if n > length rest then Inl IncompleteBody
            else Inr (\<lparr>rq_method = method, rq_path = path, rq_query = query, rq_headers = headers,
                   rq_body = take n rest\<rparr>, drop n rest)))"

lemma request_read_smooth:
  assumes "smooth l c"
  shows "case request_of l (stream c) of
      Inl e \<Rightarrow> fst (request_read l c) = Inl e
    | Inr (rq, rest) \<Rightarrow> fst (request_read l c) = Inr rq \<and> stream (snd (request_read l c)) = rest"
proof -
  note head = read_head_smooth [OF assms, unfolded head_result_def]
  show ?thesis
  proof (cases "window_at terminator (take (max_head l) (stream c))")
    case None
    with head show ?thesis
      by (cases "read_head l c") (simp add: request_of_def request_read_def)
  next
    case (Some at)
    with head obtain c1 where h: "read_head l c = (Inr (take (at + 4) (stream c)), c1)" "smooth l c1"
      "stream c1 = drop (at + 4) (stream c)" by (cases "read_head l c") auto
    show ?thesis
    proof (cases "parse_head l (take (at + 4) (stream c))")
      case (Inl e)
      with Some h show ?thesis by (simp add: request_of_def request_read_def)
    next
      case (Inr parts)
      obtain meth path query headers len where parts: "parts = (meth, path, query, headers, len)" by (metis prod_cases5)
      show ?thesis
        using Some h Inr parts read_body_loop_smooth [OF h(2), of "[]" "case len of None \<Rightarrow> 0 | Some n \<Rightarrow> n"]
        by (cases "read_body_loop l (the len) [] c1"; cases len)
          (auto simp: request_of_def request_read_def read_body_def Let_def not_less split: if_splits)
    qed
  qed
qed

section \<open>What an accepted request looks like\<close>

definition clean_field :: "str \<times> str \<Rightarrow> bool" where
  "clean_field kv \<longleftrightarrow> fst kv \<noteq> [] \<and> list_all is_token_byte (fst kv) \<and> to_ascii_lowercase (fst kv) = fst kv \<and>
     (\<forall>c\<in>set (snd kv). 32 \<le> code c \<or> c = CHR 0x09)"

definition count_named :: "str \<Rightarrow> (str \<times> str) list \<Rightarrow> nat" where
  "count_named name kvs = length (filter (\<lambda>kv. fst kv = name) kvs)"

lemma count_named_simps [simp]:
  "count_named name [] = 0"
  "count_named name (kvs @ [kv]) = count_named name kvs + (if fst kv = name then 1 else 0)"
  by (simp_all add: count_named_def)

lemma token_lowercase: "is_token_byte c \<Longrightarrow> is_token_byte (if is_ascii_uppercase c then char_of (code c + 32) else c)"
  by (auto simp: is_token_byte_def is_ascii_alphanumeric_def is_ascii_uppercase_def is_ascii_lowercase_def)

lemma lowercase_tokens: "list_all is_token_byte s \<Longrightarrow> list_all is_token_byte (to_ascii_lowercase s)"
  unfolding to_ascii_lowercase_def by (induction s) (simp_all add: token_lowercase)

lemma lowercase_idem: "to_ascii_lowercase (to_ascii_lowercase s) = to_ascii_lowercase s"
  by (auto simp: to_ascii_lowercase_def is_ascii_uppercase_def)

lemma parse_header_clean: "parse_header line = Inr kv \<Longrightarrow> clean_field kv"
  by (auto simp: parse_header_def clean_field_def lowercase_tokens lowercase_idem Let_def list_ex_iff not_less
      split: if_splits) (simp_all add: to_ascii_lowercase_def)

definition headers_ok :: "limits \<Rightarrow> (str \<times> str) list \<Rightarrow> nat option \<Rightarrow> bool \<Rightarrow> bool" where
  "headers_ok l headers len seen \<longleftrightarrow> length headers \<le> max_headers l \<and> list_all clean_field headers \<and>
     count_named ''transfer-encoding'' headers = 0 \<and> count_named ''host'' headers = (if seen then 1 else 0) \<and>
     (case len of None \<Rightarrow> count_named ''content-length'' headers = 0
      | Some n \<Rightarrow> count_named ''content-length'' headers = 1 \<and>
          (\<exists>val. (''content-length'', val) \<in> set headers \<and> parse_content_length val = Inr n))"

lemma headers_ok_step:
  assumes "headers_ok l headers len seen" and "Suc (length headers) \<le> max_headers l" and "clean_field (name, val)"
    and "name \<noteq> ''transfer-encoding''" and "\<not> (name = ''host'' \<and> seen)"
    and "if name = ''content-length'' then len = None \<and> len' = Some n \<and> parse_content_length val = Inr n else len' = len"
  shows "headers_ok l (headers @ [(name, val)]) len' (seen \<or> name = ''host'')"
proof (cases "name = ''content-length''")
  case True
  with assms show ?thesis by (auto simp: headers_ok_def)
next
  case False
  with assms show ?thesis by (auto simp: headers_ok_def split: option.splits)
qed

lemma header_lines_ok:
  assumes "headers_ok l headers len seen" and "header_lines l headers len seen lines = Inr (headers', len')"
  shows "\<exists>seen'. headers_ok l headers' len' seen'"
  using assms
proof (induction l headers len seen lines rule: header_lines.induct)
  case (1 l headers len seen)
  then show ?case by auto
next
  case (2 l headers len seen raw lines)
  from 2(4) obtain line where line: "strip_cr raw = Inr line" by auto
  show ?case
  proof (cases "line = []")
    case True
    with 2(3,4) line show ?thesis by auto
  next
    case False
    with 2(4) line have room: "length headers \<noteq> max_headers l" by (auto split: if_splits)
    with 2(4) line False obtain name val where kv: "parse_header line = Inr (name, val)" by (auto split: if_splits)
    from parse_header_clean [OF kv] have clean: "clean_field (name, val)" .
    have room': "Suc (length headers) \<le> max_headers l" using room 2(3) by (auto simp: headers_ok_def)
    from 2(4) line False room kv have ok: "\<not> (name = ''host'' \<and> seen)" "name \<noteq> ''transfer-encoding''"
      by (auto split: if_splits)
    note step = headers_ok_step [OF 2(3) room' clean ok(2,1)]
    show ?thesis
    proof (cases "name = ''content-length''")
      case True
      with 2(4) line False room kv ok obtain n where n: "len = None" "parse_content_length val = Inr n"
        "header_lines l (headers @ [(name, val)]) (Some n) (seen \<or> name = ''host'') lines = Inr (headers', len')"
        by (auto split: if_splits)
      with True step [of "Some n" n] 2(1) [OF False room ok(1,2) True] show ?thesis by simp
    next
      case other: False
      with 2(4) line False room kv ok have
        "header_lines l (headers @ [(name, val)]) len (seen \<or> name = ''host'') lines = Inr (headers', len')"
        by (auto split: if_splits)
      with other step [of len 0] 2(2) [OF False room ok(1,2) other] show ?thesis by simp
    qed
  qed
qed

lemma read_body_loop_length:
  "length body \<le> n \<Longrightarrow> read_body_loop l n body c = (Inr bs, c') \<Longrightarrow> length bs = n"
proof (induction l n body c rule: read_body_loop.induct)
  case (1 l n body c)
  have fits: "length bs' \<le> n - length body" if "conn_read (n - length body) c0 = (Inr bs', c1)" for bs' c0 c1
    using that by (auto simp: conn_read_def split: prod.splits sum.splits)
  note run = 1(3) [unfolded read_body_loop.simps [of l n body c]]
  show ?case
  proof (cases "length body < n")
    case False
    with run 1(2) show ?thesis by simp
  next
    case True
    from run True obtain bs1 c0 c1 where r: "conn_read (n - length body) c0 = (Inr bs1, c1)" "bs1 \<noteq> []"
      "past_deadline l c = (False, c0)" "read_body_loop l n (body @ bs1) c1 = (Inr bs, c')"
      by (auto split: if_splits prod.splits sum.splits)
    from 1(1) [OF True r(3) [symmetric] _ r(1) [symmetric] refl r(2) _ r(4)] fits [OF r(1)] True show ?thesis by simp
  qed
qed

lemma percent_decode_text: "percent_decode s pl = Inr t \<Longrightarrow> utf8_valid t \<and> CHR 0x00 \<notin> set t"
proof -
  assume "percent_decode s pl = Inr t"
  then obtain out where "from_utf8 out = Some t" "0 \<notin> set out"
    by (auto simp: percent_decode_def split: if_splits)
  moreover have "0 \<in> set (as_bytes t)" if "CHR 0x00 \<in> set t"
    using imageI [OF that, of "of_char :: char \<Rightarrow> byte"] by (simp add: as_bytes_def)
  ultimately show ?thesis by (auto simp: from_utf8_Some)
qed

lemma char_slash: "char_of (47 :: nat) = CHR ''/''"
  by code_simp

lemma starts_with_slash: "starts_with ''/'' s \<longleftrightarrow> (\<exists>t. s = CHR ''/'' # t)"
  by (cases s) (auto simp: starts_with_def)

lemma percent_decode_slash: "percent_decode (CHR ''/'' # s) pl = Inr t \<Longrightarrow> \<exists>u. t = CHR ''/'' # u"
  by (auto simp: percent_decode_def as_bytes_def Let_def from_utf8_def of_bytes_def char_slash split: if_splits)

lemma split_target_Inr:
  assumes "split_target (CHR ''/'' # s) = Inr (path, query)"
  shows "(\<exists>u. path = CHR ''/'' # u) \<and> utf8_valid path \<and> CHR 0x00 \<notin> set path"
  using assms percent_decode_text percent_decode_slash
  by (fastforce simp: split_target_def split: option.splits)

lemma parse_request_line_Inr:
  assumes "parse_request_line line = Inr (method, target)"
  shows "method \<noteq> [] \<and> list_all is_token_byte method \<and> (\<exists>s. target = CHR ''/'' # s)"
proof -
  from assms obtain s where t: "from_utf8 line = Some s"
    by (auto simp: parse_request_line_def)
  have shape: "words = [] \<or> (\<exists>a. words = [a]) \<or> (\<exists>a b. words = [a, b]) \<or> (\<exists>a b c. words = [a, b, c]) \<or>
      (\<exists>a b c d e. words = a # b # c # d # e)" for words :: "str list"
    by (metis list.exhaust)
  from shape [of "split_on (CHR '' '') s"] assms t show ?thesis
    by (elim disjE exE) (auto simp: parse_request_line_def starts_with_slash split: if_split_asm)
qed

lemma accepted_request:
  assumes "fst (request_read l c) = Inr rq"
  shows "count_named ''host'' (rq_headers rq) \<le> 1 \<and> count_named ''content-length'' (rq_headers rq) \<le> 1 \<and>
    count_named ''transfer-encoding'' (rq_headers rq) = 0 \<and> length (rq_headers rq) \<le> max_headers l \<and>
    list_all clean_field (rq_headers rq) \<and>
    (if count_named ''content-length'' (rq_headers rq) = 0 then rq_body rq = []
     else \<exists>val. (''content-length'', val) \<in> set (rq_headers rq) \<and> parse_content_length val = Inr (length (rq_body rq))) \<and>
    length (rq_body rq) \<le> max_body l \<and> rq_method rq \<noteq> [] \<and> list_all is_token_byte (rq_method rq) \<and>
    (\<exists>s. rq_path rq = CHR ''/'' # s) \<and> utf8_valid (rq_path rq) \<and> CHR 0x00 \<notin> set (rq_path rq)"
proof -
  from assms obtain head c1 where head: "read_head l c = (Inr head, c1)"
    by (auto simp: request_read_def split: prod.splits sum.splits)
  obtain first lines where split: "split_on 10 head = first # lines" by (cases "split_on 10 head") auto
  from assms head obtain meth path query headers len where
    parts: "parse_head l head = Inr (meth, path, query, headers, len)"
    by (cases "parse_head l head") (auto simp: request_read_def)
  then obtain line target where line: "parse_request_line line = Inr (meth, target)"
    and fields: "header_lines l [] None False lines = Inr (headers, len)" and target: "split_target target = Inr (path, query)"
    by (auto simp: parse_head_def split)
  from header_lines_ok [OF _ fields] obtain seen where ok: "headers_ok l headers len seen"
    by (auto simp: headers_ok_def)
  from assms head parts have rq: "rq_method rq = meth" "rq_path rq = path" "rq_headers rq = headers"
    and body: "(case len of None \<Rightarrow> rq_body rq = [] | Some n \<Rightarrow> length (rq_body rq) = n) \<and> length (rq_body rq) \<le> max_body l"
    using read_body_loop_length [of "[]" "the len" l c1]
    by (auto simp: request_read_def read_body_def Let_def split: option.splits if_splits prod.splits)
  from parse_request_line_Inr [OF line] split_target_Inr target have
    "meth \<noteq> []" "list_all is_token_byte meth" "(\<exists>s. path = CHR ''/'' # s) \<and> utf8_valid path \<and> CHR 0x00 \<notin> set path" by blast+
  with ok rq body show ?thesis by (auto simp: headers_ok_def split: option.splits)
qed

section \<open>Properties\<close>

text \<open>
  C31: The pieces do not matter: reading a request from a connection that delivers its bytes in time
  gives the request, or the error, that the reference computes from the flat sequence of bytes, and
  leaves exactly the bytes behind the declared body.
\<close>

theorem reading_ignores_pieces:
  assumes "smooth l c"
  shows "case request_of l (stream c) of
      Inl e \<Rightarrow> fst (request_read l c) = Inl e
    | Inr (rq, rest) \<Rightarrow> fst (request_read l c) = Inr rq \<and> stream (snd (request_read l c)) = rest"
  by (rule request_read_smooth [OF assms])

text \<open>
  C30: An accepted request says one thing: whatever the connection did, it has at most one host and
  one length, no transfer encoding and no more headers than allowed, its names are lowercase tokens
  and its values free of line breaks and other control characters, the body has exactly the
  declared length, which is within the limit, and the path is absolute text without a null byte.
\<close>

theorem accepted_requests_are_unambiguous:
  assumes "fst (request_read l c) = Inr rq"
  shows "count_named ''host'' (rq_headers rq) \<le> 1 \<and> count_named ''content-length'' (rq_headers rq) \<le> 1 \<and>
    count_named ''transfer-encoding'' (rq_headers rq) = 0 \<and> length (rq_headers rq) \<le> max_headers l \<and>
    list_all clean_field (rq_headers rq) \<and>
    (if count_named ''content-length'' (rq_headers rq) = 0 then rq_body rq = []
     else \<exists>val. (''content-length'', val) \<in> set (rq_headers rq) \<and> parse_content_length val = Inr (length (rq_body rq))) \<and>
    length (rq_body rq) \<le> max_body l \<and> rq_method rq \<noteq> [] \<and> list_all is_token_byte (rq_method rq) \<and>
    (\<exists>s. rq_path rq = CHR ''/'' # s) \<and> utf8_valid (rq_path rq) \<and> CHR 0x00 \<notin> set (rq_path rq)"
  by (rule accepted_request [OF assms])

text \<open>
  C39: Bare newlines: a request line that ends in a newline alone is refused; but an empty line that
  ends in one is taken for the end of the head, so the bytes between it and the real blank line,
  whatever headers they hold, are never looked at.
\<close>

theorem bare_newline_hides_headers:
  assumes "10 \<notin> set first" and "first \<noteq> []"
  shows "(last first \<noteq> 13 \<longrightarrow> (\<exists>what. parse_head l (first @ 10 # hidden) = Inl (Malformed what))) \<and>
    parse_head l (first @ 10 # 10 # hidden) = parse_head l (first @ [10, 13, 10])"
  using assms by (simp add: parse_head_def split_on_append strip_cr_def)

text \<open>A request in two pieces, cut inside the blank line, with one byte too many behind its body.\<close>

definition sample_conn :: conn where
  "sample_conn =
     (let crlf = [CHR 0x0D, CHR 0x0A];
          head = ''POST /a%20b?x=1+2 HTTP/1.1'' @ crlf @ ''Host: localhost'' @ crlf @ ''Content-Length: 2'' @ crlf
      in \<lparr>buffered = [], arrivals = [Chunk (as_bytes (head @ [CHR 0x0D])), Chunk (as_bytes (CHR 0x0A # ''hi!''))],
           elapsed = (\<lambda>n. n), asks = 0\<rparr>)"

definition sample_request :: request where
  "sample_request = \<lparr>rq_method = ''POST'', rq_path = ''/a b'', rq_query = [(''x'', ''1 2'')],
     rq_headers = [(''host'', ''localhost''), (''content-length'', ''2'')], rq_body = [104, 105]\<rparr>"

lemma sample_conn_reads:
  "request_of default_limits (stream sample_conn) = Inr (sample_request, [33])"
  by code_simp

theorem reading_ignores_pieces_witness:
  "fst (request_read default_limits (sample_conn\<lparr>elapsed := \<lambda>_. 5\<rparr>)) = Inr sample_request \<and>
     stream (snd (request_read default_limits (sample_conn\<lparr>elapsed := \<lambda>_. 5\<rparr>))) = [33]"
proof -
  have "smooth default_limits (sample_conn\<lparr>elapsed := \<lambda>_. 5\<rparr>)"
    by (auto simp: smooth_def sample_conn_def Let_def default_limits_def as_bytes_def)
  moreover have "stream (sample_conn\<lparr>elapsed := \<lambda>_. 5\<rparr>) = stream sample_conn" by (simp add: stream_def)
  ultimately show ?thesis using reading_ignores_pieces [of default_limits "sample_conn\<lparr>elapsed := \<lambda>_. 5\<rparr>"] sample_conn_reads
    by simp
qed

theorem accepted_requests_are_unambiguous_witness:
  "fst (request_read default_limits sample_conn) = Inr sample_request \<and> count_named ''host'' (rq_headers sample_request) \<le> 1 \<and>
     length (rq_body sample_request) \<le> max_body default_limits"
proof -
  have run: "fst (request_read default_limits sample_conn) = Inr sample_request" by code_simp
  from accepted_requests_are_unambiguous [OF this] run show ?thesis by blast
qed

theorem bare_newline_hides_headers_witness:
  "let crlf = [CHR 0x0D, CHR 0x0A]; hidden = ''Transfer-Encoding: chunked'' @ crlf @ crlf in
   parse_head default_limits (as_bytes (''GET / HTTP/1.1'' @ crlf @ CHR 0x0A # hidden)) = Inr (''GET'', ''/'', [], [], None)"
proof -
  let ?first = "as_bytes (''GET / HTTP/1.1'' @ [CHR 0x0D])" and ?hidden = "as_bytes (''Transfer-Encoding: chunked'' @ [CHR 0x0D, CHR 0x0A, CHR 0x0D, CHR 0x0A])"
  have "10 \<notin> set ?first" "?first \<noteq> []" by code_simp+
  from conjunct2 [OF bare_newline_hides_headers [OF this, of default_limits ?hidden]]
  have "parse_head default_limits (?first @ 10 # 10 # ?hidden) = parse_head default_limits (?first @ [10, 13, 10])" .
  moreover have "parse_head default_limits (?first @ [10, 13, 10]) = Inr (''GET'', ''/'', [], [], None)" by code_simp
  ultimately show ?thesis by (simp add: as_bytes_def Let_def)
qed

end
