(* ===== verification/Http_Response.thy ===== *)
theory Http_Response
  imports Http_Framing
begin

text \<open>
  Answers: building and writing a response (\<open>ls-http/src/response.rs\<close>), serving one connection
  (\<open>ls-http/src/server.rs\<close>), and the client that sends a request and reads the answer
  (\<open>ls-http/src/client.rs\<close>). A writer is the bytes it is given; the queue and the worker
  threads around \<open>serve_connection\<close> are the theory \<open>Worker_Pool\<close>.
\<close>

section \<open>Responses\<close>

record response =
  rs_status :: nat
  rs_headers :: "(str \<times> str) list"
  rs_body :: bytes

definition is_safe_field :: "str \<Rightarrow> bool" where
  "is_safe_field s \<longleftrightarrow> \<not> list_ex (\<lambda>c. c = CHR 0x0D \<or> c = CHR 0x0A \<or> c = CHR 0x00) s"

definition response_new :: "nat \<Rightarrow> bytes \<Rightarrow> response" where
  "response_new status body = \<lparr>rs_status = status, rs_headers = [], rs_body = body\<rparr>"

definition with_header :: "str \<Rightarrow> str \<Rightarrow> response \<Rightarrow> response" where
  "with_header name val r =
     (if is_safe_field name \<and> is_safe_field val \<and> name \<noteq> []
      then r\<lparr>rs_headers := rs_headers r @ [(to_ascii_lowercase name, val)]\<rparr> else r)"

definition response_text :: "nat \<Rightarrow> str \<Rightarrow> response" where
  "response_text status body =
     with_header ''content-type'' ''text/plain; charset=utf-8'' (response_new status (as_bytes body))"

definition response_json :: "nat \<Rightarrow> str \<Rightarrow> response" where
  "response_json status body =
     with_header ''content-type'' ''application/json'' (response_new status (as_bytes body))"

definition reason :: "nat \<Rightarrow> str" where
  "reason status =
     (if status = 200 then ''OK''
      else if status = 201 then ''Created''
      else if status = 204 then ''No Content''
      else if status = 400 then ''Bad Request''
      else if status = 401 then ''Unauthorized''
      else if status = 403 then ''Forbidden''
      else if status = 404 then ''Not Found''
      else if status = 405 then ''Method Not Allowed''
      else if status = 409 then ''Conflict''
      else if status = 413 then ''Content Too Large''
      else if status = 415 then ''Unsupported Media Type''
      else if status = 421 then ''Misdirected Request''
      else if status = 422 then ''Unprocessable Content''
      else if status = 429 then ''Too Many Requests''
      else if status = 431 then ''Request Header Fields Too Large''
      else if status = 500 then ''Internal Server Error''
      else if status = 501 then ''Not Implemented''
      else if status = 503 then ''Service Unavailable''
      else if status = 505 then ''HTTP Version Not Supported''
      else ''Status'')"

definition crlf :: str where
  "crlf = [CHR 0x0D, CHR 0x0A]"

definition header_text :: "str \<times> str \<Rightarrow> str" where
  "header_text kv = fst kv @ '': '' @ snd kv @ crlf"

text \<open>\<open>Response::write_to\<close>: everything given to the writer.\<close>

definition write_to :: "response \<Rightarrow> bytes" where
  "write_to r =
     as_bytes (''HTTP/1.1 '' @ show_nat (rs_status r) @ '' '' @ reason (rs_status r) @ crlf
       @ concat (map header_text (rs_headers r))
       @ ''content-length: '' @ show_nat (length (rs_body r)) @ crlf @ ''connection: close'' @ crlf @ crlf)
     @ rs_body r"

section \<open>Serving a connection\<close>

text \<open>\<open>run_handler\<close>: a handler that panics (\<open>None\<close>) is answered for.\<close>

definition run_handler :: "response option \<Rightarrow> response" where
  "run_handler outcome =
     (case outcome of Some r \<Rightarrow> r | None \<Rightarrow> response_json 500 ''{\"error\":\"internal error\"}'')"

definition escape_text :: "str \<Rightarrow> str" where
  "escape_text s = filter (\<lambda>c. c \<noteq> CHR 0x22 \<and> c \<noteq> CHR 0x5C \<and> 32 \<le> code c) s"

definition max_drain :: nat where "max_drain = 64 * 1024"
definition drain_deadline :: nat where "drain_deadline = 2 * 1000000000"

function drain_loop :: "nat \<Rightarrow> nat \<Rightarrow> conn \<Rightarrow> conn" where
  "drain_loop started cleared c =
     (if cleared < max_drain
      then let c0 = c\<lparr>asks := Suc (asks c)\<rparr> in
        if elapsed c (asks c) - started < drain_deadline
        then (case conn_read 4096 c0 of
            (Inl _, c1) \<Rightarrow> c1
          | (Inr bs, c1) \<Rightarrow> if bs = [] then c1 else drain_loop started (cleared + length bs) c1)
        else c0
      else c)"
  by pat_completeness auto
termination
  by (relation "measure (\<lambda>(started, cleared, c). max_drain - cleared)") (auto intro!: diff_less_mono2)

declare drain_loop.simps [simp del]

definition drain :: "conn \<Rightarrow> conn" where
  "drain c = drain_loop (elapsed c (asks c)) 0 (c\<lparr>asks := Suc (asks c)\<rparr>)"

text \<open>
  What is written to the connection, if anything, with the state the handler leaves behind. The
  handler gives \<open>None\<close> when it panics.
\<close>

definition serve_connection ::
  "limits \<Rightarrow> (request \<Rightarrow> 's \<Rightarrow> response option \<times> 's) \<Rightarrow> conn \<Rightarrow> 's \<Rightarrow> bytes option \<times> conn \<times> 's" where
  "serve_connection l handler c st =
     (case request_read l c of
        (Inr rq, c1) \<Rightarrow> (case handler rq st of (outcome, st1) \<Rightarrow> (Some (write_to (run_handler outcome)), c1, st1))
      | (Inl e, c1) \<Rightarrow>
          if e = Incomplete then (None, c1, st)
          else (Some (write_to (response_json (error_status e)
                  (''{\"error\":\"'' @ escape_text (show_http_error e) @ ''\"}''))), drain c1, st))"

section \<open>The client\<close>

record client_response =
  cr_status :: nat
  cr_headers :: "(str \<times> str) list"
  cr_body :: bytes

definition client_header :: "str \<Rightarrow> client_response \<Rightarrow> str option" where
  "client_header name r = field_named (to_ascii_lowercase name) (cr_headers r)"

definition has_line_break :: "str \<Rightarrow> bool" where
  "has_line_break s \<longleftrightarrow> list_ex (\<lambda>c. c = CHR 0x0D \<or> c = CHR 0x0A) s"

text \<open>The bytes \<open>Client::send\<close> writes before it reads the answer; \<open>address\<close> is the printed socket address.\<close>

definition client_send :: "str \<Rightarrow> str \<Rightarrow> str \<Rightarrow> (str \<times> str) list \<Rightarrow> bytes \<Rightarrow> http_error + bytes" where
  "client_send address method path headers body =
     (let host = (if \<not> list_ex (\<lambda>(name, _). to_ascii_lowercase name = ''host'') headers
                  then header_text (''host'', address) else []) in
      if list_ex (\<lambda>(name, val). has_line_break name \<or> has_line_break val) headers
      then Inl (Malformed ''header contains a line break'')
      else Inr (as_bytes (method @ '' '' @ path @ '' HTTP/1.1'' @ crlf @ host @ ''connection: close'' @ crlf
             @ concat (map header_text headers) @ ''content-length: '' @ show_nat (length body) @ crlf @ crlf)
           @ body))"

definition client_get :: "str \<Rightarrow> str \<Rightarrow> (str \<times> str) list \<Rightarrow> http_error + bytes" where
  "client_get address path headers = client_send address ''GET'' path headers []"

definition client_post :: "str \<Rightarrow> str \<Rightarrow> (str \<times> str) list \<Rightarrow> bytes \<Rightarrow> http_error + bytes" where
  "client_post address path headers body = client_send address ''POST'' path headers body"

text \<open>\<open>reader.take(n).read_until(b'\n', &mut raw)\<close>\<close>

function read_until :: "nat \<Rightarrow> bytes \<Rightarrow> conn \<Rightarrow> (read_error + bytes) \<times> conn" where
  "read_until n raw c =
     (if n = 0 then (Inr raw, c)
      else (case fill_buf c of
          (Inl ReadInterrupted, c1) \<Rightarrow> read_until n raw c1
        | (Inl ReadFailed, c1) \<Rightarrow> (Inl ReadFailed, c1)
        | (Inr available, c1) \<Rightarrow>
            let avail = take n available in
            (case window_at [10] avail of
               Some i \<Rightarrow> (Inr (raw @ take (i + 1) avail), consume (i + 1) c1)
             | None \<Rightarrow>
                 if avail = [] then (Inr raw, c1)
                 else read_until (n - length avail) (raw @ avail) (consume (length avail) c1))))"
  by pat_completeness auto
termination
proof (relation "measures [\<lambda>(n, raw, c). n, \<lambda>(n, raw, c). left c]", goal_cases)
  case 1
  show ?case by simp
next
  case (2 n raw c r c1)
  then have "fill_buf c = (Inl ReadInterrupted, c1)" by simp
  from fill_buf_left(1) [OF this] show ?case by simp
next
  case (3 n raw c r c1 available avail)
  then show ?case by (cases available) (auto intro!: diff_less)
qed

declare read_until.simps [simp del]

definition read_line :: "limits \<Rightarrow> conn \<Rightarrow> (http_error + str) \<times> conn" where
  "read_line l c =
     (case read_until (max_head l) [] c of
        (Inl _, c1) \<Rightarrow> (Inl HttpIo, c1)
      | (Inr raw, c1) \<Rightarrow>
          if raw = [] then (Inl Incomplete, c1)
          else (ok_or (Malformed ''response is not UTF-8'') (from_utf8 raw), c1))"

lemma read_until_left:
  "read_until n raw c = (Inr raw', c') \<Longrightarrow> length raw' + left c' \<le> length raw + left c"
proof (induction n raw c rule: read_until.induct)
  case (1 n raw c)
  note run = 1(3) [unfolded read_until.simps [of n raw c]]
  show ?case
  proof (cases "n = 0")
    case True
    with run show ?thesis by simp
  next
    case n: False
    obtain r c1 where f: "fill_buf c = (r, c1)" by fastforce
    show ?thesis
    proof (cases r)
      case (Inl e)
      with run f n 1(1) [OF n f [symmetric] Inl] fill_buf_left(1) [of c e c1] show ?thesis
        by (cases e) auto
    next
      case (Inr available)
      with f have b: "left c1 \<le> left c" "buffered c1 = available" "length available \<le> left c1"
        using fill_buf_left(2) fill_buf_buffered [of c available c1] length_buffered_left [of c1] by auto
      show ?thesis
      proof (cases "window_at [10] (take n available)")
        case (Some i)
        from window_at_bound [OF Some] have "i + 1 \<le> length (take n available)" by simp
        with run f Inr n Some b show ?thesis by (auto simp: Let_def)
      next
        case None
        with run f Inr n b 1(2) [OF n f [symmetric] Inr refl None] show ?thesis
          by (auto simp: Let_def split: if_splits)
      qed
    qed
  qed
qed

lemma read_line_left:
  assumes "read_line l c = (Inr line, c')"
  shows "left c' < left c"
proof -
  from assms obtain raw where "read_until (max_head l) [] c = (Inr raw, c')" "raw \<noteq> []"
    by (auto simp: read_line_def split: prod.splits sum.splits if_splits)
  with read_until_left [of "max_head l" "[]" c raw c'] show ?thesis by (cases raw) auto
qed

text \<open>\<open>splitn(n, ' ')\<close>\<close>

fun splitn_on :: "nat \<Rightarrow> 'a \<Rightarrow> 'a list \<Rightarrow> 'a list list" where
  "splitn_on 0 c s = []"
| "splitn_on (Suc 0) c s = [s]"
| "splitn_on (Suc (Suc n)) c s =
     (case split_once c s of None \<Rightarrow> [s] | Some (a, b) \<Rightarrow> a # splitn_on (Suc n) c b)"

definition trim_end :: "str \<Rightarrow> str" where
  "trim_end s = concat (trim_end_matches is_whitespace (chars s))"

definition trim_line_end :: "str \<Rightarrow> str" where
  "trim_line_end s = concat (trim_end_matches (\<lambda>ch. ch = [CHR 0x0D] \<or> ch = [CHR 0x0A]) (chars s))"

definition u16_max :: nat where "u16_max = 2 ^ 16 - 1"

definition parse_status_line :: "str \<Rightarrow> http_error + nat" where
  "parse_status_line line =
     (let parts = splitn_on 3 (CHR '' '') (trim_end line);
          version = (case parts of [] \<Rightarrow> [] | p # _ \<Rightarrow> p)
      in if \<not> starts_with ''HTTP/1.'' version then Inl (Malformed ''status line'')
         else (case parts of
             _ # code_text # _ \<Rightarrow> ok_or (Malformed ''status code'') (parse_unsigned u16_max code_text)
           | _ \<Rightarrow> Inl (Malformed ''missing status code'')))"

definition parse_response_header :: "str \<Rightarrow> http_error + str \<times> str" where
  "parse_response_header trimmed =
     and_then (ok_or (Malformed ''response header'') (split_once (CHR '':'') trimmed)) (\<lambda>(name, val).
       Inr (to_ascii_lowercase name, trim_matches is_blank val))"

function response_headers ::
  "limits \<Rightarrow> (str \<times> str) list \<Rightarrow> nat \<Rightarrow> conn \<Rightarrow> (http_error + (str \<times> str) list \<times> nat) \<times> conn" where
  "response_headers l headers len c =
     (case read_line l c of
        (Inl e, c1) \<Rightarrow> (Inl e, c1)
      | (Inr line, c1) \<Rightarrow>
          let trimmed = trim_line_end line in
          if trimmed = [] then (Inr (headers, len), c1)
          else if length headers = max_headers l then (Inl TooManyHeaders, c1)
          else (case parse_response_header trimmed of
              Inl e \<Rightarrow> (Inl e, c1)
            | Inr (name, val) \<Rightarrow>
                if name = ''content-length''
                then (case parse_unsigned usize_max val of
                    None \<Rightarrow> (Inl (Malformed ''response Content-Length''), c1)
                  | Some n \<Rightarrow> response_headers l (headers @ [(name, val)]) n c1)
                else response_headers l (headers @ [(name, val)]) len c1))"
  by pat_completeness auto
termination
proof (relation "measure (\<lambda>(l, headers, len, c). left c)", goal_cases)
  case 1
  show ?case by simp
qed (simp, metis read_line_left)+

declare response_headers.simps [simp del]

text \<open>\<open>Read::read_exact\<close>: interruptions are retried, any other error ends it.\<close>

function read_exact :: "nat \<Rightarrow> bytes \<Rightarrow> conn \<Rightarrow> bytes option \<times> conn" where
  "read_exact n body c =
     (if length body < n
      then (case conn_read (n - length body) c of
          (Inl ReadInterrupted, c1) \<Rightarrow> read_exact n body c1
        | (Inl ReadFailed, c1) \<Rightarrow> (None, c1)
        | (Inr bs, c1) \<Rightarrow> if bs = [] then (None, c1) else read_exact n (body @ bs) c1)
      else (Some body, c))"
  by pat_completeness auto
termination
proof (relation "measures [\<lambda>(n, body, c). n - length body, \<lambda>(n, body, c). left c]", goal_cases)
  case 1
  show ?case by simp
next
  case (2 n body c r c1)
  then have "conn_read (n - length body) c = (Inl ReadInterrupted, c1)" by simp
  then have "fill_buf c = (Inl ReadInterrupted, c1)" by (auto simp: conn_read_def split: prod.splits sum.splits)
  from fill_buf_left(1) [OF this] show ?case by simp
next
  case (3 n body c r c1 bs)
  then show ?case by (cases bs) auto
qed

declare read_exact.simps [simp del]

definition read_response :: "limits \<Rightarrow> conn \<Rightarrow> (http_error + client_response) \<times> conn" where
  "read_response l c =
     (case read_line l c of
        (Inl e, c1) \<Rightarrow> (Inl e, c1)
      | (Inr line, c1) \<Rightarrow>
          (case parse_status_line line of
             Inl e \<Rightarrow> (Inl e, c1)
           | Inr status \<Rightarrow>
               (case response_headers l [] 0 c1 of
                  (Inl e, c2) \<Rightarrow> (Inl e, c2)
                | (Inr (headers, len), c2) \<Rightarrow>
                    if len > max_body l then (Inl (BodyTooLarge len (max_body l)), c2)
                    else (case read_exact len [] c2 of
                        (None, c3) \<Rightarrow> (Inl IncompleteBody, c3)
                      | (Some body, c3) \<Rightarrow>
                          (Inr \<lparr>cr_status = status, cr_headers = headers, cr_body = body\<rparr>, c3)))))"

end
