(* ===== verification/Http_Exchange.thy ===== *)
theory Http_Exchange
  imports Http_Response
begin

text \<open>
  One exchange: what the client sends is what the server reads, and what the server writes is what
  the client reads, for connections that deliver the bytes in time, in pieces of any size.
\<close>

section \<open>Reading a line\<close>

lemma window_at_byte: "x \<notin> set xs \<Longrightarrow> window_at [x] (xs @ x # ys) = Some (length xs)"
  by (induction xs) auto

lemma window_at_byte_None: "x \<notin> set xs \<Longrightarrow> window_at [x] xs = None"
  by (induction xs) auto

lemma read_until_smooth:
  assumes "smooth l c" and "stream c = line @ 10 # rest" and "10 \<notin> set line" and "length line < n"
  shows "\<exists>c'. read_until n raw c = (Inr (raw @ line @ [10]), c') \<and> smooth l c' \<and> stream c' = rest"
  using assms
proof (induction "length line" arbitrary: line n raw c rule: less_induct)
  case less
  obtain avail c1 where f: "fill_buf c = (Inr avail, c1)" "smooth l c1" "stream c1 = stream c" "buffered c1 = avail"
    "avail = [] \<longleftrightarrow> stream c = []" by (rule fill_buf_smooth [OF less.prems(1)])
  have "stream c1 = avail @ concat (map chunk_bytes (arrivals c1))" by (simp add: stream_def f(4))
  then obtain more where more: "line @ 10 # rest = avail @ more" "stream c1 = avail @ more"
    using f(3) less.prems(2) by metis
  have "avail \<noteq> []" using f(5) less.prems(2) by auto
  from less.prems(4) have "n \<noteq> 0" by simp
  note run = read_until.simps [of n raw c, unfolded f(1) prod.case sum.case if_not_P [OF this] Let_def]
  show ?case
  proof (cases "length line < length avail")
    case True
    with more(1) obtain us where us: "avail = line @ 10 # us" "rest = us @ more"
      by (auto simp: append_eq_append_conv2 Cons_eq_append_conv)
    then have "take n avail = line @ 10 # take (n - length line - 1) us"
      using less.prems(4) by (cases "n - length line") simp_all
    then have w: "window_at [10] (take n avail) = Some (length line)"
      by (simp add: window_at_byte [OF less.prems(3)])
    have "take (length line + 1) (take n avail) = line @ [10]"
      using us less.prems(4) by (simp add: min_def)
    moreover have "stream (consume (length line + 1) c1) = rest"
      using more(2) us by (simp add: f(4))
    ultimately show ?thesis using run w f(2) by simp
  next
    case False
    with more(1) obtain us where us: "line = avail @ us" "us @ 10 # rest = more"
      by (auto simp: append_eq_append_conv2 Cons_eq_append_conv)
    with less.prems(4) have all: "take n avail = avail" by simp
    have w: "window_at [10] avail = None" by (rule window_at_byte_None) (use us less.prems(3) in auto)
    have "length us < length line" using us \<open>avail \<noteq> []\<close> by simp
    from less.hyps [OF this, of "consume (length avail) c1" "n - length avail" "raw @ avail"] f(2,4) more(2) us less.prems(3,4)
    show ?thesis using run w all \<open>avail \<noteq> []\<close> by simp
  qed
qed


lemma as_bytes_newline: "CHR 0x0A \<notin> set s \<Longrightarrow> 10 \<notin> set (as_bytes s)"
proof
  assume "10 \<in> set (as_bytes s)" "CHR 0x0A \<notin> set s"
  then obtain c where "c \<in> set s" "(of_char c :: byte) = 10" by (auto simp: as_bytes_def)
  then have "unat (of_char c :: byte) = unat (10 :: byte)" by simp
  then have "code c = 10" by simp
  moreover have "char_of (10 :: nat) = CHR 0x0A" by code_simp
  ultimately have "c = CHR 0x0A" by (metis char_of_char)
  with \<open>c \<in> set s\<close> \<open>CHR 0x0A \<notin> set s\<close> show False by simp
qed

text \<open>A line of text that the client or the server wrote.\<close>

definition plain_line :: "limits \<Rightarrow> str \<Rightarrow> bool" where
  "plain_line l s \<longleftrightarrow> utf8_valid s \<and> CHR 0x0D \<notin> set s \<and> CHR 0x0A \<notin> set s \<and> length s + 2 \<le> max_head l"

lemma read_line_smooth:
  assumes "smooth l c" and "stream c = as_bytes (s @ crlf) @ rest" and "plain_line l s"
  obtains c' where "read_line l c = (Inr (s @ crlf), c')" and "smooth l c'" and "stream c' = rest"
proof -
  have split: "as_bytes crlf = as_bytes [CHR 0x0D] @ [10]" by (simp add: crlf_def as_bytes_def)
  have "10 \<notin> set (as_bytes (s @ [CHR 0x0D]))" using assms(3) by (intro as_bytes_newline) (simp add: plain_line_def)
  moreover have "length (as_bytes (s @ [CHR 0x0D])) < max_head l" using assms(3) by (simp add: plain_line_def)
  ultimately obtain c' where c': "read_until (max_head l) [] c = (Inr (as_bytes (s @ crlf)), c')" "smooth l c'" "stream c' = rest"
    using read_until_smooth [OF assms(1), of "as_bytes (s @ [CHR 0x0D])" rest "max_head l" "[]"] assms(2)
    by (auto simp: split)
  have "utf8_valid (s @ crlf)"
    using assms(3) by (intro utf8_valid_append) (auto simp: plain_line_def crlf_def intro!: utf8_valid_ascii)
  then have "from_utf8 (as_bytes (s @ crlf)) = Some (s @ crlf)" by (rule from_utf8_as_bytes)
  with c' have "read_line l c = (Inr (s @ crlf), c')" by (simp add: read_line_def) (auto simp: as_bytes_def crlf_def)
  with c'(2,3) show thesis by (intro that)
qed

lemma read_exact_smooth:
  assumes "smooth l c" and "stream c = body @ rest"
  shows "\<exists>c'. read_exact (length got + length body) got c = (Some (got @ body), c') \<and> smooth l c' \<and> stream c' = rest"
  using assms
proof (induction "length body" arbitrary: body got c rule: less_induct)
  case less
  show ?case
  proof (cases "body = []")
    case True
    with less.prems show ?thesis by (subst read_exact.simps) simp
  next
    case False
    then have n: "0 < length body" by simp
    obtain bs c1 where r: "conn_read (length body) c = (Inr bs, c1)" "smooth l c1" "length bs \<le> length body"
      "bs @ stream c1 = stream c" "bs = [] \<longleftrightarrow> stream c = []"
      by (rule conn_read_smooth [OF less.prems(1) n])
    with less.prems(2) False have "bs \<noteq> []" by simp
    from r(3,4) less.prems(2) obtain us where us: "body = bs @ us" "stream c1 = us @ rest"
      by (auto simp: append_eq_append_conv2)
    have "length us < length body" using us \<open>bs \<noteq> []\<close> by simp
    from less.hyps [OF this r(2) us(2), of "got @ bs"] us(1) r(1) \<open>bs \<noteq> []\<close> False
    show ?thesis by (subst read_exact.simps) (simp add: add.assoc)
  qed
qed

section \<open>Reading an answer\<close>

lemma chars_crlf: "utf8_valid s \<Longrightarrow> chars (s @ crlf) = chars s @ [[CHR 0x0D], [CHR 0x0A]]"
proof -
  have "chars crlf = [[CHR 0x0D], [CHR 0x0A]]" by (subst chars_ascii) (auto simp: crlf_def)
  moreover have "starts_char crlf" by (rule utf8_valid_starts_char, rule utf8_valid_ascii) (auto simp: crlf_def)
  ultimately show ?thesis by (simp add: chars_append)
qed

lemma char_in_text: "ch \<in> set (chars s) \<Longrightarrow> set ch \<subseteq> set s"
  using concat_chars [of s] by (metis UN_upper set_concat)

lemma trim_end_kept:
  assumes "\<not> p (last chs)"
  shows "concat (trim_end_matches p chs) = concat chs"
  using assms by (cases chs rule: rev_cases) (auto simp: trim_end_matches_def)

lemma trim_line_end_line: "plain_line l s \<Longrightarrow> trim_line_end (s @ crlf) = s"
proof -
  assume p: "plain_line l s"
  then have c: "chars (s @ crlf) = chars s @ [[CHR 0x0D], [CHR 0x0A]]" by (simp add: plain_line_def chars_crlf)
  let ?p = "\<lambda>ch. ch = [CHR 0x0D] \<or> ch = [CHR 0x0A]"
  have "concat (trim_end_matches ?p (chars s)) = s"
  proof (cases "chars s = []")
    case True
    then show ?thesis using concat_chars [of s] by (simp add: trim_end_matches_def)
  next
    case False
    then have "last (chars s) \<in> set (chars s)" by simp
    from char_in_text [OF this] p have "\<not> ?p (last (chars s))" by (auto simp: plain_line_def)
    then show ?thesis by (subst trim_end_kept) simp_all
  qed
  then show ?thesis by (simp add: trim_line_end_def c trim_end_matches_def)
qed

lemma reason_ascii: "list_all (\<lambda>c. code c < 128 \<and> 31 < code c) (reason status)" "reason status \<noteq> []"
  "\<not> is_whitespace [last (reason status)]"
  by (simp_all add: reason_def is_whitespace_def)

definition status_line :: "nat \<Rightarrow> str" where
  "status_line status = ''HTTP/1.1 '' @ show_nat status @ '' '' @ reason status"

lemma show_nat_code: "c \<in> set (show_nat n) \<Longrightarrow> 48 \<le> code c \<and> code c \<le> 57"
  using show_nat_digits by (auto simp: is_ascii_digit_def)

lemma status_line_ascii: "c \<in> set (status_line status) \<Longrightarrow> code c < 128 \<and> 31 < code c"
  using reason_ascii(1) [of status] show_nat_code [of c status]
  by (auto simp: status_line_def list_all_iff)

lemma parse_status_line_written:
  assumes "status \<le> u16_max"
  shows "parse_status_line (status_line status @ crlf) = Inr status"
proof -
  let ?s = "status_line status"
  have ascii: "\<And>c. c \<in> set ?s \<Longrightarrow> code c < 128" using status_line_ascii by blast
  have chars: "chars ?s = map (\<lambda>c. [c]) ?s" by (rule chars_ascii [OF ascii])
  have "?s \<noteq> []" "last ?s = last (reason status)" using reason_ascii(2) by (simp_all add: status_line_def)
  then have "\<not> is_whitespace (last (chars ?s))" by (metis chars last_map reason_ascii(3))
  then have "concat (trim_end_matches is_whitespace (chars ?s)) = ?s" by (subst trim_end_kept) simp_all
  then have trim: "trim_end (?s @ crlf) = ?s"
    by (simp add: trim_end_def chars_crlf utf8_valid_ascii [OF ascii] trim_end_matches_def is_whitespace_def)
  have "CHR '' '' \<notin> set (show_nat status)" using show_nat_code [of "CHR '' ''" status] by auto
  then have one: "split_once (CHR '' '') (show_nat status @ CHR '' '' # reason status) = Some (show_nat status, reason status)"
    by (simp add: split_once_Some)
  have "splitn_on 3 (CHR '' '') ?s = [''HTTP/1.1'', show_nat status, reason status]"
    by (simp add: status_line_def numeral_3_eq_3 one)
  with trim assms show ?thesis by (simp add: parse_status_line_def Let_def starts_with_def)
qed

text \<open>A header both sides can read back.\<close>

definition plain_header :: "limits \<Rightarrow> str \<times> str \<Rightarrow> bool" where
  "plain_header l kv \<longleftrightarrow> plain_line l (fst kv @ '': '' @ snd kv) \<and> fst kv \<noteq> [] \<and> CHR '':'' \<notin> set (fst kv) \<and>
     utf8_valid (snd kv) \<and> trim_matches is_blank (snd kv) = snd kv"

lemma trim_leading_blank: "utf8_valid v \<Longrightarrow> trim_matches is_blank (CHR '' '' # v) = trim_matches is_blank v"
proof -
  assume "utf8_valid v"
  then have "chars ([CHR '' ''] @ v) = [[CHR '' '']] @ chars v"
    by (subst chars_append) (simp_all add: utf8_valid_starts_char)
  then show ?thesis by (simp add: trim_matches_def trim_start_matches_def is_blank_def)
qed

lemma parse_response_header_written:
  assumes "plain_header l (name, val)"
  shows "parse_response_header (name @ '': '' @ val) = Inr (to_ascii_lowercase name, val)"
proof -
  have "split_once (CHR '':'') (name @ '': '' @ val) = Some (name, CHR '' '' # val)"
    using assms by (simp add: plain_header_def split_once_Some)
  with assms show ?thesis by (simp add: parse_response_header_def plain_header_def trim_leading_blank)
qed

lemma response_headers_written:
  assumes "smooth l c" and "stream c = as_bytes (concat (map header_text hs) @ crlf) @ rest"
    and "list_all (plain_header l) hs" and "length got + length hs \<le> max_headers l" and "2 \<le> max_head l"
    and "list_all (\<lambda>(name, val). to_ascii_lowercase name = ''content-length'' \<longrightarrow> parse_unsigned usize_max val \<noteq> None) hs"
  shows "\<exists>c'. response_headers l got len c = (Inr (got @ map (\<lambda>(name, val). (to_ascii_lowercase name, val)) hs,
      fold (\<lambda>(name, val) len. if to_ascii_lowercase name = ''content-length'' then the (parse_unsigned usize_max val) else len) hs len), c') \<and>
    smooth l c' \<and> stream c' = rest"
  using assms
proof (induction hs arbitrary: got len c)
  case Nil
  from Nil.prems(2) have "stream c = as_bytes ([] @ crlf) @ rest" by simp
  from read_line_smooth [OF Nil.prems(1) this] Nil.prems(5) obtain c' where
    "read_line l c = (Inr ([] @ crlf), c')" "smooth l c'" "stream c' = rest" by (auto simp: plain_line_def)
  moreover have "trim_line_end ([] @ crlf) = []"
    by (rule trim_line_end_line [of l]) (use Nil.prems(5) in \<open>simp add: plain_line_def\<close>)
  ultimately show ?case by (subst response_headers.simps) simp
next
  case (Cons h hs)
  obtain name val where h: "h = (name, val)" by fastforce
  let ?line = "name @ '': '' @ val"
  from Cons.prems(3) h have p: "plain_header l (name, val)" "plain_line l ?line" by (simp_all add: plain_header_def)
  have written: "header_text h = ?line @ crlf" by (simp add: h header_text_def)
  have "stream c = as_bytes (?line @ crlf) @ as_bytes (concat (map header_text hs) @ crlf) @ rest"
    using Cons.prems(2) written by (simp only: list.map concat.simps as_bytes_append append_assoc)
  from read_line_smooth [OF Cons.prems(1) this p(2)] obtain c1 where
    r: "read_line l c = (Inr (?line @ crlf), c1)" "smooth l c1" "stream c1 = as_bytes (concat (map header_text hs) @ crlf) @ rest"
    by metis
  have room: "length got \<noteq> max_headers l" "length (got @ [x]) + length hs \<le> max_headers l" for x
    using Cons.prems(4) by simp_all
  have nonempty: "?line \<noteq> []" by simp
  note step = response_headers.simps [of l got len c, unfolded r(1) prod.case sum.case trim_line_end_line [OF p(2)] Let_def
      parse_response_header_written [OF p(1)] if_not_P [OF nonempty] if_not_P [OF room(1)]]
  note IH = Cons.IH [OF r(2,3) _ room(2) Cons.prems(5)]
  show ?case
  proof (cases "to_ascii_lowercase name = ''content-length''")
    case True
    with Cons.prems(6) h obtain n where "parse_unsigned usize_max val = Some n" by auto
    with step True IH [of "(to_ascii_lowercase name, val)" n] Cons.prems(3,6) h show ?thesis by simp
  next
    case False
    with step IH [of "(to_ascii_lowercase name, val)" len] Cons.prems(3,6) h show ?thesis by simp
  qed
qed

lemma show_nat_length: "n < 10 ^ Suc k \<Longrightarrow> length (show_nat n) \<le> Suc k"
proof (induction k arbitrary: n)
  case 0
  then show ?case by (subst show_nat.simps) simp
next
  case (Suc k)
  then have "n div 10 < 10 ^ Suc k" by (simp add: less_mult_imp_div_less mult.commute)
  from Suc.IH [OF this] show ?case by (subst show_nat.simps) simp
qed

lemma plain_ascii: "(\<And>c. c \<in> set s \<Longrightarrow> 31 < code c \<and> code c < 128) \<Longrightarrow> length s + 2 \<le> max_head l \<Longrightarrow> plain_line l s"
  by (fastforce simp: plain_line_def intro!: utf8_valid_ascii)

lemma plain_status_line:
  assumes "status \<le> u16_max" and "64 \<le> max_head l"
  shows "plain_line l (status_line status)"
proof (rule plain_ascii)
  have "length (reason status) \<le> 31" by (simp add: reason_def)
  moreover have "status < 10 ^ Suc 4" using assms(1) by (simp add: u16_max_def)
  from show_nat_length [OF this] have "length (show_nat status) \<le> 5" by simp
  ultimately show "length (status_line status) + 2 \<le> max_head l" using assms(2) by (simp add: status_line_def)
qed (use status_line_ascii in blast)

lemma plain_number_header:
  assumes "n \<le> usize_max" and "64 \<le> max_head l"
  shows "plain_header l (''content-length'', show_nat n)"
proof -
  have "n < 10 ^ Suc 19" using assms(1) by (simp add: usize_max_def)
  from show_nat_length [OF this] have len: "length (show_nat n) \<le> 20" by simp
  have digits: "\<And>c. c \<in> set (show_nat n) \<Longrightarrow> 31 < code c \<and> code c < 128" using show_nat_code by fastforce
  have "plain_line l (''content-length: '' @ show_nat n)"
    by (rule plain_ascii) (use digits len assms(2) in auto)
  moreover have "\<not> is_blank [c]" if "c \<in> set (show_nat n)" for c
    using show_nat_code [OF that] by (auto simp: is_blank_def)
  then have "trim_matches is_blank (show_nat n) = show_nat n"
    by (intro trim_matches_id) (use digits in auto)
  ultimately show ?thesis using digits by (auto simp: plain_header_def intro!: utf8_valid_ascii)
qed

lemma plain_literal_header:
  assumes "64 \<le> max_head l"
  shows "plain_header l (''connection'', ''close'')" "plain_header l (''content-type'', ''application/json'')"
proof -
  have "trim_matches is_blank ''close'' = ''close''" "trim_matches is_blank ''application/json'' = ''application/json''" by code_simp+
  moreover have "utf8_valid ''close''" "utf8_valid ''application/json''" by code_simp+
  ultimately show "plain_header l (''connection'', ''close'')" "plain_header l (''content-type'', ''application/json'')"
    using assms by (auto simp: plain_header_def intro!: plain_ascii)
qed

lemma answer_read_back:
  assumes "smooth l c" and "stream c = write_to r" and "rs_status r \<le> u16_max"
    and "list_all (plain_header l) (rs_headers r)" and "\<And>name val. (name, val) \<in> set (rs_headers r) \<Longrightarrow>
      to_ascii_lowercase name = name \<and> name \<noteq> ''content-length''"
    and "length (rs_headers r) + 2 \<le> max_headers l" and "length (rs_body r) \<le> max_body l"
    and "max_body l \<le> usize_max" and "64 \<le> max_head l"
  shows "fst (read_response l c) = Inr \<lparr>cr_status = rs_status r,
     cr_headers = rs_headers r @ [(''content-length'', show_nat (length (rs_body r))), (''connection'', ''close'')],
     cr_body = rs_body r\<rparr>"
proof -
  let ?n = "length (rs_body r)"
  let ?hs = "rs_headers r @ [(''content-length'', show_nat ?n), (''connection'', ''close'')]"
  have n: "?n \<le> usize_max" using assms(7,8) by simp
  have head: "''HTTP/1.1 '' @ show_nat (rs_status r) @ '' '' @ reason (rs_status r) @ crlf @ concat (map header_text (rs_headers r))
       @ ''content-length: '' @ show_nat ?n @ crlf @ ''connection: close'' @ crlf @ crlf =
     (status_line (rs_status r) @ crlf) @ concat (map header_text ?hs) @ crlf"
    by (simp add: status_line_def header_text_def)
  have "stream c = as_bytes (status_line (rs_status r) @ crlf) @ as_bytes (concat (map header_text ?hs) @ crlf) @ rs_body r"
    using assms(2) by (simp only: write_to_def head) simp
  from read_line_smooth [OF assms(1) this plain_status_line [OF assms(3,9)]] obtain c1 where
    c1: "read_line l c = (Inr (status_line (rs_status r) @ crlf), c1)" "smooth l c1"
    "stream c1 = as_bytes (concat (map header_text ?hs) @ crlf) @ rs_body r" by metis
  have low: "to_ascii_lowercase ''content-length'' = ''content-length''" "to_ascii_lowercase ''connection'' = ''connection''" by code_simp+
  have same: "map (\<lambda>(name, val). (to_ascii_lowercase name, val)) (rs_headers r) = rs_headers r"
    using assms(5) by (auto intro!: map_idI)
  have quiet: "fold (\<lambda>(name, val) len. if to_ascii_lowercase name = ''content-length'' then the (parse_unsigned usize_max val) else len)
      (rs_headers r) 0 = 0"
    using assms(5) by (intro fold_invariant [where P = "\<lambda>len. len = 0" and Q = "\<lambda>h. h \<in> set (rs_headers r)"]) auto
  have lengths: "\<forall>x\<in>set (rs_headers r). case x of (name, val) \<Rightarrow> to_ascii_lowercase name = ''content-length'' \<longrightarrow>
      (\<exists>y. parse_unsigned usize_max val = Some y)" using assms(5) by fastforce
  from response_headers_written [OF c1(2,3), of "[]" 0] lengths obtain c2 where
    c2: "response_headers l [] 0 c1 = (Inr (?hs, ?n), c2)" "smooth l c2" "stream c2 = rs_body r"
    using assms(4,5,6,9) plain_number_header [OF n assms(9)] plain_literal_header(1) [OF assms(9)] n low same quiet
    by (auto simp: list_all_iff)
  from read_exact_smooth [OF c2(2), of "rs_body r" "[]" "[]"] c2(3) obtain c3 where
    "read_exact ?n [] c2 = (Some (rs_body r), c3)" by auto
  with c1(1) c2(1) parse_status_line_written [OF assms(3)] assms(7) show ?thesis
    by (simp add: read_response_def)
qed

section \<open>Reading a request\<close>

lemma window_in_line:
  "13 \<notin> set s \<Longrightarrow> window_at terminator (s @ 13 # xs) = map_option ((+) (length s)) (window_at terminator (13 # xs))"
proof (induction s)
  case Nil
  show ?case by (cases "window_at terminator (13 # xs)") simp_all
next
  case (Cons x s)
  then show ?case by (cases "window_at terminator (13 # xs)") (auto simp: terminator_def)
qed

lemma window_at_line_end:
  "window_at terminator (13 # 10 # xs) = (if take 2 xs = [13, 10] then Some 0 else map_option (\<lambda>n. n + 2) (window_at terminator xs))"
  by (cases xs; cases "tl xs") (auto simp: terminator_def option.map_comp o_def)

declare window_at.simps(2) [simp del]

definition ended_lines :: "bytes list \<Rightarrow> bytes" where
  "ended_lines lines = concat (map (\<lambda>s. s @ [13, 10]) lines)"

lemma ended_lines_simps [simp]:
  "ended_lines [] = []" "ended_lines (s # lines) = s @ 13 # 10 # ended_lines lines"
  by (simp_all add: ended_lines_def)

lemma window_at_blank_line:
  assumes "lines \<noteq> []" and "\<And>s. s \<in> set lines \<Longrightarrow> s \<noteq> [] \<and> 13 \<notin> set s"
  shows "\<exists>n. window_at terminator (ended_lines lines @ 13 # 10 # rest) = Some n \<and> n + 2 = length (ended_lines lines)"
  using assms
proof (induction lines rule: list_nonempty_induct)
  case (single s)
  then show ?case by (simp add: window_in_line window_at_line_end)
next
  case (cons s lines)
  obtain n where n: "window_at terminator (ended_lines lines @ 13 # 10 # rest) = Some n" "n + 2 = length (ended_lines lines)"
    using cons by auto
  obtain s' ls where "lines = s' # ls" using cons.hyps by (cases lines) auto
  moreover with cons.prems have "s' \<noteq> []" "13 \<notin> set s'" by auto
  ultimately have "take 2 (ended_lines lines @ 13 # 10 # rest) \<noteq> [13, 10]" by (cases s') auto
  with n cons.prems [of s] show ?case by (simp add: window_in_line window_at_line_end)
qed

lemma split_ended_lines:
  "(\<And>s. s \<in> set lines \<Longrightarrow> 10 \<notin> set s) \<Longrightarrow>
   split_on 10 (ended_lines lines @ [13, 10]) = map (\<lambda>s. s @ [13]) lines @ [[13], []]"
proof (induction lines)
  case Nil
  show ?case by simp
next
  case (Cons s lines)
  have "10 \<notin> set (s @ [13])" using Cons.prems [of s] by simp
  from split_on_append [OF this, of "ended_lines lines @ [13, 10]"] Cons show ?case by simp
qed

lemma strip_cr_ended [simp]: "strip_cr (s @ [13]) = Inr s" "strip_cr [13] = Inr []"
  by (simp_all add: strip_cr_def)

text \<open>A header a sender may send.\<close>

definition sent_header :: "str \<times> str \<Rightarrow> bool" where
  "sent_header kv \<longleftrightarrow> fst kv \<noteq> [] \<and> list_all is_token_byte (fst kv) \<and> utf8_valid (snd kv) \<and>
     (\<forall>c\<in>set (snd kv). 32 \<le> code c \<or> c = CHR 0x09) \<and> trim_matches is_blank (snd kv) = snd kv"

definition header_line :: "str \<times> str \<Rightarrow> bytes" where
  "header_line kv = as_bytes (fst kv @ '': '' @ snd kv)"

definition lowered :: "(str \<times> str) list \<Rightarrow> (str \<times> str) list" where
  "lowered hs = map (\<lambda>(name, val). (to_ascii_lowercase name, val)) hs"

lemma lowered_simps [simp]:
  "lowered [] = []" "lowered ((name, val) # hs) = (to_ascii_lowercase name, val) # lowered hs"
  "lowered (hs @ hs') = lowered hs @ lowered hs'" "length (lowered hs) = length hs"
  by (simp_all add: lowered_def)

lemma count_named_Cons [simp]: "count_named name (kv # kvs) = (if fst kv = name then 1 else 0) + count_named name kvs"
  by (simp add: count_named_def)

lemma count_named_append [simp]: "count_named name (kvs @ kvs') = count_named name kvs + count_named name kvs'"
  by (simp add: count_named_def)

lemma token_code: "is_token_byte c \<Longrightarrow> 32 < code c \<and> code c < 128 \<and> c \<noteq> CHR '':''"
  by (auto simp: is_token_byte_def is_ascii_alphanumeric_def is_ascii_digit_def is_ascii_lowercase_def is_ascii_uppercase_def)

lemma parse_header_sent:
  assumes "sent_header (name, val)"
  shows "parse_header (header_line (name, val)) = Inr (to_ascii_lowercase name, val)"
proof -
  from assms obtain c cs where name: "name = c # cs" "is_token_byte c" by (cases name) (auto simp: sent_header_def)
  have first: "of_char c \<noteq> (32 :: byte)" "of_char c \<noteq> (9 :: byte)"
    using token_code [OF name(2)] by (auto simp: word_unat_eq_iff)
  have tokens: "\<And>c. c \<in> set name \<Longrightarrow> code c < 128 \<and> c \<noteq> CHR '':''"
    using assms token_code by (auto simp: sent_header_def list_all_iff)
  have "utf8_valid name" by (rule utf8_valid_ascii) (use tokens in blast)
  moreover have "utf8_valid '': ''" by code_simp
  ultimately have "utf8_valid (name @ '': '' @ val)"
    using assms utf8_valid_append by (metis sent_header_def snd_conv)
  then have parsed: "from_utf8 (header_line (name, val)) = Some (name @ '': '' @ val)"
    by (simp add: header_line_def from_utf8_as_bytes del: as_bytes_append)
  have "split_once (CHR '':'') (name @ '': '' @ val) = Some (name, CHR '' '' # val)"
    using tokens by (auto simp: split_once_Some)
  moreover have "hd (header_line (name, val)) \<noteq> 32" "hd (header_line (name, val)) \<noteq> 9"
    using first by (simp_all add: header_line_def name as_bytes_def)
  moreover have "\<not> list_ex (\<lambda>c. code c < 0x20 \<and> c \<noteq> CHR 0x09) val"
    using assms by (auto simp: sent_header_def list_ex_iff not_less)
  moreover have "name \<noteq> [] \<and> list_all is_token_byte name" "trim_matches is_blank (CHR '' '' # val) = val"
    using assms by (simp_all add: sent_header_def trim_leading_blank)
  ultimately show ?thesis by (simp add: parse_header_def parsed)
qed

lemma header_line_nonempty: "header_line kv \<noteq> []"
  by (simp add: header_line_def as_bytes_def)

lemma header_lines_sent:
  assumes "list_all sent_header hs" and "length got + length hs \<le> max_headers l"
    and "count_named ''transfer-encoding'' (lowered hs) = 0" and "count_named ''content-length'' (lowered hs) = 0"
    and "count_named ''host'' (lowered hs) + (if seen then 1 else 0) \<le> 1"
  shows "\<exists>seen'. header_lines l got len seen (map (\<lambda>kv. header_line kv @ [13]) hs @ lines) =
    header_lines l (got @ lowered hs) len seen' lines"
  using assms
proof (induction hs arbitrary: got seen)
  case Nil
  show ?case by auto
next
  case (Cons h hs)
  obtain name val where h: "h = (name, val)" by fastforce
  let ?low = "to_ascii_lowercase name"
  from Cons.prems h have names: "?low \<noteq> ''transfer-encoding''" "?low \<noteq> ''content-length''" "\<not> (?low = ''host'' \<and> seen)"
    by (auto split: if_splits)
  have step: "header_lines l got len seen (map (\<lambda>kv. header_line kv @ [13]) (h # hs) @ lines) =
      header_lines l (got @ [(?low, val)]) len (seen \<or> ?low = ''host'') (map (\<lambda>kv. header_line kv @ [13]) hs @ lines)"
    using Cons.prems(1,2) names parse_header_sent [of name val] by (auto simp: h header_line_nonempty)
  have "\<exists>seen'. header_lines l (got @ [(?low, val)]) len (seen \<or> ?low = ''host'') (map (\<lambda>kv. header_line kv @ [13]) hs @ lines) =
      header_lines l ((got @ [(?low, val)]) @ lowered hs) len seen' lines"
    using Cons.prems h by (intro Cons.IH) (auto split: if_splits)
  with step show ?case by (simp add: h)
qed

text \<open>What the client puts around the caller's headers.\<close>

definition sent_headers :: "str \<Rightarrow> (str \<times> str) list \<Rightarrow> bytes \<Rightarrow> (str \<times> str) list" where
  "sent_headers address headers body =
     (if count_named ''host'' (lowered headers) = 0 then [(''host'', address)] else []) @
     (''connection'', ''close'') # headers @ [(''content-length'', show_nat (length body))]"

lemma no_host: "list_ex (\<lambda>(name, _). to_ascii_lowercase name = ''host'') hs \<longleftrightarrow> count_named ''host'' (lowered hs) \<noteq> 0"
  by (induction hs) (auto split: if_splits)

lemma ended_header_lines: "ended_lines (map header_line hs) = as_bytes (concat (map header_text hs))"
proof (induction hs)
  case Nil
  show ?case by (simp add: as_bytes_def)
next
  case (Cons h hs)
  then show ?case by (simp add: header_line_def header_text_def as_bytes_def crlf_def)
qed

lemma client_send_bytes:
  assumes "client_send address method path headers body = Inr bs"
  shows "bs = ended_lines (as_bytes (method @ '' '' @ path @ '' HTTP/1.1'') # map header_line (sent_headers address headers body))
    @ [13, 10] @ body"
proof -
  let ?sent = "method @ '' '' @ path @ '' HTTP/1.1'' @ crlf @
      (if \<not> list_ex (\<lambda>(name, _). to_ascii_lowercase name = ''host'') headers then header_text (''host'', address) else []) @
      ''connection: close'' @ crlf @ concat (map header_text headers) @ ''content-length: '' @ show_nat (length body) @ crlf @ crlf"
  let ?lines = "(method @ '' '' @ path @ '' HTTP/1.1'') @ crlf @ concat (map header_text (sent_headers address headers body)) @ crlf"
  have "?sent = ?lines" by (simp add: sent_headers_def no_host header_text_def)
  moreover have "as_bytes ?lines =
      ended_lines (as_bytes (method @ '' '' @ path @ '' HTTP/1.1'') # map header_line (sent_headers address headers body)) @ [13, 10]"
    by (simp add: ended_header_lines) (simp add: as_bytes_def crlf_def)
  moreover from assms have "bs = as_bytes ?sent @ body"
    unfolding client_send_def Let_def by (simp only: split: if_split_asm) simp_all
  ultimately show ?thesis by (simp only: append_assoc)
qed

definition sent_line :: "str \<Rightarrow> bool" where
  "sent_line s \<longleftrightarrow> s \<noteq> [] \<and> CHR 0x0D \<notin> set s \<and> CHR 0x0A \<notin> set s"

lemma sent_line_bytes: "sent_line s \<Longrightarrow> as_bytes s \<noteq> [] \<and> 13 \<notin> set (as_bytes s) \<and> 10 \<notin> set (as_bytes s)"
proof -
  assume s: "sent_line s"
  have "13 \<notin> set (as_bytes s)"
  proof
    assume "13 \<in> set (as_bytes s)"
    then obtain c where c: "c \<in> set s" "(of_char c :: byte) = 13" by (auto simp: as_bytes_def)
    then have "unat (of_char c :: byte) = unat (13 :: byte)" by simp
    then have "code c = 13" by simp
    moreover have "char_of (13 :: nat) = CHR 0x0D" by code_simp
    ultimately have "c = CHR 0x0D" by (metis char_of_char)
    with c(1) s show False by (simp add: sent_line_def)
  qed
  with s show ?thesis using as_bytes_newline by (auto simp: sent_line_def as_bytes_def)
qed

lemma sent_header_line: "sent_header kv \<Longrightarrow> sent_line (fst kv @ '': '' @ snd kv)"
  using token_code by (fastforce simp: sent_header_def sent_line_def list_all_iff)

lemma parse_request_line_sent:
  assumes "method \<noteq> []" and "list_all is_token_byte method" and "utf8_valid path" and "CHR '' '' \<notin> set path"
    and "starts_with ''/'' path"
  shows "parse_request_line (as_bytes (method @ '' '' @ path @ '' HTTP/1.1'')) = Inr (method, path)"
proof -
  have tokens: "\<And>c. c \<in> set method \<Longrightarrow> code c < 128 \<and> 32 < code c"
    using assms(2) token_code by (auto simp: list_all_iff)
  then have m: "utf8_valid method" "CHR '' '' \<notin> set method" by (auto intro!: utf8_valid_ascii dest: tokens [of "CHR '' ''"])
  have lits: "utf8_valid '' ''" "utf8_valid '' HTTP/1.1''" by code_simp+
  have "utf8_valid (method @ '' '' @ path @ '' HTTP/1.1'')"
    using m(1) lits assms(3) utf8_valid_append by metis
  moreover have "split_on (CHR '' '') (method @ CHR '' '' # path @ CHR '' '' # ''HTTP/1.1'') = [method, path, ''HTTP/1.1'']"
    using m(2) assms(4) by (simp add: split_on_append split_on_plain)
  ultimately show ?thesis using assms by (simp add: parse_request_line_def from_utf8_as_bytes del: as_bytes_append)
qed

lemma sent_number: "sent_header (''content-length'', show_nat n)" "sent_header (''connection'', ''close'')"
proof -
  have digits: "\<And>c. c \<in> set (show_nat n) \<Longrightarrow> 31 < code c \<and> code c < 128" using show_nat_code by fastforce
  have "\<not> is_blank [c]" if "c \<in> set (show_nat n)" for c
    using show_nat_code [OF that] by (auto simp: is_blank_def)
  then have "trim_matches is_blank (show_nat n) = show_nat n" by (intro trim_matches_id) (use digits in auto)
  moreover have "list_all is_token_byte ''content-length''" by code_simp
  ultimately show "sent_header (''content-length'', show_nat n)"
    using digits by (fastforce simp: sent_header_def intro!: utf8_valid_ascii)
  show "sent_header (''connection'', ''close'')" by code_simp
qed

lemma parse_head_sent:
  assumes "method \<noteq> []" and "list_all is_token_byte method" and "utf8_valid path" and "sent_line path"
    and "CHR '' '' \<notin> set path" and "starts_with ''/'' path" and "split_target path = Inr (p, q)"
    and "list_all sent_header headers" and "sent_header (''host'', address)"
    and "count_named ''transfer-encoding'' (lowered headers) = 0" and "count_named ''content-length'' (lowered headers) = 0"
    and "count_named ''host'' (lowered headers) \<le> 1" and "length headers + 3 \<le> max_headers l" and "length body \<le> usize_max"
  shows "parse_head l (ended_lines (as_bytes (method @ '' '' @ path @ '' HTTP/1.1'')
      # map header_line (sent_headers address headers body)) @ [13, 10]) =
    Inr (method, p, q, lowered (sent_headers address headers body), Some (length body))"
proof -
  let ?hs0 = "(if count_named ''host'' (lowered headers) = 0 then [(''host'', address)] else []) @ (''connection'', ''close'') # headers"
  let ?first = "as_bytes (method @ '' '' @ path @ '' HTTP/1.1'')"
  have hs: "sent_headers address headers body = ?hs0 @ [(''content-length'', show_nat (length body))]"
    by (simp add: sent_headers_def)
  have ok0: "list_all sent_header ?hs0" using assms(8,9) sent_number(2) by simp
  have ok: "list_all sent_header (sent_headers address headers body)" using ok0 sent_number(1) by (simp only: hs list_all_append) simp
  have "sent_line (method @ '' '' @ path @ '' HTTP/1.1'')"
    using assms(2,4) token_code by (fastforce simp: sent_line_def list_all_iff)
  from sent_line_bytes [OF this] have "10 \<notin> set ?first" by simp
  moreover have "10 \<notin> set (header_line kv)" if "kv \<in> set (sent_headers address headers body)" for kv
    using sent_line_bytes [OF sent_header_line] ok that by (simp add: header_line_def list_all_iff)
  ultimately have pieces: "split_on 10 (ended_lines (?first # map header_line (sent_headers address headers body)) @ [13, 10]) =
      map (\<lambda>s. s @ [13]) (?first # map header_line (sent_headers address headers body)) @ [[13], []]"
    by (intro split_ended_lines) auto
  have low: "to_ascii_lowercase ''host'' = ''host''" "to_ascii_lowercase ''connection'' = ''connection''"
    "to_ascii_lowercase ''content-length'' = ''content-length''" by code_simp+
  have "\<exists>seen. header_lines l [] None False (map (\<lambda>kv. header_line kv @ [13]) ?hs0 @
      [header_line (''content-length'', show_nat (length body)) @ [13], [13], []]) =
    header_lines l ([] @ lowered ?hs0) None seen [header_line (''content-length'', show_nat (length body)) @ [13], [13], []]"
    by (rule header_lines_sent [OF ok0]) (use assms(10-13) in \<open>auto simp: low\<close>)
  then obtain seen where steps: "header_lines l [] None False (map (\<lambda>kv. header_line kv @ [13]) ?hs0 @
      [header_line (''content-length'', show_nat (length body)) @ [13], [13], []]) =
    header_lines l (lowered ?hs0) None seen [header_line (''content-length'', show_nat (length body)) @ [13], [13], []]" by auto
  have "list_all is_ascii_digit (show_nat (length body))" using show_nat_digits by (auto simp: list_all_iff)
  then have "parse_content_length (show_nat (length body)) = Inr (length body)"
    using assms(14) by (simp add: parse_content_length_def)
  moreover have "length (lowered ?hs0) \<noteq> max_headers l" using assms(13) by simp
  ultimately have "header_lines l (lowered ?hs0) None seen [header_line (''content-length'', show_nat (length body)) @ [13], [13], []] =
      Inr (lowered (sent_headers address headers body), Some (length body))"
    using parse_header_sent [OF sent_number(1), of "length body"] low(3)
    by (simp add: hs header_line_nonempty)
  with steps have "header_lines l [] None False (map (\<lambda>s. s @ [13]) (map header_line (sent_headers address headers body)) @ [[13], []]) =
      Inr (lowered (sent_headers address headers body), Some (length body))"
    by (simp add: hs o_def)
  moreover have "and_then (strip_cr (?first @ [13])) parse_request_line = Inr (method, path)"
    using parse_request_line_sent [OF assms(1,2,3,5,6)] by (simp only: strip_cr_ended and_then_simps)
  moreover define first where "first = ?first"
  ultimately show ?thesis unfolding parse_head_def pieces
    using assms(7) by (fold first_def) simp
qed

lemma request_of_sent:
  assumes "method \<noteq> []" and "list_all is_token_byte method" and "utf8_valid path" and "sent_line path"
    and "CHR '' '' \<notin> set path" and "starts_with ''/'' path" and "split_target path = Inr (p, q)"
    and "list_all sent_header headers" and "sent_header (''host'', address)"
    and "count_named ''transfer-encoding'' (lowered headers) = 0" and "count_named ''content-length'' (lowered headers) = 0"
    and "count_named ''host'' (lowered headers) \<le> 1" and "length headers + 3 \<le> max_headers l" and "max_body l \<le> usize_max"
    and "client_send address method path headers body = Inr bs" and "length bs \<le> max_head l + length body"
    and "length body \<le> max_body l"
  shows "request_of l (bs @ rest) = Inr (\<lparr>rq_method = method, rq_path = p, rq_query = q,
     rq_headers = lowered (sent_headers address headers body), rq_body = body\<rparr>, rest)"
proof -
  let ?lines = "as_bytes (method @ '' '' @ path @ '' HTTP/1.1'') # map header_line (sent_headers address headers body)"
  define head where "head = ended_lines ?lines @ [13, 10]"
  from client_send_bytes [OF assms(15)] have bs: "bs = head @ body" by (simp add: head_def)
  have body: "length body \<le> usize_max" using assms(14,17) by simp
  have "sent_line (method @ '' '' @ path @ '' HTTP/1.1'')"
    using assms(2,4) token_code by (fastforce simp: sent_line_def list_all_iff)
  moreover have "list_all sent_header (sent_headers address headers body)"
    using assms(8,9) sent_number by (auto simp: sent_headers_def)
  ultimately have lines: "s \<noteq> [] \<and> 13 \<notin> set s" if "s \<in> set ?lines" for s
    using that sent_line_bytes sent_line_bytes [OF sent_header_line] by (auto simp: header_line_def list_all_iff simp del: as_bytes_append)
  from window_at_blank_line [of ?lines "[]"] lines obtain n where
    n: "window_at terminator head = Some n" "n + 4 = length head" by (auto simp: head_def)
  have "length head \<le> max_head l" using assms(16) by (simp add: bs)
  then have "take (max_head l) (bs @ rest) = head @ take (max_head l - length head) (body @ rest)" by (simp add: bs)
  with window_at_append [OF n(1)] have "window_at terminator (take (max_head l) (bs @ rest)) = Some n" by simp
  moreover have "take (n + 4) (bs @ rest) = head" "drop (n + 4) (bs @ rest) = body @ rest" by (simp_all add: bs n(2))
  ultimately show ?thesis
    using parse_head_sent [OF assms(1-13) body, folded head_def] assms(17) by (simp add: request_of_def)
qed

section \<open>Properties\<close>

text \<open>
  C32: The server reads what the client sends: for a method of token characters, an absolute path
  without blanks and headers fit to be sent, at most one of them a host and none a length or a
  transfer encoding, the server reads from any connection that delivers the client's bytes in time
  the same method, the decoded path and query, the client's headers in order with their names
  lowercased, and the body; and it leaves what comes behind the request.
\<close>

theorem server_reads_what_client_sends:
  assumes "client_send address method path headers body = Inr bs" and "smooth l c" and "stream c = bs @ rest"
    and "method \<noteq> []" and "list_all is_token_byte method" and "utf8_valid path" and "sent_line path"
    and "CHR '' '' \<notin> set path" and "starts_with ''/'' path" and "split_target path = Inr (p, q)"
    and "list_all sent_header headers" and "sent_header (''host'', address)"
    and "count_named ''transfer-encoding'' (lowered headers) = 0" and "count_named ''content-length'' (lowered headers) = 0"
    and "count_named ''host'' (lowered headers) \<le> 1" and "length headers + 3 \<le> max_headers l" and "max_body l \<le> usize_max"
    and "length bs \<le> max_head l + length body" and "length body \<le> max_body l"
  shows "fst (request_read l c) = Inr \<lparr>rq_method = method, rq_path = p, rq_query = q,
      rq_headers = lowered (sent_headers address headers body), rq_body = body\<rparr> \<and>
    stream (snd (request_read l c)) = rest"
  using request_read_smooth [OF assms(2)] request_of_sent [OF assms(4-17,1,18,19), of rest] assms(3) by simp

text \<open>
  C33: The client reads what the server writes: status, headers and body of an answer whose headers are
  plain come back unchanged from any connection that delivers them in time, followed by the length
  and the \<open>connection: close\<close> the server adds.
\<close>

theorem client_reads_what_server_writes:
  assumes "smooth l c" and "stream c = write_to r" and "rs_status r \<le> u16_max"
    and "list_all (plain_header l) (rs_headers r)" and "\<And>name val. (name, val) \<in> set (rs_headers r) \<Longrightarrow>
      to_ascii_lowercase name = name \<and> name \<noteq> ''content-length''"
    and "length (rs_headers r) + 2 \<le> max_headers l" and "length (rs_body r) \<le> max_body l"
    and "max_body l \<le> usize_max" and "64 \<le> max_head l"
  shows "fst (read_response l c) = Inr \<lparr>cr_status = rs_status r,
     cr_headers = rs_headers r @ [(''content-length'', show_nat (length (rs_body r))), (''connection'', ''close'')],
     cr_body = rs_body r\<rparr>"
  by (rule answer_read_back [OF assms(1-9)])

text \<open>One exchange, the bytes of both directions delivered one at a time.\<close>

definition dripping :: "bytes \<Rightarrow> conn" where
  "dripping bs = \<lparr>buffered = [], arrivals = map (\<lambda>b. Chunk [b]) bs, elapsed = \<lambda>_. 0, asks = 0\<rparr>"

lemma dripping_simps: "smooth l (dripping bs)" "stream (dripping bs) = bs"
proof -
  have "concat (map (chunk_bytes \<circ> (\<lambda>b. Chunk [b])) bs) = bs" by (induction bs) auto
  then show "stream (dripping bs) = bs" by (simp add: dripping_def stream_def)
qed (auto simp: dripping_def smooth_def)

theorem server_reads_what_client_sends_witness:
  "\<exists>bs. client_send ''127.0.0.1:8787'' ''PUT'' ''/v1/x?a=b%21'' [(''Authorization'', ''Bearer t'')] [104, 105] = Inr bs \<and>
     fst (request_read default_limits (dripping bs)) = Inr \<lparr>rq_method = ''PUT'', rq_path = ''/v1/x'', rq_query = [(''a'', ''b!'')],
       rq_headers = [(''host'', ''127.0.0.1:8787''), (''connection'', ''close''), (''authorization'', ''Bearer t''),
         (''content-length'', ''2'')], rq_body = [104, 105]\<rparr>"
proof -
  let ?hs = "[(''Authorization'', ''Bearer t'')]" and ?addr = "''127.0.0.1:8787''" and ?body = "[104, 105] :: bytes"
  have "\<exists>bs. client_send ?addr ''PUT'' ''/v1/x?a=b%21'' ?hs ?body = Inr bs \<and> length bs \<le> 8192"
    by (simp add: client_send_def has_line_break_def Let_def header_text_def crlf_def to_ascii_lowercase_def is_ascii_uppercase_def show_nat.simps)
  then obtain bs where bs: "client_send ?addr ''PUT'' ''/v1/x?a=b%21'' ?hs ?body = Inr bs" "length bs \<le> 8192" by blast
  have target: "split_target ''/v1/x?a=b%21'' = Inr (''/v1/x'', [(''a'', ''b!'')])" by code_simp
  have checks: "list_all is_token_byte ''PUT''" "utf8_valid ''/v1/x?a=b%21''" "sent_line ''/v1/x?a=b%21''"
    "starts_with ''/'' ''/v1/x?a=b%21''" "list_all sent_header ?hs" "sent_header (''host'', ?addr)"
    "count_named ''transfer-encoding'' (lowered ?hs) = 0" "count_named ''content-length'' (lowered ?hs) = 0"
    "count_named ''host'' (lowered ?hs) \<le> 1" by code_simp+
  have all: "lowered (sent_headers ?addr ?hs ?body) =
      [(''host'', ?addr), (''connection'', ''close''), (''authorization'', ''Bearer t''), (''content-length'', ''2'')]" by code_simp
  have stream: "stream (dripping bs) = bs @ []" by (simp add: dripping_simps)
  have "fst (request_read default_limits (dripping bs)) = Inr \<lparr>rq_method = ''PUT'', rq_path = ''/v1/x'', rq_query = [(''a'', ''b!'')],
      rq_headers = lowered (sent_headers ?addr ?hs ?body), rq_body = ?body\<rparr>"
    by (rule conjunct1 [OF server_reads_what_client_sends [OF bs(1) dripping_simps(1) stream _ checks(1-3) _ checks(4) target checks(5-9)]])
      (use bs(2) in \<open>simp_all add: default_limits_def usize_max_def\<close>)
  with bs(1) all show ?thesis by auto
qed

theorem client_reads_what_server_writes_witness:
  "fst (read_response default_limits (dripping (write_to (response_json 404 ''{}'')))) =
     Inr \<lparr>cr_status = 404, cr_headers = [(''content-type'', ''application/json''), (''content-length'', ''2''), (''connection'', ''close'')],
       cr_body = [123, 125]\<rparr>"
proof -
  have r: "response_json 404 ''{}'' = \<lparr>rs_status = 404, rs_headers = [(''content-type'', ''application/json'')], rs_body = [123, 125]\<rparr>"
    by code_simp
  have low: "to_ascii_lowercase ''content-type'' = ''content-type''" by code_simp
  have two: "show_nat (Suc (Suc 0)) = ''2''" by code_simp
  have big: "64 \<le> max_head default_limits" "2 \<le> u16_max" by (simp_all add: default_limits_def u16_max_def)
  have "fst (read_response default_limits (dripping (write_to (response_json 404 ''{}'')))) =
     Inr \<lparr>cr_status = rs_status (response_json 404 ''{}''),
       cr_headers = rs_headers (response_json 404 ''{}'') @
         [(''content-length'', show_nat (length (rs_body (response_json 404 ''{}'')))), (''connection'', ''close'')],
       cr_body = rs_body (response_json 404 ''{}'')\<rparr>"
    by (rule client_reads_what_server_writes [OF dripping_simps])
      (use plain_literal_header(2) [OF big(1)] low in \<open>auto simp: r default_limits_def usize_max_def u16_max_def\<close>)
  then show ?thesis by (simp add: r two)
qed

end
