(* ===== verification/Api.thy ===== *)
theory Api
  imports Vault Rate_Limit Http_Response
begin

text \<open>
  \<open>ls-server/src/api.rs\<close>: the HTTP layer over the vault. The state holds the vault with the poison
  flag of its lock and the two rate limiters; a handler takes a request to a response, the state it
  leaves and the world it leaves. The text of an operating system error and the printed log lines
  are outside the model: the former is a parameter, the latter are left out.
\<close>

definition session_seconds :: int where "session_seconds = 12 * 3600"
definition ceremony_budget :: nat where "ceremony_budget = 60"
definition version :: str where "version = ''0.1.0''"

record api =
  ap_vault :: vault
  ap_poisoned :: bool
  ap_logins :: rate_limiter
  ap_ceremonies :: rate_limiter

definition new_api :: "vault \<Rightarrow> api" where
  "new_api v = \<lparr>ap_vault = v, ap_poisoned = False, ap_logins = default_limiter,
     ap_ceremonies = with_budget ceremony_budget\<rparr>"

section \<open>Errors as text\<close>

definition show_store_error :: "(io_error \<Rightarrow> str) \<Rightarrow> store_error \<Rightarrow> str" where
  "show_store_error io_text e = (case e of
     NotALog \<Rightarrow> ''not a localsecrets log''
   | store_error.UnsupportedVersion v \<Rightarrow> ''log format version '' @ show_nat (unat v) @ '' is newer than this build''
   | Unreadable n \<Rightarrow> ''record '' @ show_nat n @ '' could not be authenticated''
   | RecordTooLarge n m \<Rightarrow> ''record of '' @ show_nat n @ '' bytes exceeds the limit of '' @ show_nat m
   | StoreCrypto \<Rightarrow> ''could not encrypt a record''
   | MalformedEvent what \<Rightarrow> ''record is not a usable event: '' @ what
   | StoreBroken \<Rightarrow> ''an earlier write failed; the store must be reopened''
   | Corrupt at why \<Rightarrow> ''the store is damaged at byte '' @ show_nat at @ '': '' @ why
   | StoreIo io \<Rightarrow> ''store file failed: '' @ io_text io)"

definition show_vault_error :: "(io_error \<Rightarrow> str) \<Rightarrow> vault_error \<Rightarrow> str" where
  "show_vault_error io_text e = (case e of
     VaultSealed \<Rightarrow> ''the vault is sealed''
   | AlreadyInitialized \<Rightarrow> ''already initialised''
   | NotInitialized \<Rightarrow> ''not initialised''
   | UnsealFailed \<Rightarrow> ''those shares do not open this vault''
   | UnreadableBarrier why \<Rightarrow> ''the store holds a barrier this build cannot read: '' @ why
   | InitIncomplete \<Rightarrow> ''initialisation could not be completed; remove the data directory and run init again''
   | BadShare \<Rightarrow> ''that is not a valid unseal share''
   | BadCredentials \<Rightarrow> ''wrong email or password''
   | Forbidden \<Rightarrow> ''not allowed''
   | NotFound what \<Rightarrow> ''no such '' @ what
   | Conflict what \<Rightarrow> ''that '' @ what @ '' already exists''
   | Invalid what \<Rightarrow> ''invalid '' @ what
   | ValueTooLarge n m \<Rightarrow> ''a secret value of '' @ show_nat n @ '' bytes exceeds the limit of '' @ show_nat m
   | VaultCrypto \<Rightarrow> ''a cryptographic operation failed''
   | VaultStore s \<Rightarrow> show_store_error io_text s)"

definition vault_status :: "vault_error \<Rightarrow> nat" where
  "vault_status e = (case e of
     VaultSealed \<Rightarrow> 503
   | AlreadyInitialized \<Rightarrow> 409
   | Conflict _ \<Rightarrow> 409
   | NotInitialized \<Rightarrow> 412
   | BadCredentials \<Rightarrow> 401
   | Forbidden \<Rightarrow> 403
   | NotFound _ \<Rightarrow> 404
   | UnsealFailed \<Rightarrow> 400
   | BadShare \<Rightarrow> 400
   | Invalid _ \<Rightarrow> 400
   | ValueTooLarge _ _ \<Rightarrow> 413
   | UnreadableBarrier _ \<Rightarrow> 500
   | InitIncomplete \<Rightarrow> 500
   | VaultCrypto \<Rightarrow> 500
   | VaultStore _ \<Rightarrow> 500)"

definition error_response :: "nat \<Rightarrow> str \<Rightarrow> response" where
  "error_response status message = response_json status (render (json_object [(''error'', JString message)]))"

definition vault_error_response :: "(io_error \<Rightarrow> str) \<Rightarrow> vault_error \<Rightarrow> response" where
  "vault_error_response io_text e = error_response (vault_status e) (show_vault_error io_text e)"

definition method_not_allowed :: response where
  "method_not_allowed = error_response 405 ''method not allowed''"

section \<open>Refusing what did not mean us\<close>

definition is_this_machine :: "str \<Rightarrow> bool" where
  "is_this_machine host =
     (let host = to_ascii_lowercase (trim host);
          name = (case strip_prefix ''['' host of
              Some rest \<Rightarrow> map_option fst (split_once (CHR '']'') rest)
            | None \<Rightarrow> Some (hd (split_on (CHR '':'') host)))
      in case name of
           None \<Rightarrow> False
         | Some name \<Rightarrow> name = ''localhost'' \<or> name = ''127.0.0.1'' \<or> name = ''::1'' \<or> starts_with ''127.'' name)"

definition refuse_elsewhere :: "request \<Rightarrow> response option" where
  "refuse_elsewhere rq =
     (let addressed_here = (case request_header ''host'' rq of Some host \<Rightarrow> is_this_machine host | None \<Rightarrow> False);
          from_a_page = (case request_header ''origin'' rq of Some origin \<Rightarrow> origin \<noteq> [] \<and> origin \<noteq> ''null'' | None \<Rightarrow> False)
      in if addressed_here \<and> \<not> from_a_page then None
         else Some (error_response 421 ''this server answers only to its own address''))"

definition refuse_cross_origin :: "request \<Rightarrow> response option" where
  "refuse_cross_origin rq =
     (if rq_method rq = ''GET'' \<or> rq_method rq = ''HEAD'' \<or> rq_method rq = ''OPTIONS'' then None
      else
        let json = (case request_header ''content-type'' rq of
            None \<Rightarrow> False
          | Some val \<Rightarrow> to_ascii_lowercase (trim (hd (split_on (CHR '';'') val))) = ''application/json'')
        in if json then None
           else Some (error_response 415 ''this endpoint needs a content-type of application/json''))"

section \<open>Reading the request\<close>

definition bearer :: "request \<Rightarrow> str option" where
  "bearer rq =
     Option.bind (request_header ''authorization'' rq) (\<lambda>val.
     Option.bind (strip_prefix ''Bearer '' val) (\<lambda>rest.
       let token = trim rest in if token \<noteq> [] then Some token else None))"

definition body_of :: "request \<Rightarrow> response + json" where
  "body_of rq =
     (if rq_body rq = [] then Inr (JObject [])
      else (case body_text rq of
          None \<Rightarrow> Inl (error_response 400 ''body is not UTF-8'')
        | Some s \<Rightarrow> map_err (\<lambda>_. error_response 400 ''body is not valid JSON'') (json_parse s)))"

definition field_text :: "json \<Rightarrow> str \<Rightarrow> str option" where
  "field_text body name = Option.bind (json_get name body) as_str"

definition share_parameter :: "json \<Rightarrow> str \<Rightarrow> response + u8" where
  "share_parameter body name =
     (case json_get name body of
        None \<Rightarrow> Inr 1
      | Some JNull \<Rightarrow> Inr 1
      | Some (JInt n) \<Rightarrow>
          if 0 \<le> n \<and> n \<le> 255 then Inr (word_of_int n)
          else Inl (error_response 400 ''threshold and shares must be between 1 and 255'')
      | Some _ \<Rightarrow> Inl (error_response 400 ''threshold and shares must be numbers''))"

definition share_parameters :: "json \<Rightarrow> response + u8 \<times> u8" where
  "share_parameters body =
     and_then (share_parameter body ''threshold'') (\<lambda>threshold.
     and_then (share_parameter body ''shares'') (\<lambda>shares. Inr (threshold, shares)))"

definition json_response :: "nat \<Rightarrow> (str \<times> json) list \<Rightarrow> response" where
  "json_response status fs = response_json status (render (json_object fs))"

definition unseal_body :: "bool \<Rightarrow> nat \<Rightarrow> u8 \<Rightarrow> (str \<times> json) list" where
  "unseal_body sealed progress threshold =
     [(''sealed'', JBool sealed), (''progress'', json_of_usize progress), (''threshold'', JInt (uint threshold))]"

section \<open>Taking the locks\<close>

text \<open>
  A handler that panicked while it held the vault left the flag; taking the lock again clears it and
  seals the vault.
\<close>

definition lock_vault :: "api \<Rightarrow> api" where
  "lock_vault a =
     (if ap_poisoned a then a\<lparr>ap_poisoned := False, ap_vault := vault_seal (ap_vault a)\<rparr> else a)"

type_synonym api_op = "api \<Rightarrow> world \<Rightarrow> response \<times> api \<times> world"

definition answer :: "response \<Rightarrow> api_op" where
  "answer r a w = (r, a, w)"

text \<open>An operation of the vault under its lock, its result turned into a response.\<close>

definition on_vault :: "'a vault_op \<Rightarrow> (vault_error + 'a \<Rightarrow> response) \<Rightarrow> api_op" where
  "on_vault m f a w =
     (let a1 = lock_vault a in
      case m (ap_vault a1) w of (r, v, w1) \<Rightarrow> (f r, a1\<lparr>ap_vault := v\<rparr>, w1))"

definition responding :: "(io_error \<Rightarrow> str) \<Rightarrow> vault_error + response \<Rightarrow> response" where
  "responding io_text r = (case r of Inr response \<Rightarrow> response | Inl e \<Rightarrow> vault_error_response io_text e)"

definition authed ::
  "'phc crypto \<Rightarrow> (io_error \<Rightarrow> str) \<Rightarrow> request \<Rightarrow> (caller \<Rightarrow> response vault_op) \<Rightarrow> api_op" where
  "authed cr io_text rq work a w =
     (let a1 = lock_vault a; v = ap_vault a1 in
      if is_sealed v then (error_response 503 ''the vault is sealed'', a1, w)
      else (case bearer rq of
          None \<Rightarrow> (error_response 401 ''a bearer token is required'', a1, w)
        | Some token \<Rightarrow>
            (case authenticate cr token v w of
               (None, w1) \<Rightarrow> (error_response 401 ''that token is not usable'', a1, w1)
             | (Some caller, w1) \<Rightarrow>
                 (case work caller v w1 of (r, v1, w2) \<Rightarrow> (responding io_text r, a1\<lparr>ap_vault := v1\<rparr>, w2)))))"

text \<open>A request whose body or parameters are refused never reaches the vault.\<close>

definition with_parts :: "response + 'a \<Rightarrow> ('a \<Rightarrow> api_op) \<Rightarrow> api_op" where
  "with_parts r f = (case r of Inl response \<Rightarrow> answer response | Inr x \<Rightarrow> f x)"

definition only :: "str \<Rightarrow> str \<Rightarrow> api_op \<Rightarrow> api_op" where
  "only method expected work = (if method = expected then work else answer method_not_allowed)"

definition ceremony_allowed :: "api \<Rightarrow> world \<Rightarrow> bool \<times> api \<times> world" where
  "ceremony_allowed a w =
     (case allow ''sys'' (ap_ceremonies a) w of ((ok, rl), w1) \<Rightarrow> (ok, a\<lparr>ap_ceremonies := rl\<rparr>, w1))"

definition login_allowed :: "str \<Rightarrow> api \<Rightarrow> world \<Rightarrow> bool \<times> api \<times> world" where
  "login_allowed email a w =
     (case allow email (ap_logins a) w of ((ok, rl), w1) \<Rightarrow> (ok, a\<lparr>ap_logins := rl\<rparr>, w1))"

definition too_many :: response where
  "too_many = error_response 429 ''too many attempts, try again shortly''"

section \<open>System\<close>

definition health :: api_op where
  "health a w =
     (let a1 = lock_vault a; v = ap_vault a1 in
      (json_response 200 [(''sealed'', JBool (is_sealed v)), (''initialized'', JBool (is_initialized v)),
         (''version'', JString version)], a1, w))"

definition api_init :: "'phc crypto \<Rightarrow> (io_error \<Rightarrow> str) \<Rightarrow> request \<Rightarrow> api_op" where
  "api_init cr io_text rq a w =
     (case ceremony_allowed a w of (allowed, a1, w1) \<Rightarrow>
      if \<not> allowed then (too_many, a1, w1)
      else with_parts (body_of rq) (\<lambda>body. with_parts (share_parameters body) (\<lambda>(threshold, shares).
        on_vault (vault_init cr threshold shares) (\<lambda>r. responding io_text (map_sum id (\<lambda>outcome.
          json_response 200
            [(''shares'', JArray (map JString (io_shares outcome))),
             (''threshold'', JInt (uint (io_threshold outcome))),
             (''root_token'', JString (io_root_token outcome))]) r)))) a1 w1)"

definition api_rekey :: "'phc crypto \<Rightarrow> (io_error \<Rightarrow> str) \<Rightarrow> request \<Rightarrow> api_op" where
  "api_rekey cr io_text rq =
     with_parts (body_of rq) (\<lambda>body. with_parts (share_parameters body) (\<lambda>(threshold, shares).
       authed cr io_text rq (\<lambda>caller. vbind (rekey cr caller threshold shares) (\<lambda>outcome.
         vret (json_response 200
           [(''shares'', JArray (map JString (io_shares outcome))),
            (''threshold'', JInt (uint (io_threshold outcome)))])))))"

definition api_unseal :: "'phc crypto \<Rightarrow> (io_error \<Rightarrow> str) \<Rightarrow> request \<Rightarrow> api_op" where
  "api_unseal cr io_text rq a w =
     (case ceremony_allowed a w of (allowed, a1, w1) \<Rightarrow>
      if \<not> allowed then (too_many, a1, w1)
      else with_parts (body_of rq) (\<lambda>body.
        if Option.bind (json_get ''reset'' body) as_bool = Some True
        then on_vault (\<lambda>v w. let v1 = reset_unseal v in
               (Inr (is_sealed v1, case vault_threshold v1 of Some t \<Rightarrow> t | None \<Rightarrow> 0), v1, w)) (\<lambda>r.
             responding io_text (map_sum id (\<lambda>(sealed, threshold). json_response 200 (unseal_body sealed 0 threshold)) r))
        else (\<lambda>a w.
          let a1 = lock_vault a in
          (case field_text body ''share'' of
             None \<Rightarrow> (error_response 400 ''a share is required'', a1, w)
           | Some share \<Rightarrow>
               on_vault (submit_share cr share) (\<lambda>r. responding io_text (map_sum id (\<lambda>status.
                 json_response 200 (unseal_body (us_sealed status) (us_progress status) (us_threshold status))) r)) a1 w))) a1 w1)"

section \<open>Users and sessions\<close>

definition api_create_user :: "'phc crypto \<Rightarrow> (io_error \<Rightarrow> str) \<Rightarrow> request \<Rightarrow> api_op" where
  "api_create_user cr io_text rq =
     with_parts (body_of rq) (\<lambda>body.
       case (field_text body ''email'', field_text body ''password'') of
         (Some email, Some password) \<Rightarrow>
           authed cr io_text rq (\<lambda>caller. vbind (create_user cr caller email password) (\<lambda>i.
             vret (json_response 201 [(''id'', JString i)])))
       | _ \<Rightarrow> answer (error_response 400 ''email and password are required''))"

definition api_login :: "'phc crypto \<Rightarrow> (io_error \<Rightarrow> str) \<Rightarrow> request \<Rightarrow> api_op" where
  "api_login cr io_text rq =
     with_parts (body_of rq) (\<lambda>body.
       case (field_text body ''email'', field_text body ''password'') of
         (Some email, Some password) \<Rightarrow> (\<lambda>a w.
           (case login_allowed email a w of (allowed, a1, w1) \<Rightarrow>
            if \<not> allowed then (too_many, a1, w1)
            else
              let a2 = lock_vault a1 in
              (case login cr email password session_seconds (ap_vault a2) w1 of
                 (Inr token, v, w2) \<Rightarrow>
                   (json_response 200 [(''token'', JString token)],
                    a2\<lparr>ap_vault := v, ap_logins := succeeded email (ap_logins a2)\<rparr>, w2)
               | (Inl e, v, w2) \<Rightarrow> (vault_error_response io_text e, a2\<lparr>ap_vault := v\<rparr>, w2))))
       | _ \<Rightarrow> answer (error_response 400 ''email and password are required''))"

definition vauthenticate :: "'phc crypto \<Rightarrow> str \<Rightarrow> caller option vault_op" where
  "vauthenticate cr token v w = (case authenticate cr token v w of (c, w1) \<Rightarrow> (Inr c, v, w1))"

definition api_issue_token :: "'phc crypto \<Rightarrow> (io_error \<Rightarrow> str) \<Rightarrow> request \<Rightarrow> api_op" where
  "api_issue_token cr io_text rq =
     with_parts (body_of rq) (\<lambda>body.
       case (field_text body ''project'', field_text body ''environment'') of
         (Some project, Some environment) \<Rightarrow>
           (let label = (case field_text body ''label'' of Some l \<Rightarrow> l | None \<Rightarrow> ''machine'');
                ttl = Option.bind (json_get ''ttl_seconds'' body) as_i64
            in authed cr io_text rq (\<lambda>caller.
                 vbind (issue_machine_token cr caller project environment label ttl) (\<lambda>token.
                 vbind (vauthenticate cr token) (\<lambda>known.
                   vret (json_response 201
                     [(''token'', JString token),
                      (''id'', JString (case known of Some c \<Rightarrow> ca_token_id c | None \<Rightarrow> []))])))))
       | _ \<Rightarrow> answer (error_response 400 ''project and environment are required''))"

section \<open>Projects and environments\<close>

definition slug_and_name :: "json \<Rightarrow> (str \<times> str) option" where
  "slug_and_name body =
     map_option (\<lambda>slug. (slug, case field_text body ''name'' of Some name \<Rightarrow> name | None \<Rightarrow> slug)) (field_text body ''slug'')"

definition api_create_project :: "'phc crypto \<Rightarrow> (io_error \<Rightarrow> str) \<Rightarrow> request \<Rightarrow> api_op" where
  "api_create_project cr io_text rq =
     with_parts (body_of rq) (\<lambda>body.
       case slug_and_name body of
         None \<Rightarrow> answer (error_response 400 ''a slug is required'')
       | Some (slug, name) \<Rightarrow>
           authed cr io_text rq (\<lambda>caller. vbind (create_project cr caller slug name) (\<lambda>i.
             vret (json_response 201 [(''id'', JString i), (''slug'', JString slug)]))))"

definition api_create_environment :: "'phc crypto \<Rightarrow> (io_error \<Rightarrow> str) \<Rightarrow> request \<Rightarrow> str \<Rightarrow> api_op" where
  "api_create_environment cr io_text rq project =
     with_parts (body_of rq) (\<lambda>body.
       case slug_and_name body of
         None \<Rightarrow> answer (error_response 400 ''a slug is required'')
       | Some (slug, name) \<Rightarrow>
           authed cr io_text rq (\<lambda>caller. vbind (create_environment cr caller project slug name) (\<lambda>i.
             vret (json_response 201 [(''id'', JString i), (''slug'', JString slug)]))))"

section \<open>Secrets\<close>

definition stored_text :: "bytes \<Rightarrow> vault_error + str" where
  "stored_text val = ok_or (Invalid ''stored value is not text'') (from_utf8 val)"

definition api_get_secret :: "'phc crypto \<Rightarrow> (io_error \<Rightarrow> str) \<Rightarrow> request \<Rightarrow> str \<Rightarrow> str \<Rightarrow> str \<Rightarrow> api_op" where
  "api_get_secret cr io_text rq project environment key =
     authed cr io_text rq (\<lambda>caller.
       vbind (get_secret cr caller project environment key) (\<lambda>val.
       vbind (vlook (\<lambda>_. stored_text val)) (\<lambda>s.
         vret (json_response 200 [(''key'', JString key), (''value'', JString s)]))))"

definition api_put_secret :: "'phc crypto \<Rightarrow> (io_error \<Rightarrow> str) \<Rightarrow> request \<Rightarrow> str \<Rightarrow> str \<Rightarrow> str \<Rightarrow> api_op" where
  "api_put_secret cr io_text rq project environment key =
     with_parts (body_of rq) (\<lambda>body.
       case field_text body ''value'' of
         None \<Rightarrow> answer (error_response 400 ''a value is required'')
       | Some val \<Rightarrow>
           authed cr io_text rq (\<lambda>caller.
             vbind (set_secret cr caller project environment key (as_bytes val)) (\<lambda>_. vret (response_new 204 []))))"

text \<open>The two loops of a batch: every entry is checked, then every entry is written.\<close>

primrec check_all :: "caller \<Rightarrow> str \<Rightarrow> str \<Rightarrow> (str \<times> str) list \<Rightarrow> unit vault_op" where
  "check_all c project environment [] = vret ()"
| "check_all c project environment (e # es) =
     vbind (vlook (check_secret c project environment (fst e) (as_bytes (snd e)))) (\<lambda>_. check_all c project environment es)"

primrec set_all :: "'phc crypto \<Rightarrow> caller \<Rightarrow> str \<Rightarrow> str \<Rightarrow> (str \<times> str) list \<Rightarrow> unit vault_op" where
  "set_all cr c project environment [] = vret ()"
| "set_all cr c project environment (e # es) =
     vbind (set_secret cr c project environment (fst e) (as_bytes (snd e))) (\<lambda>_. set_all cr c project environment es)"

definition batch_entries :: "json \<Rightarrow> response + (str \<times> str) list" where
  "batch_entries body =
     (case json_get ''secrets'' body of
        Some (JObject pairs) \<Rightarrow>
          traverse (\<lambda>(key, val). and_then (ok_or (error_response 400 ''every value must be text'') (as_str val)) (\<lambda>s. Inr (key, s))) pairs
      | _ \<Rightarrow> Inl (error_response 400 ''secrets must be an object of key to value''))"

definition api_set_many :: "'phc crypto \<Rightarrow> (io_error \<Rightarrow> str) \<Rightarrow> request \<Rightarrow> str \<Rightarrow> str \<Rightarrow> api_op" where
  "api_set_many cr io_text rq project environment =
     with_parts (body_of rq) (\<lambda>body. with_parts (batch_entries body) (\<lambda>entries.
       authed cr io_text rq (\<lambda>caller.
         vbind (check_all caller project environment entries) (\<lambda>_.
         vbind (set_all cr caller project environment entries) (\<lambda>_. vret (response_new 204 []))))))"

definition api_list_secrets :: "'phc crypto \<Rightarrow> (io_error \<Rightarrow> str) \<Rightarrow> request \<Rightarrow> str \<Rightarrow> str \<Rightarrow> api_op" where
  "api_list_secrets cr io_text rq project environment =
     authed cr io_text rq (\<lambda>caller.
       vbind (list_secrets cr caller project environment) (\<lambda>secrets.
       vbind (vlook (\<lambda>_. traverse (\<lambda>(key, val). and_then (stored_text val) (\<lambda>s. Inr (key, JString s))) secrets)) (\<lambda>fs.
         vret (json_response 200 [(''secrets'', JObject fs)]))))"

definition audit_json :: "audit_entry \<Rightarrow> json" where
  "audit_json e = json_object
     [(''at'', JString (to_rfc3339 (au_at e))), (''actor'', JString (au_actor e)), (''action'', JString (au_action e)),
      (''target'', JString (au_target e)), (''outcome'', JString (au_outcome e))]"

definition api_audit :: "'phc crypto \<Rightarrow> (io_error \<Rightarrow> str) \<Rightarrow> request \<Rightarrow> api_op" where
  "api_audit cr io_text rq =
     authed cr io_text rq (\<lambda>caller. vbind (audit_trail cr caller) (\<lambda>entries.
       vret (json_response 200 [(''entries'', JArray (map audit_json entries))])))"

section \<open>Routing\<close>

datatype endpoint =
    Health | Init | Unseal | Rekey | Seal | Users | Login | Logout | Audit | Tokens
  | TokenNamed str
  | Projects
  | Environments str
  | Secrets str str
  | SecretNamed str str str
  | Nowhere

definition path_segments :: "str \<Rightarrow> str list" where
  "path_segments path = filter (\<lambda>part. part \<noteq> []) (split_on (CHR ''/'') path)"

definition endpoint_of :: "str list \<Rightarrow> endpoint" where
  "endpoint_of segments =
     (if segments = [''v1'', ''sys'', ''health''] then Health
      else if segments = [''v1'', ''sys'', ''init''] then Init
      else if segments = [''v1'', ''sys'', ''unseal''] then Unseal
      else if segments = [''v1'', ''sys'', ''rekey''] then Rekey
      else if segments = [''v1'', ''sys'', ''seal''] then Seal
      else if segments = [''v1'', ''users''] then Users
      else if segments = [''v1'', ''auth'', ''login''] then Login
      else if segments = [''v1'', ''auth'', ''logout''] then Logout
      else if segments = [''v1'', ''audit''] then Audit
      else if segments = [''v1'', ''tokens''] then Tokens
      else if segments = [''v1'', ''projects''] then Projects
      else (case segments of
          [v, word, i] \<Rightarrow> if v = ''v1'' \<and> word = ''tokens'' then TokenNamed i else Nowhere
        | [v, w1, project, w2] \<Rightarrow>
            if v = ''v1'' \<and> w1 = ''projects'' \<and> w2 = ''envs'' then Environments project else Nowhere
        | [v, w1, project, w2, environment, w3] \<Rightarrow>
            if v = ''v1'' \<and> w1 = ''projects'' \<and> w2 = ''envs'' \<and> w3 = ''secrets''
            then Secrets project environment else Nowhere
        | [v, w1, project, w2, environment, w3, key] \<Rightarrow>
            if v = ''v1'' \<and> w1 = ''projects'' \<and> w2 = ''envs'' \<and> w3 = ''secrets''
            then SecretNamed project environment key else Nowhere
        | _ \<Rightarrow> Nowhere))"

definition slugs_response :: "str \<Rightarrow> (vault \<Rightarrow> vault_error + str list) \<Rightarrow> response vault_op" where
  "slugs_response name f = vbind (vlook f) (\<lambda>slugs. vret (json_response 200 [(name, JArray (map JString slugs))]))"

text \<open>The handler of an endpoint, for a method; \<open>route\<close> refuses what did not mean this server first.\<close>

definition dispatch :: "'phc crypto \<Rightarrow> (io_error \<Rightarrow> str) \<Rightarrow> request \<Rightarrow> endpoint \<Rightarrow> str \<Rightarrow> api_op" where
  "dispatch cr io_text rq endpoint method =
     (case endpoint of
        Health \<Rightarrow> only method ''GET'' health
      | Init \<Rightarrow> only method ''POST'' (api_init cr io_text rq)
      | Unseal \<Rightarrow> only method ''POST'' (api_unseal cr io_text rq)
      | Rekey \<Rightarrow> only method ''POST'' (api_rekey cr io_text rq)
      | Seal \<Rightarrow> only method ''POST'' (authed cr io_text rq (\<lambda>caller. vbind (seal_as caller) (\<lambda>_.
          vret (response_json 200 ''{\"sealed\":true}''))))
      | Users \<Rightarrow> only method ''POST'' (api_create_user cr io_text rq)
      | Login \<Rightarrow> only method ''POST'' (api_login cr io_text rq)
      | Logout \<Rightarrow> only method ''POST'' (authed cr io_text rq (\<lambda>caller.
          vbind (revoke_token cr caller (ca_token_id caller)) (\<lambda>_. vret (response_json 200 ''{\"ok\":true}''))))
      | Audit \<Rightarrow> only method ''GET'' (api_audit cr io_text rq)
      | Tokens \<Rightarrow> only method ''POST'' (api_issue_token cr io_text rq)
      | TokenNamed i \<Rightarrow> only method ''DELETE'' (authed cr io_text rq (\<lambda>caller.
          vbind (revoke_token cr caller i) (\<lambda>_. vret (response_new 204 []))))
      | Projects \<Rightarrow>
          if method = ''GET'' then authed cr io_text rq (\<lambda>caller. slugs_response ''projects'' (project_slugs caller))
          else if method = ''POST'' then api_create_project cr io_text rq
          else answer method_not_allowed
      | Environments project \<Rightarrow>
          if method = ''GET''
          then authed cr io_text rq (\<lambda>caller. slugs_response ''environments'' (environment_slugs caller project))
          else if method = ''POST'' then api_create_environment cr io_text rq project
          else answer method_not_allowed
      | Secrets project environment \<Rightarrow>
          if method = ''GET'' then api_list_secrets cr io_text rq project environment
          else if method = ''POST'' then api_set_many cr io_text rq project environment
          else answer method_not_allowed
      | SecretNamed project environment key \<Rightarrow>
          if method = ''GET'' then api_get_secret cr io_text rq project environment key
          else if method = ''PUT'' then api_put_secret cr io_text rq project environment key
          else if method = ''DELETE'' then authed cr io_text rq (\<lambda>caller.
            vbind (delete_secret cr caller project environment key) (\<lambda>_. vret (response_new 204 [])))
          else answer method_not_allowed
      | Nowhere \<Rightarrow> answer (error_response 404 ''not found''))"

definition route :: "'phc crypto \<Rightarrow> (io_error \<Rightarrow> str) \<Rightarrow> request \<Rightarrow> api_op" where
  "route cr io_text rq =
     (case refuse_elsewhere rq of
        Some refusal \<Rightarrow> answer refusal
      | None \<Rightarrow>
          (case refuse_cross_origin rq of
             Some refusal \<Rightarrow> answer refusal
           | None \<Rightarrow> dispatch cr io_text rq (endpoint_of (path_segments (rq_path rq))) (rq_method rq)))"

end
