(* ===== verification/Api_Safety.thy ===== *)
theory Api_Safety
  imports Api Vault_Audit
begin

text \<open>
  What the HTTP layer adds up to: whoever calls, in whatever order, and even if handlers panic
  halfway, the vault stays in step with its file; a request without a usable token gets an error and
  changes nothing; what a client reads over HTTP is what the vault holds; a batch is checked before
  it is written.
\<close>

section \<open>Text from the outside\<close>

lemma split_on_prefix: "x \<notin> set ch \<Longrightarrow> split_on x (ch @ s) = (ch @ hd (split_on x s)) # tl (split_on x s)"
proof (induction ch)
  case Nil
  show ?case by simp
next
  case (Cons c ch)
  then show ?case by auto
qed

lemma split_on_text:
  assumes "utf8_valid s" and "code x < 128" and "part \<in> set (split_on x s)"
  shows "utf8_valid part"
  using assms(1,3)
proof (induction s arbitrary: part rule: utf8_induct)
  case Nil
  then show ?case by simp
next
  case (Char ch s)
  show ?case
  proof (cases "ch = [x]")
    case True
    with Char show ?thesis by auto
  next
    case False
    have "x \<notin> set ch"
    proof (cases ch)
      case Nil
      then show ?thesis by simp
    next
      case (Cons c cs)
      with Char.hyps(1) utf8_char_tail [of c cs] have tail: "list_all is_continuation cs" by simp
      then have "x \<notin> set cs" using assms(2) by (auto simp: list_all_iff is_continuation_def)
      moreover have "x \<noteq> c"
      proof
        assume "x = c"
        with Cons Char.hyps(1) assms(2) have "cs = []"
          by (cases cs) (auto dest: utf8_char_ascii simp: Cons)
        with Cons False \<open>x = c\<close> show False by simp
      qed
      ultimately show ?thesis using Cons by simp
    qed
    from Char.prems split_on_prefix [OF this] have "part = ch @ hd (split_on x s) \<or> part \<in> set (tl (split_on x s))" by auto
    moreover have "utf8_valid (hd (split_on x s))" by (rule Char.IH) simp
    moreover have "utf8_valid q" if "q \<in> set (tl (split_on x s))" for q
      by (rule Char.IH) (use that in \<open>cases "split_on x s"; simp\<close>)
    ultimately show ?thesis using utf8_valid_char [OF Char.hyps(1)] by auto
  qed
qed

lemma path_segments_text: "utf8_valid path \<Longrightarrow> part \<in> set (path_segments path) \<Longrightarrow> utf8_valid part"
  using split_on_text [of path "CHR ''/''" part] by (simp add: path_segments_def)

lemma endpoint_of_text:
  assumes "\<And>part. part \<in> set segments \<Longrightarrow> utf8_valid part"
  shows "case endpoint_of segments of
      TokenNamed i \<Rightarrow> utf8_valid i
    | Environments p \<Rightarrow> utf8_valid p
    | Secrets p e \<Rightarrow> utf8_valid p \<and> utf8_valid e
    | SecretNamed p e k \<Rightarrow> utf8_valid p \<and> utf8_valid e \<and> utf8_valid k
    | _ \<Rightarrow> True"
  unfolding endpoint_of_def
  using assms by (simp split: list.split)

lemma json_parse_text: "json_parse s = Inr v \<Longrightarrow> json_wf v"
  using json_parse_accepts by blast

lemma field_text_ok: "json_wf body \<Longrightarrow> field_text body name = Some s \<Longrightarrow> utf8_valid s"
  by (auto simp: field_text_def bind_eq_Some_conv as_str_Some dest: json_get_wf)

lemma body_of_ok: "body_of rq = Inr body \<Longrightarrow> json_wf body"
  by (auto simp: body_of_def split: if_splits option.splits dest: json_parse_text)

section \<open>The vault stays consistent\<close>

text \<open>Once its lock is taken, the vault is consistent with its file.\<close>

definition api_ok :: "'phc crypto \<Rightarrow> api \<Rightarrow> world \<Rightarrow> bool" where
  "api_ok cr a w \<longleftrightarrow> consistent cr (ap_vault (lock_vault a)) w"

definition serves :: "'phc crypto \<Rightarrow> api_op \<Rightarrow> bool" where
  "serves cr m \<longleftrightarrow> (\<forall>a w r a' w'. api_ok cr a w \<longrightarrow> m a w = (r, a', w') \<longrightarrow> api_ok cr a' w')"

lemma servesD: "serves cr m \<Longrightarrow> api_ok cr a w \<Longrightarrow> m a w = (r, a', w') \<Longrightarrow> api_ok cr a' w'"
  unfolding serves_def by blast

lemma lock_vault_simps [simp]:
  "lock_vault (lock_vault a) = lock_vault a" "ap_poisoned (lock_vault a) = False"
  "ap_vault (lock_vault ((lock_vault a)\<lparr>ap_vault := v\<rparr>)) = v"
  "ap_vault (lock_vault (a\<lparr>ap_ceremonies := rl\<rparr>)) = ap_vault (lock_vault a)"
  "ap_vault (lock_vault (a\<lparr>ap_logins := rl\<rparr>)) = ap_vault (lock_vault a)"
  by (simp_all add: lock_vault_def)

lemma api_ok_lock [simp]: "api_ok cr (lock_vault a) w = api_ok cr a w"
  by (simp add: api_ok_def)

lemma api_ok_now: "now w = (t, w') \<Longrightarrow> api_ok cr a w' = api_ok cr a w"
  using consistent_same_files [of w w'] now_same_files [of w t w'] by (simp add: api_ok_def)

lemma serves_answer: "serves cr (answer r)"
  by (simp add: serves_def answer_def)

lemma serves_with_parts: "(\<And>x. r = Inr x \<Longrightarrow> serves cr (f x)) \<Longrightarrow> serves cr (with_parts r f)"
  by (auto simp: with_parts_def serves_answer split: sum.split)

lemma serves_only: "serves cr m \<Longrightarrow> serves cr (only method expected m)"
  by (simp add: only_def serves_answer)

lemma serves_on_vault:
  assumes "keeps cr m (\<lambda>_. True)"
  shows "serves cr (on_vault m f)"
  unfolding serves_def on_vault_def Let_def
  by (auto simp: api_ok_def split: prod.splits dest: keepsD [OF assms])

lemma authenticate_text:
  assumes "consistent cr v w" and "authenticate cr token v w = (Some c, w')"
  shows "caller_ok c \<and> consistent cr v w'"
proof -
  from assms(2) obtain tk t where tk: "token_by_hash (hash_bytes (hash_token (cr_sha cr) token)) (vt_state v) = Some tk"
    "now w = (t, w')" "ca_token_id c = t_id tk" "ca_user_id c = t_user_id tk"
    by (auto simp: authenticate_Some)
  from lookups_in_state(2) [OF tk(1)] consistent_state_ok [OF assms(1)] tk have "caller_ok c"
    by (auto simp: caller_ok_def state_ok_def)
  then show ?thesis using consistent_same_files [OF conjunct1 [OF now_same_files [OF tk(2)]], of cr] assms(1) by simp
qed

lemma authenticate_world: "authenticate cr token v w = (r, w') \<Longrightarrow> same_files w w'"
  by (auto simp: authenticate_def dest: now_same_files split: if_splits option.splits prod.splits)

lemma serves_authed:
  assumes "\<And>c. caller_ok c \<Longrightarrow> keeps cr (work c) (\<lambda>_. True)"
  shows "serves cr (authed cr io_text rq work)"
  unfolding serves_def
proof (intro allI impI)
  fix a w r a' w' assume ok: "api_ok cr a w" and run: "authed cr io_text rq work a w = (r, a', w')"
  let ?a = "lock_vault a"
  show "api_ok cr a' w'"
  proof (cases "is_sealed (ap_vault ?a)")
    case True
    with run ok show ?thesis by (auto simp: authed_def)
  next
    case False
    show ?thesis
    proof (cases "bearer rq")
      case None
      with run ok False show ?thesis by (auto simp: authed_def)
    next
      case (Some token)
      obtain c w1 where auth: "authenticate cr token (ap_vault ?a) w = (c, w1)" by fastforce
      show ?thesis
      proof (cases c)
        case None
        with run auth Some False have "a' = ?a" "w' = w1" by (auto simp: authed_def Let_def)
        with ok consistent_same_files [OF authenticate_world [OF auth], of cr] show ?thesis by (simp add: api_ok_def)
      next
        case (Some caller)
        obtain res v w2 where work: "work caller (ap_vault ?a) w1 = (res, v, w2)" by (metis prod_cases3)
        with run auth Some \<open>bearer rq = _\<close> False have "a' = ?a\<lparr>ap_vault := v\<rparr>" "w' = w2" by (auto simp: authed_def Let_def)
        moreover from authenticate_text [of cr "ap_vault ?a" w] ok auth Some
        have "caller_ok caller" "consistent cr (ap_vault ?a) w1" by (auto simp: api_ok_def)
        ultimately show ?thesis using keepsD [OF assms _ work] by (simp add: api_ok_def)
      qed
    qed
  qed
qed

lemma ceremony_world:
  "ceremony_allowed a w = (ok, a', w') \<Longrightarrow> ap_vault a' = ap_vault a \<and> ap_poisoned a' = ap_poisoned a \<and> same_files w w'"
  "login_allowed email a w = (ok, a', w') \<Longrightarrow> ap_vault a' = ap_vault a \<and> ap_poisoned a' = ap_poisoned a \<and> same_files w w'"
  by (auto simp: ceremony_allowed_def login_allowed_def allow_def dest: now_same_files split: prod.splits)

lemma api_ok_limited:
  assumes "ap_vault a' = ap_vault a \<and> ap_poisoned a' = ap_poisoned a \<and> same_files w w'"
  shows "api_ok cr a' w' = api_ok cr a w"
  using assms consistent_same_files [of w w'] by (auto simp: api_ok_def lock_vault_def)

section \<open>Every handler\<close>

lemma keeps_respond: "keeps cr m (\<lambda>_. True) \<Longrightarrow> keeps cr (vbind m (\<lambda>x. vret (f x))) (\<lambda>_. True)"
  by (rule keeps_bind) (simp_all add: keeps_ret)

lemma keeps_check_all: "keeps cr (check_all c p e entries) (\<lambda>_. True)"
  by (induction entries) (auto intro: keeps_bind keeps_any keeps_ret)

lemma keeps_set_all:
  assumes "crypto_ok cr" and "caller_ok c" and "utf8_valid p" and "utf8_valid e"
  shows "keeps cr (set_all cr c p e entries) (\<lambda>_. True)"
  by (induction entries) (auto intro: keeps_bind keeps_ret keeps_set_secret [OF assms])

lemma keeps_vauthenticate: "keeps cr (vauthenticate cr token) (\<lambda>_. True)"
proof (rule keepsI)
  fix v w r v' w' assume ok: "consistent cr v w" and run: "vauthenticate cr token v w = (r, v', w')"
  from run have "v' = v" "same_files w w'" by (auto simp: vauthenticate_def dest: authenticate_world split: prod.splits)
  with ok consistent_same_files [of w w' cr v] show "consistent cr v' w' \<and> (\<forall>x. r = Inr x \<longrightarrow> True)" by simp
qed

lemma keeps_reset: "keeps cr (\<lambda>v w. let v1 = reset_unseal v in (Inr (f v1), v1, w)) (\<lambda>_. True)"
  by (rule keepsI) (auto simp: reset_unseal_def Let_def)

lemmas serves_intros = serves_answer serves_with_parts serves_only serves_on_vault serves_authed

lemma serves_health: "serves cr health"
  by (auto simp: serves_def health_def Let_def)

lemma serves_init: "crypto_ok cr \<Longrightarrow> serves cr (api_init cr io_text rq)"
  unfolding serves_def
proof (intro allI impI)
  fix a w r a' w' assume cr: "crypto_ok cr" and ok: "api_ok cr a w" and run: "api_init cr io_text rq a w = (r, a', w')"
  obtain allowed a1 w1 where c: "ceremony_allowed a w = (allowed, a1, w1)" by (metis prod_cases3)
  from api_ok_limited [OF ceremony_world(1) [OF c], of cr] ok have ok1: "api_ok cr a1 w1" by simp
  show "api_ok cr a' w'"
  proof (cases allowed)
    case False
    with run c ok1 show ?thesis by (simp add: api_init_def)
  next
    case True
    have s: "serves cr (with_parts (body_of rq) (\<lambda>body. with_parts (share_parameters body) (\<lambda>(threshold, shares).
        on_vault (vault_init cr threshold shares) (g threshold shares))))" for g
      by (auto intro!: serves_intros keeps_vault_init cr)
    from run c True servesD [OF s ok1] show ?thesis by (simp add: api_init_def)
  qed
qed

lemma serves_unseal: "crypto_ok cr \<Longrightarrow> serves cr (api_unseal cr io_text rq)"
  unfolding serves_def
proof (intro allI impI)
  fix a w r a' w' assume cr: "crypto_ok cr" and ok: "api_ok cr a w" and run: "api_unseal cr io_text rq a w = (r, a', w')"
  obtain allowed a1 w1 where c: "ceremony_allowed a w = (allowed, a1, w1)" by (metis prod_cases3)
  from api_ok_limited [OF ceremony_world(1) [OF c], of cr] ok have ok1: "api_ok cr a1 w1" by simp
  show "api_ok cr a' w'"
  proof (cases allowed)
    case False
    with run c ok1 show ?thesis by (simp add: api_unseal_def)
  next
    case True
    show ?thesis
    proof (cases "body_of rq")
      case (Inl err)
      with run c True ok1 show ?thesis by (simp add: api_unseal_def with_parts_def answer_def)
    next
      case (Inr body)
      from servesD [OF serves_on_vault [OF keeps_reset] ok1] servesD [OF serves_on_vault [OF keeps_submit_share [of cr]], where a = "lock_vault a1" and w = w1] ok1
      show ?thesis using run c True Inr
        by (auto simp: api_unseal_def with_parts_def Let_def split: if_splits option.splits)
    qed
  qed
qed

lemma serves_login: "crypto_ok cr \<Longrightarrow> serves cr (api_login cr io_text rq)"
  unfolding serves_def
proof (intro allI impI)
  fix a w r a' w' assume cr: "crypto_ok cr" and ok: "api_ok cr a w" and run: "api_login cr io_text rq a w = (r, a', w')"
  show "api_ok cr a' w'"
  proof (cases "\<exists>body email password. body_of rq = Inr body \<and> field_text body ''email'' = Some email \<and> field_text body ''password'' = Some password")
    case False
    with run ok show ?thesis
      by (auto simp: api_login_def with_parts_def answer_def split: sum.splits option.splits)
  next
    case True
    then obtain body email password where b: "body_of rq = Inr body" "field_text body ''email'' = Some email"
      "field_text body ''password'' = Some password" by blast
    obtain allowed a1 w1 where c: "login_allowed email a w = (allowed, a1, w1)" by (metis prod_cases3)
    from api_ok_limited [OF ceremony_world(2) [OF c], of cr] ok have ok1: "api_ok cr a1 w1" by simp
    obtain res v w2 where l: "login cr email password session_seconds (ap_vault (lock_vault a1)) w1 = (res, v, w2)" by (metis prod_cases3)
    from keepsD [OF keeps_login [OF cr] _ l] ok1 have "consistent cr v w2" by (simp add: api_ok_def)
    with run b c l ok1 show ?thesis
      by (auto simp: api_login_def with_parts_def Let_def api_ok_def lock_vault_def split: if_splits sum.splits)
  qed
qed

lemma slug_and_name_ok: "json_wf body \<Longrightarrow> slug_and_name body = Some (slug, name) \<Longrightarrow> utf8_valid slug \<and> utf8_valid name"
  by (auto simp: slug_and_name_def dest: field_text_ok split: option.splits)

lemma utf8_machine [simp]: "utf8_valid ''machine''"
  by code_simp

lemma serves_bodies:
  assumes "crypto_ok cr"
  shows "serves cr (api_rekey cr io_text rq)" "serves cr (api_create_user cr io_text rq)"
    "serves cr (api_issue_token cr io_text rq)" "serves cr (api_create_project cr io_text rq)"
    "serves cr (api_create_environment cr io_text rq p)" "serves cr (api_audit cr io_text rq)"
proof -
  show "serves cr (api_rekey cr io_text rq)"
    unfolding api_rekey_def by (auto intro!: serves_intros keeps_respond keeps_rekey assms)
  show "serves cr (api_create_user cr io_text rq)"
    unfolding api_create_user_def
    by (intro serves_with_parts) (auto intro!: serves_intros keeps_respond keeps_create_user assms
        dest: body_of_ok field_text_ok split: option.split)
  show "serves cr (api_issue_token cr io_text rq)"
    unfolding api_issue_token_def Let_def
    by (intro serves_with_parts) (auto intro!: serves_intros keeps_bind [OF keeps_issue_machine_token]
        keeps_bind [OF keeps_vauthenticate] keeps_ret assms dest: body_of_ok field_text_ok split: option.split)
  show "serves cr (api_create_project cr io_text rq)"
    unfolding api_create_project_def
    by (intro serves_with_parts) (auto intro!: serves_intros keeps_respond keeps_create_project assms
        dest: body_of_ok slug_and_name_ok split: option.split)
  show "serves cr (api_create_environment cr io_text rq p)"
    unfolding api_create_environment_def
    by (intro serves_with_parts) (auto intro!: serves_intros keeps_respond keeps_create_environment assms
        dest: body_of_ok slug_and_name_ok split: option.split)
  show "serves cr (api_audit cr io_text rq)"
    unfolding api_audit_def by (intro serves_authed keeps_respond keeps_audit_trail)
qed

lemma serves_secrets:
  assumes "crypto_ok cr" and "utf8_valid p" and "utf8_valid e"
  shows "serves cr (api_list_secrets cr io_text rq p e)" "serves cr (api_set_many cr io_text rq p e)"
    "serves cr (api_put_secret cr io_text rq p e k)" "utf8_valid k \<Longrightarrow> serves cr (api_get_secret cr io_text rq p e k)"
proof -
  show "serves cr (api_list_secrets cr io_text rq p e)"
    unfolding api_list_secrets_def
    by (intro serves_authed keeps_bind [OF keeps_list_secrets] keeps_bind [OF keeps_any] keeps_ret) (use assms in auto)
  show "serves cr (api_set_many cr io_text rq p e)"
    unfolding api_set_many_def
    by (intro serves_with_parts serves_authed keeps_bind [OF keeps_check_all] keeps_bind [OF keeps_set_all] keeps_ret)
      (use assms in auto)
  show "serves cr (api_put_secret cr io_text rq p e k)"
    unfolding api_put_secret_def
    by (intro serves_with_parts) (auto intro!: serves_intros keeps_respond keeps_set_secret assms split: option.split)
  show "utf8_valid k \<Longrightarrow> serves cr (api_get_secret cr io_text rq p e k)"
    unfolding api_get_secret_def
    by (intro serves_authed keeps_bind [OF keeps_get_secret] keeps_bind [OF keeps_any] keeps_ret) (use assms in auto)
qed

lemma keeps_slugs: "keeps cr (slugs_response name f) (\<lambda>_. True)"
  unfolding slugs_response_def by (intro keeps_respond keeps_any)

lemma serves_dispatch:
  assumes "crypto_ok cr" and "utf8_valid path"
  shows "serves cr (dispatch cr io_text rq (endpoint_of (path_segments path)) method)"
proof -
  note seg = endpoint_of_text [of "path_segments path", OF path_segments_text [OF assms(2)]]
  show ?thesis
    using seg
    by (cases "endpoint_of (path_segments path)")
      (auto simp: dispatch_def caller_ok_def intro!: serves_only serves_answer serves_health serves_init serves_unseal serves_login
        serves_bodies serves_secrets assms(1) serves_authed keeps_respond keeps_seal_as keeps_slugs keeps_revoke_token
        keeps_delete_secret)
qed

lemma serves_route:
  assumes "crypto_ok cr" and "utf8_valid (rq_path rq)"
  shows "serves cr (route cr io_text rq)"
  unfolding route_def by (auto split: option.split intro: serves_answer serves_dispatch assms)

section \<open>The server as a machine\<close>

text \<open>
  The process serves, or is down and its file remains. A request comes as some connection's bytes. A
  handler that panics has run some call of the vault on the file, but may have left anything at all
  in memory: state, key and collected shares are arbitrary then, and the lock is poisoned. A start that
  goes through has been able to look at its file with \<open>exists()\<close>, as for the vault alone.
\<close>

datatype server = Serving api world | Stopped path world

inductive server_step :: "'phc crypto \<Rightarrow> (io_error \<Rightarrow> str) \<Rightarrow> server \<Rightarrow> server \<Rightarrow> bool" for cr io_text where
  served: "fst (request_read l c) = Inr rq \<Longrightarrow> route cr io_text rq a w = (r, a', w') \<Longrightarrow>
    server_step cr io_text (Serving a w) (Serving a' w')"
| panicked: "vault_call cr f \<Longrightarrow> f (ap_vault (lock_vault a)) w = (v, w') \<Longrightarrow>
    server_step cr io_text (Serving a w)
      (Serving (a\<lparr>ap_vault := v\<lparr>vt_state := st, vt_root_key := k, vt_pending := ps\<rparr>, ap_poisoned := True\<rparr>) w')"
| died: "server_step cr io_text (Serving a w) (Stopped (lg_path (vt_log (ap_vault a))) w)"
| started: "vault_open p w = (Inr v, w') \<Longrightarrow> fault w (calls w) = None \<Longrightarrow>
    server_step cr io_text (Stopped p w) (Serving (new_api v) w')"
| not_started: "vault_open p w = (Inl e, w') \<Longrightarrow> server_step cr io_text (Stopped p w) (Stopped p w')"

inductive_cases server_stepE: "server_step cr io_text s s'"

fun server_ok :: "'phc crypto \<Rightarrow> server \<Rightarrow> bool" where
  "server_ok cr (Serving a w) = api_ok cr a w"
| "server_ok cr (Stopped p w) = machine_ok cr (Down p w)"

lemma consistent_sealed: "consistent cr v w \<Longrightarrow> consistent cr (vault_seal v) w"
proof -
  assume ok: "consistent cr v w"
  let ?c = "\<lparr>ca_token_id = [], ca_kind = SessionToken, ca_user_id = None, ca_project_id = None, ca_environment_id = None\<rparr>"
  have "seal_as ?c v w = (Inr (), vault_seal v, w)"
    by (simp add: seal_as_def vbind_def vlook_def vset_def require_def granted_to_def)
  from keepsD [OF keeps_seal_as ok this] show ?thesis by simp
qed

lemma new_api_ok: "consistent cr v w \<Longrightarrow> api_ok cr (new_api v) w"
  by (simp add: api_ok_def lock_vault_def new_api_def)

lemma server_step_ok:
  assumes "crypto_ok cr" and "server_step cr io_text s s'" and "server_ok cr s"
  shows "server_ok cr s'"
  using assms(2)
proof cases
  case (served l c rq a w r a' w')
  then have "utf8_valid (rq_path rq)" using accepted_request by blast
  from servesD [OF serves_route [OF assms(1) this]] served assms(3) show ?thesis by auto
next
  case (panicked f a w v w' st k ps)
  with assms(3) vault_call_ok [OF assms(1)] have "consistent cr v w'" by (auto simp: api_ok_def)
  from consistent_sealed [OF this] panicked show ?thesis by (simp add: api_ok_def lock_vault_def vault_seal_def)
next
  case (died a w)
  have "lg_path (vt_log (ap_vault (lock_vault a))) = lg_path (vt_log (ap_vault a))" by (simp add: lock_vault_def vault_seal_def)
  with vault_step_ok [OF assms(1) vault_step.crash [of cr "ap_vault (lock_vault a)" w]] died assms(3) show ?thesis
    by (simp add: api_ok_def)
next
  case (started p w v w')
  with vault_step_ok [OF assms(1) vault_step.opened [of p w v w']] assms(3) show ?thesis by (simp add: new_api_ok)
next
  case (not_started p w e w')
  with vault_step_ok [OF assms(1) vault_step.not_opened [of p w e w']] assms(3) show ?thesis by simp
qed

lemma server_steps_ok:
  assumes "(server_step cr io_text)\<^sup>*\<^sup>* s s'" and "crypto_ok cr" and "server_ok cr s"
  shows "server_ok cr s'"
  using assms(1) by (induction rule: rtranclp_induct) (use assms(2,3) server_step_ok in blast)+

section \<open>Strangers\<close>

text \<open>The caller has no usable token: the vault is sealed, no token came, or it does not authenticate.\<close>

definition stranger :: "'phc crypto \<Rightarrow> request \<Rightarrow> vault \<Rightarrow> world \<Rightarrow> bool" where
  "stranger cr rq v w \<longleftrightarrow> is_sealed v \<or> bearer rq = None \<or>
     (\<exists>token. bearer rq = Some token \<and> fst (authenticate cr token v w) = None)"

definition turned_away :: "api \<Rightarrow> world \<Rightarrow> response \<times> api \<times> world \<Rightarrow> bool" where
  "turned_away a w out \<longleftrightarrow> (case out of (r, a', w') \<Rightarrow> lock_vault a' = lock_vault a \<and> same_files w w' \<and> 400 \<le> rs_status r)"

lemma response_json_simps [simp]:
  "rs_status (response_json status s) = status" "rs_status (error_response status s) = status"
  "rs_status (response_new status bs) = status" "rs_status (json_response status fs) = status"
  "rs_body (response_json status s) = as_bytes s" "rs_body (json_response status fs) = as_bytes (render (json_object fs))"
  by (simp_all add: response_json_def error_response_def with_header_def response_new_def json_response_def)

lemma turned_away_answer: "400 \<le> rs_status r \<Longrightarrow> turned_away a w (answer r a w)"
  by (simp add: turned_away_def answer_def)

lemma turned_away_authed:
  assumes "stranger cr rq (ap_vault (lock_vault a)) w"
  shows "turned_away a w (authed cr io_text rq work a w)"
  using assms
  by (auto simp: stranger_def turned_away_def authed_def Let_def dest: authenticate_world split: option.splits prod.splits)

lemma turned_away_parts:
  "(\<And>e. r = Inl e \<Longrightarrow> 400 \<le> rs_status e) \<Longrightarrow> (\<And>x. r = Inr x \<Longrightarrow> turned_away a w (f x a w)) \<Longrightarrow>
   turned_away a w (with_parts r f a w)"
  by (auto simp: with_parts_def turned_away_answer split: sum.split)

lemma turned_away_only: "turned_away a w (m a w) \<Longrightarrow> turned_away a w (only method expected m a w)"
  by (simp add: only_def method_not_allowed_def turned_away_answer)

lemma refused_parts:
  "body_of rq = Inl e \<Longrightarrow> rs_status e = 400" "share_parameters body = Inl e \<Longrightarrow> rs_status e = 400"
  "batch_entries body = Inl e \<Longrightarrow> rs_status e = 400"
proof -
  show "body_of rq = Inl e \<Longrightarrow> rs_status e = 400"
    by (cases "json_parse (the (body_text rq))") (auto simp: body_of_def split: if_splits option.splits)
  show "share_parameters body = Inl e \<Longrightarrow> rs_status e = 400"
    by (auto simp: share_parameters_def share_parameter_def and_then_eq_Inl split: option.splits json.splits if_splits)
  have "traverse (\<lambda>(key, val). and_then (ok_or (error_response 400 ''every value must be text'') (as_str val)) (\<lambda>s. Inr (key, s))) pairs = Inl e
      \<Longrightarrow> rs_status e = 400" for pairs :: "(str \<times> json) list"
    by (induction pairs) (auto simp: and_then_eq_Inl ok_or_def split: option.splits)
  then show "batch_entries body = Inl e \<Longrightarrow> rs_status e = 400"
    by (auto simp: batch_entries_def split: option.splits json.splits)
qed

lemma turned_away_dispatch:
  assumes "stranger cr rq (ap_vault (lock_vault a)) w" and "endpoint \<notin> {Health, Init, Unseal, Login}"
  shows "turned_away a w (dispatch cr io_text rq endpoint method a w)"
proof -
  note authed = turned_away_authed [OF assms(1)]
  have refused: "body_of rq = Inl e \<Longrightarrow> 400 \<le> rs_status e" "share_parameters body = Inl e \<Longrightarrow> 400 \<le> rs_status e"
    "batch_entries body = Inl e \<Longrightarrow> 400 \<le> rs_status e" for e body
    using refused_parts by simp_all
  have bodies: "turned_away a w (api_rekey cr io_text rq a w)" "turned_away a w (api_create_user cr io_text rq a w)"
    "turned_away a w (api_issue_token cr io_text rq a w)" "turned_away a w (api_create_project cr io_text rq a w)"
    "turned_away a w (api_create_environment cr io_text rq p a w)" "turned_away a w (api_audit cr io_text rq a w)"
    "turned_away a w (api_list_secrets cr io_text rq p e a w)" "turned_away a w (api_set_many cr io_text rq p e a w)"
    "turned_away a w (api_get_secret cr io_text rq p e k a w)" "turned_away a w (api_put_secret cr io_text rq p e k a w)" for p e k
    by (auto simp: api_rekey_def api_create_user_def api_issue_token_def api_create_project_def api_create_environment_def
        api_audit_def api_list_secrets_def api_set_many_def api_get_secret_def api_put_secret_def Let_def
        intro!: turned_away_parts authed turned_away_answer dest: refused split: option.split)
  show ?thesis
    using assms(2) bodies
    by (cases endpoint) (auto simp: dispatch_def method_not_allowed_def intro!: turned_away_only turned_away_answer authed)
qed

section \<open>What a success means\<close>

lemma vault_status_error: "400 \<le> rs_status (vault_error_response io_text e)"
  by (cases e) (simp_all add: vault_error_response_def vault_status_def)

lemma authed_success:
  assumes "authed cr io_text rq work a w = (r, a', w')" and "rs_status r < 400"
  obtains token c w1 v where "bearer rq = Some token" and "authenticate cr token (ap_vault (lock_vault a)) w = (Some c, w1)"
    and "work c (ap_vault (lock_vault a)) w1 = (Inr r, v, w')" and "a' = (lock_vault a)\<lparr>ap_vault := v\<rparr>"
proof -
  let ?a = "lock_vault a"
  from assms have unsealed: "\<not> is_sealed (ap_vault ?a)" by (auto simp: authed_def Let_def)
  from assms unsealed obtain token where t: "bearer rq = Some token"
    by (cases "bearer rq") (auto simp: authed_def Let_def)
  obtain known w1 where k: "authenticate cr token (ap_vault ?a) w = (known, w1)" by fastforce
  from assms unsealed t k obtain c where c: "known = Some c" by (cases known) (auto simp: authed_def Let_def)
  obtain res v w2 where run: "work c (ap_vault ?a) w1 = (res, v, w2)" by (metis prod_cases3)
  with assms(1) unsealed t k c have out: "r = responding io_text res" "a' = ?a\<lparr>ap_vault := v\<rparr>" "w' = w2"
    by (simp_all add: authed_def Let_def)
  have "res = Inr r"
    using out(1) assms(2) vault_status_error [of io_text] by (cases res) (auto simp: responding_def dest: leD)
  with run out(3) have finished: "work c (ap_vault ?a) w1 = (Inr r, v, w')" by metis
  show thesis by (rule that [OF t k [unfolded c] finished out(2)])
qed

lemma render_read_back:
  assumes "json_wf v" and "no_float v" and "nest v \<le> max_depth"
  shows "\<exists>body. from_utf8 (as_bytes (render v)) = Some body \<and> json_parse body = Inr v"
  by (intro exI [of _ "render v"] conjI json_parse_render [OF assms] from_utf8_as_bytes render_utf8 assms)

text \<open>A batch, as an update of the map from slots to plaintexts.\<close>

definition batch_view :: "str \<times> str \<Rightarrow> (str \<times> str) list \<Rightarrow> (slot \<Rightarrow> bytes option) \<Rightarrow> slot \<Rightarrow> bytes option" where
  "batch_view ids entries m = fold (\<lambda>(key, val) m. m((fst ids, snd ids, key) \<mapsto> as_bytes val)) entries m"

lemma resolve_after_set:
  "same_data (v\<lparr>vt_state := apply_event (SecretSet i j key s at) (vt_state v)\<rparr>) v' \<Longrightarrow> resolve p e v' = resolve p e v"
  by (simp add: same_data_def resolve_def project_by_slug_def environment_by_slug_def)

lemma set_all_view:
  assumes "gcm_ok (cr_gcm cr)" and "set_all cr c p e entries v w = (r, v', w')"
  shows "\<exists>n ids. n \<le> length entries \<and> (r = Inr () \<longrightarrow> n = length entries) \<and> (0 < n \<longrightarrow> resolve p e v = Inr ids) \<and>
    secret_view cr v' = batch_view ids (take n entries) (secret_view cr v)"
  using assms(2)
proof (induction entries arbitrary: v w)
  case Nil
  then show ?case by (auto simp: vret_def batch_view_def)
next
  case (Cons entry entries)
  obtain key val where entry: "entry = (key, val)" by fastforce
  obtain r1 v1 w1 where one: "set_secret cr c p e key (as_bytes val) v w = (r1, v1, w1)" by (metis prod_cases3)
  show ?case
  proof (cases rule: set_secret_effect [OF assms(1) one])
    case (1 err)
    with Cons.prems one entry have out: "v' = v1" "r = Inl err" by (simp_all add: vbind_def)
    have same: "secret_view cr v1 = secret_view cr v" by (rule secret_view_same_data [OF 1(2)])
    show ?thesis
      by (rule exI [of _ 0]) (simp add: batch_view_def out same)
  next
    case (2 ids key' s at)
    then have key: "key' = key" by (simp add: valid_secret_key_Inr)
    show ?thesis
    proof (cases r1)
      case (Inl err)
      with Cons.prems one entry have out: "v' = v1" "r = Inl err" by (simp_all add: vbind_def)
      show ?thesis
        by (intro exI [of _ 1] exI [of _ ids]) (simp add: batch_view_def entry out 2(2,6) key)
    next
      case (Inr u)
      with Cons.prems one entry have rest: "set_all cr c p e entries v1 w1 = (r, v', w')" by (simp add: vbind_def)
      from Cons.IH [OF rest] obtain n ids' where n: "n \<le> length entries" "r = Inr () \<longrightarrow> n = length entries"
        "0 < n \<longrightarrow> resolve p e v1 = Inr ids'" "secret_view cr v' = batch_view ids' (take n entries) (secret_view cr v1)" by blast
      from n(3) resolve_after_set [OF 2(5)] 2(2) have "0 < n \<longrightarrow> ids' = ids" by simp
      then have "secret_view cr v' = batch_view ids (take n entries) (secret_view cr v1)"
        using n(4) by (cases n) (auto simp: batch_view_def)
      then show ?thesis using n(1,2) 2(2,6)
        by (intro exI [of _ "Suc n"] exI [of _ ids]) (simp add: batch_view_def entry key)
    qed
  qed
qed

lemma check_all_run:
  "check_all c p e entries v w = (r, v', w') \<Longrightarrow> v' = v \<and> w' = w \<and>
     (r = Inr () \<longleftrightarrow> (\<forall>entry\<in>set entries. check_secret c p e (fst entry) (as_bytes (snd entry)) v = Inr ()))"
proof (induction entries)
  case Nil
  then show ?case by (auto simp: vret_def)
next
  case (Cons entry entries)
  then show ?case
    by (cases "check_secret c p e (fst entry) (as_bytes (snd entry)) v") (auto simp: vbind_def vlook_def)
qed

section \<open>Properties\<close>

text \<open>
  C5: Serving keeps the vault true to its file: start from a new store and let the server run, with any
  connections, any requests in any order, handlers that panic halfway and leave anything in memory,
  crashes of the process and restarts, each of which, when it goes through, could look at its file;
  whenever the lock of the vault is taken, a sealed vault holds nothing and the state of an unsealed one is
  the replay of what its key opens in the file.
\<close>

theorem serving_keeps_memory_true:
  assumes "crypto_ok cr" and "inodes_ok w0" and "with_extension ''compacting'' p \<noteq> p" and "dir w0 p = None"
    and "vault_open p w0 = (Inr v0, w1)"
    and "(server_step cr io_text)\<^sup>*\<^sup>* (Serving (new_api v0) w1) (Serving a w)"
  shows "let v = ap_vault (lock_vault a) in
    case vt_root_key v of
      None \<Rightarrow> vt_state v = empty_state
    | Some k \<Rightarrow> \<exists>rs es. in_step rs (vt_log v) w \<and> and_then (decoded (cr_gcm cr) k rs) events_of = Inr es \<and>
        vt_state v = replay es"
proof -
  have "server_ok cr (Serving (new_api v0) w1)" using new_vault_consistent [OF assms(2-5), of cr] by (simp add: new_api_ok)
  from server_steps_ok [OF assms(6,1) this] have "consistent cr (ap_vault (lock_vault a)) w" by (simp add: api_ok_def)
  then show ?thesis
    by (cases "vt_root_key (ap_vault (lock_vault a))") (fastforce simp: consistent_def is_sealed_def history_def Let_def)+
qed

text \<open>
  C6: Strangers get nothing: a request whose caller has no usable token (the vault is sealed, or a panic
  poisoned its lock, or no token came, or it does not authenticate) is answered with an error by every
  endpoint other than health, init, unseal and login, whatever its method, path and body, and leaves
  the vault, the rate limiters and the files as they were.
\<close>

theorem strangers_get_nothing:
  assumes "stranger cr rq (ap_vault (lock_vault a)) w"
    and "endpoint_of (path_segments (rq_path rq)) \<notin> {Health, Init, Unseal, Login}"
    and "route cr io_text rq a w = (r, a', w')"
  shows "400 \<le> rs_status r \<and> lock_vault a' = lock_vault a \<and> same_files w w'"
proof -
  have "400 \<le> rs_status e" if "refuse_elsewhere rq = Some e \<or> refuse_cross_origin rq = Some e" for e
    using that by (auto simp: refuse_elsewhere_def refuse_cross_origin_def Let_def split: if_splits)
  with turned_away_dispatch [OF assms(1,2), of io_text "rq_method rq"] turned_away_answer
  have "turned_away a w (route cr io_text rq a w)" by (auto simp: route_def split: option.split)
  with assms(3) show ?thesis by (simp add: turned_away_def)
qed

text \<open>A read that is answered with 200.\<close>

lemma http_read_value:
  assumes "route cr io_text rq a w = (r, a', w')" and "rs_status r = 200" and "rq_method rq = ''GET''"
    and "endpoint_of (path_segments (rq_path rq)) = SecretNamed p e key" and "utf8_valid (rq_path rq)"
  shows "\<exists>token c ids body s. bearer rq = Some token \<and> fst (authenticate cr token (ap_vault (lock_vault a)) w) = Some c \<and>
    resolve p e (ap_vault (lock_vault a)) = Inr ids \<and> authorise c ReadSecrets (fst ids) (snd ids) = Inr () \<and>
    from_utf8 (rs_body r) = Some body \<and> json_parse body = Inr (JObject [(''key'', JString key), (''value'', JString s)]) \<and>
    secret_view cr (ap_vault (lock_vault a)) (fst ids, snd ids, key) = Some (as_bytes s) \<and> utf8_valid s \<and>
    r = json_response 200 [(''key'', JString key), (''value'', JString s)]"
proof -
  from assms(2) have no: "refuse_elsewhere rq = Some r \<Longrightarrow> False" "refuse_cross_origin rq = Some r \<Longrightarrow> False"
    by (auto simp: refuse_elsewhere_def refuse_cross_origin_def Let_def split: if_splits)
  with assms(1,3,4) have run: "api_get_secret cr io_text rq p e key a w = (r, a', w')"
    by (auto simp: route_def dispatch_def answer_def split: option.splits)
  from assms(2) have "rs_status r < 400" by simp
  from run [unfolded api_get_secret_def] this obtain token c w1 v where auth: "bearer rq = Some token"
    "authenticate cr token (ap_vault (lock_vault a)) w = (Some c, w1)"
    and work: "vbind (get_secret cr c p e key) (\<lambda>val. vbind (vlook (\<lambda>_. stored_text val)) (\<lambda>s.
         vret (json_response 200 [(''key'', JString key), (''value'', JString s)]))) (ap_vault (lock_vault a)) w1 = (Inr r, v, w')"
    by (rule authed_success)
  from work obtain val v1 w2 s where get: "get_secret cr c p e key (ap_vault (lock_vault a)) w1 = (Inr val, v1, w2)"
    and s: "from_utf8 val = Some s" and r: "r = json_response 200 [(''key'', JString key), (''value'', JString s)]"
    by (auto simp: vbind_eq_Inr vlook_def vret_def stored_text_def)
  from get_secret_Inr [OF get] obtain ids where ids: "resolve p e (ap_vault (lock_vault a)) = Inr ids"
    "authorise c ReadSecrets (fst ids) (snd ids) = Inr ()" "secret_view cr (ap_vault (lock_vault a)) (fst ids, snd ids, key) = Some val"
    by blast
  have key: "utf8_valid key"
    using endpoint_of_text [of "path_segments (rq_path rq)", OF path_segments_text [OF assms(5)]] assms(4) by simp
  have written: "utf8_valid s" "val = as_bytes s" using s by (auto simp: from_utf8_Some)
  let ?v = "json_object [(''key'', JString key), (''value'', JString s)]"
  have "json_wf ?v" "no_float ?v" "nest ?v \<le> max_depth"
    using key written by (simp_all add: json_object_def max_depth_def)
  from render_read_back [OF this] obtain body where "from_utf8 (rs_body r) = Some body" "json_parse body = Inr ?v" by (auto simp: r)
  with auth ids written r show ?thesis by (auto simp: json_object_def)
qed

text \<open>
  A secret read over HTTP: when a GET of a secret is answered with 200, the request carried a token
  that authenticates a caller allowed to read there, and the body of the answer parses as JSON to the
  key and exactly the value the vault holds in that slot.
\<close>

lemma http_read_returns_the_secret:
  assumes "route cr io_text rq a w = (r, a', w')" and "rs_status r = 200" and "rq_method rq = ''GET''"
    and "endpoint_of (path_segments (rq_path rq)) = SecretNamed p e key" and "utf8_valid (rq_path rq)"
  shows "\<exists>token c ids body s. bearer rq = Some token \<and> fst (authenticate cr token (ap_vault (lock_vault a)) w) = Some c \<and>
    resolve p e (ap_vault (lock_vault a)) = Inr ids \<and> authorise c ReadSecrets (fst ids) (snd ids) = Inr () \<and>
    from_utf8 (rs_body r) = Some body \<and> json_parse body = Inr (JObject [(''key'', JString key), (''value'', JString s)]) \<and>
    secret_view cr (ap_vault (lock_vault a)) (fst ids, snd ids, key) = Some (as_bytes s)"
  using http_read_value [OF assms] by blast

text \<open>
  C14: A batch is checked whole, then written in order: whatever becomes of a batch that came with a
  usable token, the secrets afterwards are the old ones updated with a prefix of its entries; the
  whole batch when it is answered with 204, and nothing when one entry fails its check.
\<close>

theorem a_batch_writes_a_prefix:
  assumes "gcm_ok (cr_gcm cr)" and "api_set_many cr io_text rq p e a w = (r, a', w')"
    and "body_of rq = Inr body" and "batch_entries body = Inr entries"
    and "bearer rq = Some token" and "authenticate cr token (ap_vault (lock_vault a)) w = (Some c, w1)"
  shows "\<exists>n ids. n \<le> length entries \<and> (0 < n \<longrightarrow> resolve p e (ap_vault (lock_vault a)) = Inr ids) \<and>
    secret_view cr (ap_vault a') = batch_view ids (take n entries) (secret_view cr (ap_vault (lock_vault a))) \<and>
    (rs_status r = 204 \<longrightarrow> n = length entries) \<and>
    ((\<exists>entry\<in>set entries. check_secret c p e (fst entry) (as_bytes (snd entry)) (ap_vault (lock_vault a)) \<noteq> Inr ()) \<longrightarrow>
       n = 0 \<and> 400 \<le> rs_status r \<and> a' = lock_vault a)"
proof -
  let ?a = "lock_vault a" and ?checked = "\<forall>entry\<in>set entries. check_secret c p e (fst entry) (as_bytes (snd entry)) (ap_vault (lock_vault a)) = Inr ()"
  from assms(6) have unsealed: "\<not> is_sealed (ap_vault ?a)" by (simp add: authenticate_Some)
  obtain res v1 w2 where check: "check_all c p e entries (ap_vault ?a) w1 = (res, v1, w2)" by (metis prod_cases3)
  note checked = check_all_run [OF check]
  obtain res2 v2 w3 where sets: "set_all cr c p e entries (ap_vault ?a) w1 = (res2, v2, w3)" by (metis prod_cases3)
  from assms(2-6) unsealed check checked sets have out: "(r, a', w') =
      (case res of Inl err \<Rightarrow> (vault_error_response io_text err, ?a, w1)
       | Inr _ \<Rightarrow> (responding io_text (map_sum id (\<lambda>_. response_new 204 []) res2), ?a\<lparr>ap_vault := v2\<rparr>, w3))"
    by (auto simp: api_set_many_def with_parts_def authed_def Let_def vbind_def vret_def responding_def split: sum.splits)
  show ?thesis
  proof (cases res)
    case (Inl err)
    with checked have "\<not> ?checked" by auto
    moreover from out Inl have "r = vault_error_response io_text err" "a' = ?a" by simp_all
    ultimately show ?thesis using vault_status_error [of io_text err]
      by (intro exI [of _ 0]) (auto simp: batch_view_def vault_error_response_def vault_status_def split: vault_error.splits)
  next
    case (Inr u)
    with checked have ok: ?checked by simp
    from set_all_view [OF assms(1) sets] obtain n ids where n: "n \<le> length entries" "res2 = Inr () \<longrightarrow> n = length entries"
      "0 < n \<longrightarrow> resolve p e (ap_vault ?a) = Inr ids"
      "secret_view cr v2 = batch_view ids (take n entries) (secret_view cr (ap_vault ?a))" by blast
    from out Inr have r: "r = responding io_text (map_sum id (\<lambda>_. response_new 204 []) res2)" "a' = ?a\<lparr>ap_vault := v2\<rparr>" by simp_all
    have "rs_status r = 204 \<longrightarrow> res2 = Inr ()"
      using r(1) vault_status_error [of io_text "projl res2"] by (cases res2) (auto simp: responding_def)
    with n ok r(2) show ?thesis by (intro exI [of _ n] exI [of _ ids]) auto
  qed
qed

section \<open>A vault that answers\<close>

definition sample_request_for :: "str \<Rightarrow> (str \<times> str) list \<Rightarrow> request" where
  "sample_request_for method headers = \<lparr>rq_method = method, rq_path = ''/v1/projects/app/envs/dev/secrets/KEY'', rq_query = [],
     rq_headers = (''host'', ''localhost:8787'') # headers, rq_body = []\<rparr>"

lemma sample_endpoint:
  "endpoint_of (path_segments ''/v1/projects/app/envs/dev/secrets/KEY'') = SecretNamed ''app'' ''dev'' ''KEY''"
  by code_simp

theorem strangers_get_nothing_witness:
  "400 \<le> rs_status (fst (route sample_crypto (\<lambda>_. []) (sample_request_for ''GET'' []) (new_api sample_vault) sample_world))"
proof -
  let ?rq = "sample_request_for ''GET'' []"
  obtain r a' w' where run: "route sample_crypto (\<lambda>_. []) ?rq (new_api sample_vault) sample_world = (r, a', w')" by (metis prod_cases3)
  have none: "bearer ?rq = None"
    by (simp add: bearer_def request_header_def field_named_def sample_request_for_def to_ascii_lowercase_def is_ascii_uppercase_def)
  have "stranger sample_crypto ?rq (ap_vault (lock_vault (new_api sample_vault))) sample_world"
    using none by (simp add: stranger_def)
  moreover have "endpoint_of (path_segments (rq_path ?rq)) \<notin> {Health, Init, Unseal, Login}"
    by (simp add: sample_request_for_def sample_endpoint)
  ultimately show ?thesis using strangers_get_nothing [OF _ _ run] run by simp
qed

text \<open>A request that initialises a new store, one share out of one.\<close>

definition init_request :: request where
  "init_request = \<lparr>rq_method = ''POST'', rq_path = ''/v1/sys/init'', rq_query = [],
     rq_headers = [(''host'', ''localhost''), (''content-type'', ''application/json'')], rq_body = []\<rparr>"

definition init_bytes :: bytes where
  "init_bytes = (let crlf = [CHR 0x0D, CHR 0x0A] in
     as_bytes (''POST /v1/sys/init HTTP/1.1'' @ crlf @ ''Host: localhost'' @ crlf @ ''Content-Type: application/json'' @ crlf @ crlf))"

lemma init_bytes_read:
  "fst (request_read default_limits \<lparr>buffered = init_bytes, arrivals = [], elapsed = \<lambda>_. 0, asks = 0\<rparr>) = Inr init_request"
proof -
  let ?c = "\<lparr>buffered = init_bytes, arrivals = [], elapsed = \<lambda>_. 0, asks = 0\<rparr>"
  have "smooth default_limits ?c" "stream ?c = init_bytes" by (simp_all add: smooth_def stream_def)
  moreover have "request_of default_limits init_bytes = Inr (init_request, [])" by code_simp
  ultimately show ?thesis using request_read_smooth [of default_limits ?c] by simp
qed

lemma init_routed:
  "route cr io_text init_request a w = api_init cr io_text init_request a w"
proof -
  have "refuse_elsewhere init_request = None" "refuse_cross_origin init_request = None"
    "endpoint_of (path_segments (rq_path init_request)) = Init" "rq_method init_request = ''POST''" by code_simp+
  then show ?thesis by (simp add: route_def dispatch_def only_def)
qed

lemma now_able: "now w = (t, w1) \<Longrightarrow> able w \<Longrightarrow> able w1"
  by (auto simp: now_def read_clock_def able_def fs_healthy_def)

lemma init_served:
  assumes "stored [] (vt_log v) w" and "able w" and "vt_barrier v = None"
  obtains r a w' where "api_init sample_crypto io_text init_request (new_api v) w = (r, a, w')"
    and "\<not> is_sealed (ap_vault a)" and "\<not> ap_poisoned a"
proof -
  obtain t w1 where n: "now w = (t, w1)" by fastforce
  then have w1: "able w1" "same_files w w1"
    using now_same_files [OF n] now_able [OF n assms(2)] by auto
  let ?a1 = "(new_api v)\<lparr>ap_ceremonies := snd (allow_at (unix_seconds t) ''sys'' (ap_ceremonies (new_api v)))\<rparr>"
  have "fst (allow_at (unix_seconds t) ''sys'' (ap_ceremonies (new_api v)))"
    by (simp add: new_api_def allow_at_def with_budget_def ceremony_budget_def Let_def max_tracked_def window_seconds_def)
  then have c: "ceremony_allowed (new_api v) w = (True, ?a1, w1)"
    by (simp add: ceremony_allowed_def allow_def n case_prod_beta)
  have parts: "body_of init_request = Inr (JObject [])" "share_parameters (JObject []) = Inr (1, 1)" by code_simp+
  have "succeeds (vault_init sample_crypto 1 1) v w1
      (\<lambda>out v' w'. able w' \<and> (\<exists>rs. stored rs (vt_log v') w') \<and> \<not> is_sealed v' \<and> is_initialized v')"
    by (rule vault_init_succeeds [OF _ _ assms(3) stored_same_files [OF w1(2) assms(1)] w1(1)]) simp_all
  then obtain out v' w' where i: "vault_init sample_crypto 1 1 v w1 = (Inr out, v', w')" "\<not> is_sealed v'"
    by (auto simp: succeeds_def)
  have lock: "lock_vault ?a1 = ?a1" "ap_vault ?a1 = v" by (simp_all add: lock_vault_def new_api_def)
  show thesis
    by (rule that [of _ "?a1\<lparr>ap_vault := v'\<rparr>" w'])
      (simp_all add: api_init_def c parts with_parts_def on_vault_def lock i responding_def, simp add: new_api_def)
qed

theorem serving_keeps_memory_true_witness:
  "\<exists>(a :: api) (w :: world) k rs es. vt_root_key (ap_vault a) = Some k \<and> in_step rs (vt_log (ap_vault a)) w \<and>
     and_then (decoded (cr_gcm sample_crypto) k rs) events_of = Inr es \<and> vt_state (ap_vault a) = replay es"
proof -
  obtain v0 w1 where o: "vault_open ''s.log'' sample_world = (Inr v0, w1)" "able w1" "stored [] (vt_log v0) w1"
    "vt_barrier v0 = None" by (rule sample_opened)
  obtain r a w where i: "api_init sample_crypto (\<lambda>_. []) init_request (new_api v0) w1 = (r, a, w)"
    "\<not> is_sealed (ap_vault a)" "\<not> ap_poisoned a" by (rule init_served [OF o(3,2,4)])
  have "server_step sample_crypto (\<lambda>_. []) (Serving (new_api v0) w1) (Serving a w)"
    by (rule server_step.served [OF init_bytes_read]) (simp add: init_routed i)
  then have steps: "(server_step sample_crypto (\<lambda>_. []))\<^sup>*\<^sup>* (Serving (new_api v0) w1) (Serving a w)" by blast
  have start: "inodes_ok sample_world" "with_extension ''compacting'' ''s.log'' \<noteq> ''s.log''" "dir sample_world ''s.log'' = None"
    by (simp_all add: inodes_ok_def sample_world_def with_extension_def file_stem_def Let_def)
  obtain k where k: "vt_root_key (ap_vault a) = Some k" using i(2) by (auto simp: is_sealed_def)
  have "lock_vault a = a" using i(3) by (simp add: lock_vault_def)
  with serving_keeps_memory_true [OF sample_crypto_ok(1) start o(1) steps] k
  have "\<exists>rs es. in_step rs (vt_log (ap_vault a)) w \<and>
      and_then (decoded (cr_gcm sample_crypto) k rs) events_of = Inr es \<and> vt_state (ap_vault a) = replay es"
    by (simp add: Let_def)
  with k show ?thesis by blast
qed

text \<open>A vault with the sample secret and a machine token for its environment, \<open>Bearer tok\<close>.\<close>

definition sample_token :: token where
  "sample_token = \<lparr>t_id = ''t1'', t_token_hash = hash_bytes (hash_token (cr_sha sample_crypto) ''tok''), t_kind = MachineToken,
     t_user_id = None, t_project_id = Some ''p1'', t_environment_id = Some ''dev'', t_label = None,
     t_expires_at = None, t_revoked_at = None, t_created_at = Timestamp 0\<rparr>"

definition sample_state :: state where
  "sample_state = (vt_state sample_vault)\<lparr>tokens := [sample_token]\<rparr>"

definition sample_bearer :: "str \<Rightarrow> str \<Rightarrow> request" where
  "sample_bearer method body = (sample_request_for method [(''authorization'', ''Bearer tok'')])\<lparr>rq_body := as_bytes body\<rparr>"

lemma sample_bearer_reads:
  "bearer (sample_bearer method body) = Some ''tok''" "rq_path (sample_bearer method body) = ''/v1/projects/app/envs/dev/secrets/KEY''"
  "rq_method (sample_bearer method body) = method" "rq_body (sample_bearer method body) = as_bytes body"
proof -
  have "strip_prefix ''Bearer '' ''Bearer tok'' = Some ''tok''" "trim ''tok'' = ''tok''" by code_simp+
  then show "bearer (sample_bearer method body) = Some ''tok''"
    by (simp add: bearer_def sample_bearer_def sample_request_for_def request_header_def field_named_def
        to_ascii_lowercase_def is_ascii_uppercase_def)
qed (simp_all add: sample_bearer_def sample_request_for_def)

lemma length_audited_le:
  assumes "in_range t"
  shows "length (event_to_bytes (Audited t who action target outcome)) \<le>
    2000 + 6 * (length who + length action + length target + length outcome)"
proof -
  have names: "weight (JString s) \<le> 122" if "length s \<le> 20" for s
    using that weight_text(2) [of s] by linarith
  note length_render_le
  also have "weight (event_to_value (Audited t who action target outcome)) \<le>
      2000 + 6 * (length who + length action + length target + length outcome)"
    using weight_text(2) [of who] weight_text(2) [of action] weight_text(2) [of target] weight_text(2) [of outcome]
      weight_time [OF assms] names [of "''type''"] names [of "''at''"] names [of "''actor''"] names [of "''action''"]
      names [of "''target''"] names [of "''outcome''"] names [of "''audit''"]
    by (simp add: event_to_value_def json_object_def del: weight.simps(1))
  finally show ?thesis by (simp add: event_to_bytes_def as_bytes_def)
qed

lemma sample_answers:
  obtains v :: vault and w :: world and k rs where "vt_state v = sample_state" and "vt_root_key v = Some k" and "key_ok k"
    and "stored rs (vt_log v) w" and "able w"
proof -
  obtain v0 w where i: "\<not> is_sealed v0" "consistent sample_crypto v0 w" "able w"
    and "\<exists>rs. stored rs (vt_log v0) w" by (metis sample_initialised)
  then obtain rs k where "stored rs (vt_log v0) w" "vt_root_key v0 = Some k" "key_ok k"
    by (auto simp: consistent_def history_def)
  with i(3) show thesis by (intro that [of "v0\<lparr>vt_state := sample_state\<rparr>" k rs w]) simp_all
qed

lemma sample_authenticates:
  assumes "vt_state v = sample_state" and "vt_root_key v = Some k"
  shows "fst (authenticate sample_crypto ''tok'' v w) = Some (sample_caller MachineToken)"
  using assms by (simp add: authenticate_def is_sealed_def token_by_hash_def sample_state_def sample_token_def is_valid_at_def
      sample_caller_def split: prod.split)

lemma sample_read:
  assumes "vt_state v = sample_state" and "vt_root_key v = Some k" and "key_ok k" and "stored rs (vt_log v) w" and "able w"
  shows "succeeds (get_secret sample_crypto (sample_caller MachineToken) ''app'' ''dev'' ''KEY'') v w (\<lambda>val _ _. val = [1, 2, 3])"
proof -
  let ?c = "sample_caller MachineToken"
  have un: "\<not> is_sealed v" using assms(2) by (simp add: is_sealed_def)
  have state: "projects (vt_state v) = projects (vt_state sample_vault)" "secrets (vt_state v) = secrets (vt_state sample_vault)"
    "environments (vt_state v) = environments (vt_state sample_vault)"
    using assms(1) by (simp_all add: sample_state_def)
  have resolved: "resolve_for ?c ''app'' ''dev'' v = Inr (''p1'', ''dev'')"
    using state by (simp add: resolve_for_def resolve_def project_by_slug_def environment_by_slug_def sample_vault_def
        empty_state_def sample_caller_def)
  have allowed: "authorise ?c ReadSecrets ''p1'' ''dev'' = Inr ()" by (simp add: authorise_def require_def sample_caller_def granted_to_def)
  obtain sec where found: "find_secret ''p1'' ''dev'' ''KEY'' (vt_state v) = Some sec"
    "s_value sec = sample_sealed (secret_context ''p1'' ''dev'' ''KEY'') [1, 2, 3]"
    using state by (auto simp: find_secret_def sample_vault_def at_slot_def)
  obtain dk where key: "project_data_key sample_crypto ''p1'' v = Inr dk"
    using state assms(2) by (auto simp: project_data_key_def find_project_def unwrap_key_def sample_crypto_def
        key_from_bytes_def key_len_def sample_vault_def)
  have audited: "succeeds (record_audit sample_crypto ?c ''secret.read'' (slot_target ''app'' ''dev'' ''KEY'') ''ok'') v w (\<lambda>_ _ _. True)"
    unfolding record_audit_def
    apply (rule succeeds_bind [OF step_now [OF assms(5,4)]])
    apply (elim conjE, hypsubst)
    apply (rule succeeds_weaken [OF succeeds_commit [OF sample_crypto_ok(2) assms(2,3)]], assumption, assumption)
     apply (rule order_trans [OF length_audited_le], assumption, simp add: actor_def sample_caller_def slot_target_def)
    apply simp
    done
  have opened: "aead_open (cr_gcm sample_crypto) dk (envelope_of_sealed (s_value sec)) (secret_context ''p1'' ''dev'' ''KEY'') =
      Inr [1, 2, 3]" by (simp add: found sample_crypto_def)
  from audited obtain v' w' where "record_audit sample_crypto ?c ''secret.read'' (slot_target ''app'' ''dev'' ''KEY'') ''ok'' v w =
      (Inr (), v', w')" by (auto simp: succeeds_def)
  with resolved allowed found(1) key opened show ?thesis
    unfolding succeeds_def get_secret_def Let_def vbind_unsealed [OF un]
    by (simp add: vbind_def vlook_def vret_def resolve_and_record_def authorise_or_record_def map_err_def)
qed

text \<open>That vault answers a request for its secret.\<close>

lemma sample_get_answered:
  assumes "bearer rq = Some ''tok''" and "rq_method rq = ''GET''" and "refuse_elsewhere rq = None" and "refuse_cross_origin rq = None"
    and "endpoint_of (path_segments (rq_path rq)) = SecretNamed ''app'' ''dev'' ''KEY''" and "from_utf8 [1, 2, 3] = Some s"
  obtains v :: vault and w :: world and k a' w' where "vt_state v = sample_state" and "vt_root_key v = Some k"
    and "route sample_crypto (\<lambda>_. []) rq (new_api v) w = (json_response 200 [(''key'', JString ''KEY''), (''value'', JString s)], a', w')"
proof -
  obtain v :: vault and w :: world and k rs where v: "vt_state v = sample_state" "vt_root_key v = Some k" "key_ok k" "stored rs (vt_log v) w" "able w"
    by (rule sample_answers)
  let ?a = "new_api v"
  have lock: "lock_vault ?a = ?a" "ap_vault ?a = v" by (simp_all add: lock_vault_def new_api_def)
  obtain w1 where auth: "authenticate sample_crypto ''tok'' v w = (Some (sample_caller MachineToken), w1)"
    using sample_authenticates [OF v(1,2)] by (metis prod.collapse fst_conv)
  then have w1: "stored rs (vt_log v) w1" "able w1"
    using v(4,5) by (auto simp: authenticate_Some dest: now_same_files now_able intro: stored_same_files)
  from sample_read [OF v(1-3) w1] obtain v' w' where
    get: "get_secret sample_crypto (sample_caller MachineToken) ''app'' ''dev'' ''KEY'' v w1 = (Inr [1, 2, 3], v', w')"
    by (auto simp: succeeds_def)
  have "\<exists>a'. route sample_crypto (\<lambda>_. []) rq ?a w = (json_response 200 [(''key'', JString ''KEY''), (''value'', JString s)], a', w')"
    using assms auth get by (simp add: route_def dispatch_def answer_def api_get_secret_def
        authed_def Let_def lock vbind_def vlook_def vret_def stored_text_def responding_def is_sealed_def v(2))
  with that v(1,2) show thesis by blast
qed

lemma sample_state_view:
  assumes "vt_state v = sample_state" and "vt_root_key v = Some k"
  shows "resolve ''app'' ''dev'' v = Inr (''p1'', ''dev'')" and "secret_view sample_crypto v (''p1'', ''dev'', ''KEY'') = Some [1, 2, 3]"
proof -
  show "resolve ''app'' ''dev'' v = Inr (''p1'', ''dev'')"
    by (simp add: resolve_def project_by_slug_def environment_by_slug_def assms sample_state_def sample_vault_def empty_state_def)
  show "secret_view sample_crypto v (''p1'', ''dev'', ''KEY'') = Some [1, 2, 3]"
    by (simp add: secret_view_def lookup_slot_def find_secret_def assms sample_state_def sample_vault_def at_slot_def
        open_secret_def empty_state_def project_data_key_def find_project_def unwrap_key_def sample_crypto_def
        key_from_bytes_def key_len_def)
qed

theorem http_read_returns_the_secret_witness:
  "\<exists>(a :: api) (w :: world) r a' w' body s. route sample_crypto (\<lambda>_. []) (sample_bearer ''GET'' []) a w = (r, a', w') \<and>
     from_utf8 (rs_body r) = Some body \<and> json_parse body = Inr (JObject [(''key'', JString ''KEY''), (''value'', JString s)]) \<and>
     as_bytes s = [1, 2, 3]"
proof -
  let ?rq = "sample_bearer ''GET'' []"
  have "from_utf8 [1, 2, 3] \<noteq> None" by code_simp
  then obtain s0 where s0: "from_utf8 [1, 2, 3] = Some s0" by blast
  have gates: "refuse_elsewhere ?rq = None" "refuse_cross_origin ?rq = None" by code_simp+
  have path: "rq_method ?rq = ''GET''" "endpoint_of (path_segments (rq_path ?rq)) = SecretNamed ''app'' ''dev'' ''KEY''"
    by (simp_all add: sample_bearer_reads sample_endpoint)
  obtain v :: vault and w :: world and k a' w' where v: "vt_state v = sample_state" "vt_root_key v = Some k"
    and run: "route sample_crypto (\<lambda>_. []) ?rq (new_api v) w = (json_response 200 [(''key'', JString ''KEY''), (''value'', JString s0)], a', w')"
    by (rule sample_get_answered [OF sample_bearer_reads(1) path(1) gates path(2) s0])
  have lock: "ap_vault (lock_vault (new_api v)) = v" by (simp add: lock_vault_def new_api_def)
  have utf8: "utf8_valid (rq_path ?rq)" unfolding sample_bearer_reads by code_simp
  let ?r = "json_response 200 [(''key'', JString ''KEY''), (''value'', JString s0)]"
  from http_read_returns_the_secret [OF run _ path utf8] sample_state_view [OF v]
  have "\<exists>body s. from_utf8 (rs_body ?r) = Some body \<and>
      json_parse body = Inr (JObject [(''key'', JString ''KEY''), (''value'', JString s)]) \<and> as_bytes s = [1, 2, 3]"
    unfolding lock response_json_simps by fastforce
  with run show ?thesis by blast
qed

text \<open>A batch of one entry.\<close>

definition batch_body :: str where
  "batch_body = ''{'' @ [CHR 0x22] @ ''secrets'' @ [CHR 0x22] @ '':{'' @ [CHR 0x22] @ ''KEY'' @ [CHR 0x22] @ '':'' @ [CHR 0x22] @ ''new'' @
     [CHR 0x22] @ ''}}''"

theorem a_batch_writes_a_prefix_witness:
  "\<exists>(a :: api) (w :: world) r a' w' n. n \<le> 1 \<and>
     api_set_many sample_crypto (\<lambda>_. []) (sample_bearer ''POST'' batch_body) ''app'' ''dev'' a w = (r, a', w') \<and>
     secret_view sample_crypto (ap_vault a') =
       batch_view (''p1'', ''dev'') (take n [(''KEY'', ''new'')]) (secret_view sample_crypto (ap_vault a)) \<and>
     (rs_status r = 204 \<longrightarrow> n = 1)"
proof -
  let ?rq = "sample_bearer ''POST'' batch_body"
  obtain v :: vault and w :: world and k rs where v: "vt_state v = sample_state" "vt_root_key v = Some k" "key_ok k"
    "stored rs (vt_log v) w" "able w" by (rule sample_answers)
  let ?a = "new_api v"
  have lock: "lock_vault ?a = ?a" "ap_vault ?a = v" by (simp_all add: lock_vault_def new_api_def)
  obtain w1 where auth: "authenticate sample_crypto ''tok'' (ap_vault (lock_vault ?a)) w = (Some (sample_caller MachineToken), w1)"
    using sample_authenticates [OF v(1,2)] unfolding lock by (metis prod.collapse fst_conv)
  have "and_then (body_of ?rq) batch_entries = Inr [(''KEY'', ''new'')]" by code_simp
  then obtain body where body: "body_of ?rq = Inr body" "batch_entries body = Inr [(''KEY'', ''new'')]" by auto
  obtain r a' w' where run: "api_set_many sample_crypto (\<lambda>_. []) ?rq ''app'' ''dev'' ?a w = (r, a', w')" by (metis prod_cases3)
  have ids: "resolve ''app'' ''dev'' v = Inr (''p1'', ''dev'')" by (rule sample_state_view(1) [OF v(1,2)])
  from a_batch_writes_a_prefix [OF sample_crypto_ok(2) run body sample_bearer_reads(1) auth] ids
  obtain n ids' where "n \<le> 1" "0 < n \<longrightarrow> (''p1'', ''dev'') = ids'" "rs_status r = 204 \<longrightarrow> n = 1"
    "secret_view sample_crypto (ap_vault a') = batch_view ids' (take n [(''KEY'', ''new'')]) (secret_view sample_crypto (ap_vault ?a))"
    unfolding lock by auto
  then have "secret_view sample_crypto (ap_vault a') =
      batch_view (''p1'', ''dev'') (take n [(''KEY'', ''new'')]) (secret_view sample_crypto (ap_vault ?a))"
    by (cases n) (simp_all add: batch_view_def)
  with run \<open>n \<le> 1\<close> \<open>rs_status r = 204 \<longrightarrow> n = 1\<close> show ?thesis by blast
qed

end
