(* ===== verification/Characters.thy ===== *)
theory Characters
  imports LS_Prelude
begin

text \<open>
  Text seen as characters: how \<open>chars\<close> takes text apart, when an ASCII byte of a text is one of
  its characters, and what \<open>trim\<close> leaves alone.
\<close>

text \<open>Text whose first and last characters are not blank is what \<open>trim\<close> keeps.\<close>

lemma trim_kept:
  assumes "s \<noteq> []" and "\<not> is_whitespace (hd (chars s))" and "\<not> is_whitespace (last (chars s))"
  shows "trim s = s"
proof -
  have ne: "chars s \<noteq> []" using assms(1) by (cases s) auto
  have "dropWhile is_whitespace (chars s) = chars s" using assms(2) ne by (cases "chars s") auto
  moreover have "dropWhile is_whitespace (rev (chars s)) = rev (chars s)"
    using assms(3) ne by (cases "chars s" rule: rev_cases) auto
  ultimately show ?thesis
    using concat_chars [of s] by (simp add: trim_def trim_matches_def trim_start_matches_def trim_end_matches_def)
qed

lemma chars_cons: "utf8_char ch \<Longrightarrow> starts_char s \<Longrightarrow> chars (ch @ s) = ch # chars s"
  by (simp add: chars_append chars_single)

lemma chars_plain: "code c < 128 \<Longrightarrow> starts_char s \<Longrightarrow> chars (c # s) = [c] # chars s"
  using chars_cons [of "[c]" s] by simp

lemma starts_char_append: "s \<noteq> [] \<Longrightarrow> starts_char (s @ t) = starts_char s"
  by (simp add: starts_char_def)

lemma starts_char_plain: "code c < 128 \<Longrightarrow> starts_char (c # s)"
  by (simp add: starts_char_def is_continuation_def)

lemma ascii_in_char:
  assumes "utf8_char ch" and "c \<in> set ch" and "code c < 128"
  shows "ch = [c]"
  using assms by (induction ch rule: utf8_char.induct) (auto simp: is_continuation_def)

lemma ascii_in_chars:
  assumes "utf8_valid s" and "code c < 128"
  shows "c \<in> set s \<longleftrightarrow> [c] \<in> set (chars s)"
  using assms(1)
proof (induction s rule: utf8_induct)
  case Nil
  show ?case by simp
next
  case (Char ch s)
  have "chars (ch @ s) = ch # chars s"
    using Char(1,2) chars_cons utf8_valid_starts_char by blast
  with Char ascii_in_char [OF Char(1) _ assms(2)] show ?case by auto
qed

lemma chars_eq_Nil [simp]: "chars s = [] \<longleftrightarrow> s = []"
  by (cases s) simp_all

end
