(* ===== verification/Dotenv.thy ===== *)
theory Dotenv
  imports Validate Characters
begin

text \<open>
  The \<open>.env\<close> format of \<open>ls-cli/src/commands.rs\<close>: what \<open>lsec export\<close> prints and what
  \<open>lsec import\<close> reads. Text is handled character by character where the code calls \<open>chars\<close>.
\<close>

section \<open>Writing\<close>

abbreviation quote_char :: str where "quote_char \<equiv> [CHR 0x22]"
abbreviation apostrophe :: str where "apostrophe \<equiv> [CHR 0x27]"
abbreviation backslash :: str where "backslash \<equiv> [CHR 0x5C]"
abbreviation newline :: str where "newline \<equiv> [CHR 0x0A]"
abbreviation return :: str where "return \<equiv> [CHR 0x0D]"

definition needs_quotes :: "str \<Rightarrow> bool" where
  "needs_quotes val \<longleftrightarrow> val = [] \<or>
     list_ex (\<lambda>c. is_whitespace c \<or> c \<in> {quote_char, apostrophe, backslash, ''#'', ''$'', ''=''}) (chars val)"

definition dotenv_escape :: "str \<Rightarrow> str" where
  "dotenv_escape c =
     (if c = quote_char then backslash @ quote_char
      else if c = backslash then backslash @ backslash
      else if c = newline then backslash @ ''n''
      else if c = return then backslash @ ''r''
      else c)"

definition dotenv_quote :: "str \<Rightarrow> str" where
  "dotenv_quote val =
     (if \<not> needs_quotes val then val
      else quote_char @ concat (map dotenv_escape (chars val)) @ quote_char)"

text \<open>What \<open>export\<close> prints, one \<open>println!\<close> per secret.\<close>

definition dotenv_text :: "(str \<times> str) list \<Rightarrow> str" where
  "dotenv_text kvs = concat (map (\<lambda>(key, val). key @ ''='' @ dotenv_quote val @ newline) kvs)"

section \<open>Reading\<close>

text \<open>\<open>str::lines\<close>: a line ends at a newline, which goes together with one carriage return before it.\<close>

definition line_content :: "str \<Rightarrow> str" where
  "line_content s = (if s \<noteq> [] \<and> last s = CHR 0x0D then butlast s else s)"

function text_lines :: "str \<Rightarrow> str list" where
  "text_lines s =
     (if s = [] then []
      else (case split_once (CHR 0x0A) s of
          None \<Rightarrow> [s]
        | Some (a, b) \<Rightarrow> line_content a # text_lines b))"
  by pat_completeness auto
termination
  by (relation "measure length") (auto simp: split_once_Some)

declare text_lines.simps [simp del]

fun unescape :: "str list \<Rightarrow> str" where
  "unescape [] = []"
| "unescape [c] = c"
| "unescape (c # d # cs) =
     (if c \<noteq> backslash then c @ unescape (d # cs)
      else (if d = ''n'' then newline else if d = ''r'' then return else if d = ''t'' then [CHR 0x09] else d)
        @ unescape cs)"

definition unquote :: "str \<Rightarrow> str" where
  "unquote val =
     (let quoted = 2 \<le> length val \<and>
        (hd val = CHR 0x22 \<and> last val = CHR 0x22 \<or> hd val = CHR 0x27 \<and> last val = CHR 0x27);
          inner = butlast (tl val)
      in if \<not> quoted then val
         else if hd val = CHR 0x27 then inner
         else unescape (chars inner))"

definition dotenv_line :: "str \<Rightarrow> (str \<times> str) option" where
  "dotenv_line raw =
     (let line = trim raw in
      if line = [] \<or> hd line = CHR ''#'' then None
      else
        let line = trim (case strip_prefix ''export '' line of Some rest \<Rightarrow> rest | None \<Rightarrow> line) in
        (case split_once (CHR ''='') line of
           None \<Rightarrow> None
         | Some (key, val) \<Rightarrow>
             let key = trim key in
             if key = [] then None else Some (key, unquote (trim val))))"

definition parse_dotenv :: "str \<Rightarrow> (str \<times> str) list" where
  "parse_dotenv s = List.map_filter dotenv_line (text_lines s)"

section \<open>Reading back what was written\<close>

text \<open>Escaping works character by character.\<close>

lemma escape_char:
  assumes "utf8_char ch"
  shows "utf8_valid (dotenv_escape ch)" and "dotenv_escape ch \<noteq> []"
    and "utf8_valid s \<Longrightarrow> unescape (chars (dotenv_escape ch @ s)) = ch @ unescape (chars s)"
proof -
  have valid: "utf8_valid (dotenv_escape ch)"
    using assms utf8_valid_char [OF assms] by (auto simp: dotenv_escape_def intro: utf8_valid_ascii)
  show "utf8_valid (dotenv_escape ch)" by (rule valid)
  show "dotenv_escape ch \<noteq> []" using utf8_char_lead [OF assms] by (auto simp: dotenv_escape_def)
  assume s: "utf8_valid s"
  then have st: "starts_char s" by (rule utf8_valid_starts_char)
  have two: "chars (c # d # s) = [c] # [d] # chars s" if "code c < 128" "code d < 128" for c d
    using that st by (simp add: chars_plain starts_char_plain del: chars.simps)
  have other: "unescape (ch # cs) = ch @ unescape cs" if "ch \<noteq> backslash" for cs
    using that by (cases cs) auto
  show "unescape (chars (dotenv_escape ch @ s)) = ch @ unescape (chars s)"
    using chars_cons [OF assms st] other
    by (auto simp: dotenv_escape_def two simp del: chars.simps)
qed

lemma escape_all:
  assumes "utf8_valid s"
  shows "utf8_valid (concat (map dotenv_escape (chars s)))"
    and "unescape (chars (concat (map dotenv_escape (chars s)))) = s"
  using assms
proof (induction s rule: utf8_induct)
  case Nil
  { case 1 show ?case by simp next case 2 show ?case by simp }
next
  case (Char ch s)
  have split: "chars (ch @ s) = ch # chars s"
    using Char(1,2) chars_cons utf8_valid_starts_char by blast
  note e = escape_char [OF Char(1)]
  { case 1 show ?case using e(1) Char(3) by (simp add: split) next
    case 2 show ?case using e(3) [OF Char(3)] Char(4) by (simp add: split) }
qed

definition key_char :: "char \<Rightarrow> bool" where
  "key_char c \<longleftrightarrow> is_ascii_alphanumeric c \<or> c \<in> {CHR ''_'', CHR ''.'', CHR ''-''}"

lemma name_char_plain:
  assumes "key_char c"
  shows "code c < 128" and "\<not> is_whitespace [c]" and "c \<notin> {CHR 0x0A, CHR ''='', CHR '' '', CHR ''#''}"
  using assms by (auto simp: key_char_def is_ascii_alphanumeric_def is_ascii_digit_def is_ascii_lowercase_def
      is_ascii_uppercase_def is_whitespace_def)

lemma valid_key_chars: "valid_secret_key s = Inr key \<Longrightarrow> key = s \<and> key \<noteq> [] \<and> list_all key_char key"
  by (auto simp: valid_secret_key_def key_char_def list_all_iff Let_def split: if_splits)

lemma not_blank:
  assumes "utf8_valid s" and "\<not> needs_quotes s" and "c \<in> set s" and "code c < 128"
  shows "\<not> is_whitespace [c] \<and> [c] \<notin> {quote_char, apostrophe, backslash, ''#'', ''$'', ''=''}"
proof -
  from assms(2) have "\<forall>ch\<in>set (chars s). \<not> (is_whitespace ch \<or> ch \<in> {quote_char, apostrophe, backslash, ''#'', ''$'', ''=''})"
    unfolding needs_quotes_def list_ex_iff by blast
  moreover have "[c] \<in> set (chars s)" using assms(1,3,4) ascii_in_chars by blast
  ultimately show ?thesis by blast
qed

lemma escape_no_newline:
  assumes "utf8_valid s"
  shows "CHR 0x0A \<notin> set (concat (map dotenv_escape (chars s)))"
proof -
  have "CHR 0x0A \<notin> set (dotenv_escape ch)" if "utf8_char ch" for ch
  proof
    assume "CHR 0x0A \<in> set (dotenv_escape ch)"
    then have "CHR 0x0A \<in> set ch \<and> ch \<noteq> newline" by (auto simp: dotenv_escape_def split: if_splits)
    with ascii_in_char [OF that, of "CHR 0x0A"] show False by simp
  qed
  with assms show ?thesis by (auto simp: utf8_valid_def list_all_iff)
qed

text \<open>What a quoted value looks like to the reader.\<close>

lemma quoted_value:
  assumes "utf8_valid v"
  shows "dotenv_quote v \<noteq> []" and "utf8_valid (dotenv_quote v)" and "CHR 0x0A \<notin> set (dotenv_quote v)"
    and "\<not> is_whitespace (hd (chars (dotenv_quote v)))" and "\<not> is_whitespace (last (chars (dotenv_quote v)))"
    and "last (dotenv_quote v) \<noteq> CHR 0x0D" and "unquote (dotenv_quote v) = v"
proof -
  let ?q = "dotenv_quote v" and ?e = "concat (map dotenv_escape (chars v))"
  have "?q \<noteq> [] \<and> utf8_valid ?q \<and> CHR 0x0A \<notin> set ?q \<and> \<not> is_whitespace (hd (chars ?q)) \<and>
      \<not> is_whitespace (last (chars ?q)) \<and> last ?q \<noteq> CHR 0x0D \<and> unquote ?q = v"
  proof (cases "needs_quotes v")
    case True
    then have q: "?q = CHR 0x22 # ?e @ [CHR 0x22]" by (simp add: dotenv_quote_def)
    have e: "utf8_valid ?e" "utf8_valid (?e @ [CHR 0x22])"
      using escape_all(1) [OF assms] utf8_valid_ascii [of "[CHR 0x22]"] by simp_all
    then have "chars ?q = quote_char # chars ?e @ [quote_char]"
      using chars_plain [of "CHR 0x22" "?e @ [CHR 0x22]"] chars_append [of "[CHR 0x22]" ?e]
      by (simp add: q utf8_valid_starts_char starts_char_plain del: chars.simps) simp
    moreover have "utf8_valid ?q" using e(2) utf8_valid_append [of "[CHR 0x22]" "?e @ [CHR 0x22]"] utf8_valid_ascii [of "[CHR 0x22]"]
      by (simp add: q)
    moreover have "unquote ?q = v" using escape_all(2) [OF assms] by (simp add: q unquote_def Let_def butlast_append)
    ultimately show ?thesis using escape_no_newline [OF assms] by (simp add: q is_whitespace_def)
  next
    case False
    then have q: "?q = v" "v \<noteq> []" by (auto simp: dotenv_quote_def needs_quotes_def)
    have blank: "\<not> is_whitespace ch" if "ch \<in> set (chars v)" for ch
      using False that by (auto simp: needs_quotes_def list_ex_iff)
    note plain = not_blank [OF assms False]
    have "hd v \<in> set v" "last v \<in> set v" "hd (chars v) \<in> set (chars v)" "last (chars v) \<in> set (chars v)"
      using q(2) by simp_all
    with plain [of "CHR 0x0A"] plain [of "hd v"] plain [of "last v"] blank assms q show ?thesis
      by (auto simp: unquote_def Let_def is_whitespace_def)
  qed
  then show "?q \<noteq> []" "utf8_valid ?q" "CHR 0x0A \<notin> set ?q" "\<not> is_whitespace (hd (chars ?q))"
    "\<not> is_whitespace (last (chars ?q))" "last ?q \<noteq> CHR 0x0D" "unquote ?q = v" by simp_all
qed

lemma key_text:
  assumes "list_all key_char key" and "key \<noteq> []"
  shows "utf8_valid key" and "chars key = map (\<lambda>c. [c]) key" and "trim key = key" and "CHR ''='' \<notin> set key"
    and "CHR 0x0A \<notin> set key" and "strip_prefix ''export '' (key @ CHR ''='' # q) = None"
proof -
  have plain: "code c < 128" "\<not> is_whitespace [c]" "c \<notin> {CHR 0x0A, CHR ''='', CHR '' '', CHR ''#''}" if "c \<in> set key" for c
    using assms(1) that name_char_plain by (auto simp: list_all_iff)
  show v: "utf8_valid key" by (rule utf8_valid_ascii) (rule plain(1))
  show ch: "chars key = map (\<lambda>c. [c]) key" by (rule chars_ascii) (rule plain(1))
  show "trim key = key" using assms(2) plain(2) by (intro trim_kept) (simp_all add: ch hd_map last_map)
  show "CHR ''='' \<notin> set key" "CHR 0x0A \<notin> set key" using plain(3) by blast+
  show "strip_prefix ''export '' (key @ CHR ''='' # q) = None"
  proof (rule ccontr)
    assume "strip_prefix ''export '' (key @ CHR ''='' # q) \<noteq> None"
    then obtain r where eq: "key @ CHR ''='' # q = ''export '' @ r" unfolding strip_prefix_Some not_None_eq by blast
    have "takeWhile (\<lambda>c. c \<noteq> CHR ''='') (key @ CHR ''='' # q) = key" using plain(3) by (subst takeWhile_append2) auto
    then have "key = ''export '' @ takeWhile (\<lambda>c. c \<noteq> CHR ''='') r" unfolding eq by simp
    then have "CHR '' '' \<in> set key" by simp
    then show False using plain(3) by blast
  qed
qed

definition dotenv_entry :: "str \<times> str \<Rightarrow> bool" where
  "dotenv_entry kv \<longleftrightarrow> valid_secret_key (fst kv) = Inr (fst kv) \<and> utf8_valid (snd kv)"

lemma written_line:
  assumes "dotenv_entry (key, v)"
  shows "dotenv_line (key @ ''='' @ dotenv_quote v) = Some (key, v)"
    and "CHR 0x0A \<notin> set (key @ ''='' @ dotenv_quote v)" and "line_content (key @ ''='' @ dotenv_quote v) = key @ ''='' @ dotenv_quote v"
proof -
  from assms have k: "list_all key_char key" "key \<noteq> []" and v: "utf8_valid v"
    using valid_key_chars by (auto simp: dotenv_entry_def)
  note key = key_text [OF k] and q = quoted_value [OF v]
  have hd: "hd key \<in> set key" using k(2) by simp
  then have h: "code (hd key) < 128" "\<not> is_whitespace [hd key]" "hd key \<noteq> CHR ''#''"
    using k(1) name_char_plain [of "hd key"] by (auto simp: list_all_iff)
  let ?l = "key @ ''='' @ dotenv_quote v"
  have "chars (''='' @ dotenv_quote v) = ''='' # chars (dotenv_quote v)"
    using q(2) chars_plain [of "CHR ''=''" "dotenv_quote v"] utf8_valid_starts_char by simp
  moreover have "starts_char (''='' @ dotenv_quote v)" by (simp add: starts_char_plain)
  ultimately have ch: "chars ?l = map (\<lambda>c. [c]) key @ ''='' # chars (dotenv_quote v)"
    by (subst chars_append) (simp_all add: key(2) del: chars.simps)
  have "hd (chars ?l) = [hd key]" using k(2) unfolding ch by (simp add: hd_map hd_append)
  moreover have "last (chars ?l) = last (chars (dotenv_quote v))" using q(1) unfolding ch by simp
  ultimately have trim: "trim ?l = ?l" "trim (dotenv_quote v) = dotenv_quote v"
    using h(2) q(4,5,1) by (simp_all add: trim_kept)
  have once: "split_once (CHR ''='') ?l = Some (key, dotenv_quote v)" using key(4) by (simp add: split_once_Some)
  have strip: "strip_prefix ''export '' ?l = None" using key(6) [of "dotenv_quote v"] by simp
  have start: "?l \<noteq> []" "hd ?l \<noteq> CHR ''#''" using k(2) h(3) by simp_all
  show "dotenv_line ?l = Some (key, v)"
    unfolding dotenv_line_def Let_def trim strip option.case once prod.case key(3) q(7) using start k(2) by simp
  show "CHR 0x0A \<notin> set ?l" using key(5) q(3) by simp
  show "line_content ?l = ?l" using q(1,6) by (simp add: line_content_def)
qed

lemma text_lines_append:
  "CHR 0x0A \<notin> set l \<Longrightarrow> text_lines (l @ CHR 0x0A # s) = line_content l # text_lines s"
  by (subst text_lines.simps) (simp add: split_once_Some [of "CHR 0x0A" "l @ CHR 0x0A # s" l s, THEN iffD2])

lemma parse_dotenv_text:
  "list_all dotenv_entry kvs \<Longrightarrow> parse_dotenv (dotenv_text kvs) = kvs"
proof (induction kvs)
  case Nil
  show ?case by (simp add: parse_dotenv_def dotenv_text_def text_lines.simps)
next
  case (Cons kv kvs)
  obtain key v where kv: "kv = (key, v)" by fastforce
  with Cons.prems have "dotenv_entry (key, v)" by simp
  note l = written_line [OF this]
  let ?l = "key @ ''='' @ dotenv_quote v"
  have "dotenv_text (kv # kvs) = ?l @ CHR 0x0A # dotenv_text kvs" by (simp add: kv dotenv_text_def)
  then have "parse_dotenv (dotenv_text (kv # kvs)) = List.map_filter dotenv_line (?l # text_lines (dotenv_text kvs))"
    using text_lines_append [OF l(2)] l(3) by (simp add: parse_dotenv_def)
  also have "\<dots> = (key, v) # parse_dotenv (dotenv_text kvs)"
    unfolding parse_dotenv_def by (simp only: map_filter_simps l(1) option.case)
  finally show ?case using Cons by (simp add: kv)
qed

section \<open>Properties\<close>

text \<open>
  C34: Export and import are inverse: the \<open>.env\<close> text printed for any secrets (keys the server accepts,
  values any text, with quotes, line breaks, leading blanks or none at all) is read back as exactly
  those secrets, in their order.
\<close>

theorem dotenv_roundtrip:
  assumes "list_all dotenv_entry kvs"
  shows "parse_dotenv (dotenv_text kvs) = kvs"
  using assms by (rule parse_dotenv_text)

theorem dotenv_roundtrip_witness:
  "parse_dotenv (dotenv_text [(''A.b-1'', ''x y''), (''B_'', []), (''C'', [CHR 0x22, CHR 0x0A, CHR 0x5C, CHR ''n'', CHR 0xC3, CHR 0xA9])]) =
     [(''A.b-1'', ''x y''), (''B_'', []), (''C'', [CHR 0x22, CHR 0x0A, CHR 0x5C, CHR ''n'', CHR 0xC3, CHR 0xA9])]"
  by (rule dotenv_roundtrip) code_simp

end
