(* ===== verification/Log_Line.thy ===== *)
theory Log_Line
  imports Vault_Progress Characters
begin

text \<open>
  \<open>ls-log/src/lib.rs\<close>: levels, the level kept by the process, and the one line a message becomes.
  The process-wide level is the state a call takes and leaves; standard error is the text written.
\<close>

section \<open>Levels\<close>

datatype level = Error | Warn | Info | Debug

fun level_name :: "level \<Rightarrow> str" where
  "level_name Error = ''ERROR''"
| "level_name Warn = ''WARN ''"
| "level_name Info = ''INFO ''"
| "level_name Debug = ''DEBUG''"

definition level_parse :: "str \<Rightarrow> level option" where
  "level_parse s =
     (let word = to_ascii_lowercase (trim s) in
      if word = ''error'' then Some Error
      else if word = ''warn'' \<or> word = ''warning'' then Some Warn
      else if word = ''info'' then Some Info
      else if word = ''debug'' then Some Debug
      else None)"

fun level_as_u8 :: "level \<Rightarrow> u8" where
  "level_as_u8 Error = 0"
| "level_as_u8 Warn = 1"
| "level_as_u8 Info = 2"
| "level_as_u8 Debug = 3"

record logger =
  lo_level :: u8
  lo_written :: str

definition initial_logger :: logger where
  "initial_logger = \<lparr>lo_level = 2, lo_written = []\<rparr>"

definition set_level :: "level \<Rightarrow> logger \<Rightarrow> logger" where
  "set_level l g = g\<lparr>lo_level := level_as_u8 l\<rparr>"

text \<open>\<open>LS_LOG\<close> as \<open>std::env::var\<close> gives it: absent, or text.\<close>

definition init_from_env :: "str option \<Rightarrow> logger \<Rightarrow> logger" where
  "init_from_env ls_log g =
     (case Option.bind ls_log level_parse of Some l \<Rightarrow> set_level l g | None \<Rightarrow> g)"

definition log_enabled :: "level \<Rightarrow> logger \<Rightarrow> bool" where
  "log_enabled l g \<longleftrightarrow> level_as_u8 l \<le> lo_level g"

section \<open>Lines\<close>

text \<open>\<open>\x{:02x}\<close> of a control character.\<close>

definition hex2 :: "nat \<Rightarrow> str" where
  "hex2 n = [''0123456789abcdef'' ! (n div 16), ''0123456789abcdef'' ! (n mod 16)]"

definition log_escape :: "str \<Rightarrow> str" where
  "log_escape c =
     (if c = [CHR 0x0A] then [CHR 0x5C, CHR ''n'']
      else if c = [CHR 0x0D] then [CHR 0x5C, CHR ''r'']
      else if c = [CHR 0x09] then [CHR 0x5C, CHR ''t'']
      else if c = [CHR 0x22] then [CHR 0x5C, CHR 0x22]
      else if c = [CHR 0x5C] then [CHR 0x5C, CHR 0x5C]
      else (case c of
          [a] \<Rightarrow> if code a < 0x20 then [CHR 0x5C, CHR ''x''] @ hex2 (code a) else c
        | _ \<Rightarrow> c))"

definition log_needs_quotes :: "str \<Rightarrow> bool" where
  "log_needs_quotes s \<longleftrightarrow>
     s = [] \<or> list_ex (\<lambda>c. is_whitespace c \<or> c = [CHR 0x22] \<or> c = ''='') (chars s)"

text \<open>What \<open>push_escaped\<close> appends.\<close>

definition push_escaped :: "str \<Rightarrow> bool \<Rightarrow> str" where
  "push_escaped s quote_when_ambiguous =
     (let needs_quotes = quote_when_ambiguous \<and> log_needs_quotes s;
          q = (if needs_quotes then [CHR 0x22] else [])
      in q @ concat (map log_escape (chars s)) @ q)"

definition field_part :: "str \<times> str \<Rightarrow> str" where
  "field_part kv = '' '' @ push_escaped (fst kv) False @ ''='' @ push_escaped (snd kv) True"

definition format_line :: "timestamp \<Rightarrow> level \<Rightarrow> str \<Rightarrow> (str \<times> str) list \<Rightarrow> str" where
  "format_line at l message fs =
     to_rfc3339 at @ '' '' @ level_name l @ '' '' @ push_escaped message False @ concat (map field_part fs)"

text \<open>\<open>emit\<close>, with the instant the clock gives; what is written to standard error ends with a newline.\<close>

definition emit :: "timestamp \<Rightarrow> level \<Rightarrow> str \<Rightarrow> (str \<times> str) list \<Rightarrow> logger \<Rightarrow> logger" where
  "emit at l message fs g =
     (if \<not> log_enabled l g then g
      else g\<lparr>lo_written := lo_written g @ format_line at l message fs @ [CHR 0x0A]\<rparr>)"

section \<open>What a line says\<close>

text \<open>
  Escaping is undone character by character: \<open>unlog\<close> reads escaped characters up to the first
  unescaped one that satisfies \<open>stop\<close>.
\<close>

definition hex_digit_value :: "str \<Rightarrow> nat" where
  "hex_digit_value c = (case c of [a] \<Rightarrow> if code a < 58 then code a - 48 else code a - 87 | _ \<Rightarrow> 0)"

fun unlog :: "(str \<Rightarrow> bool) \<Rightarrow> str list \<Rightarrow> str \<times> str list" where
  "unlog stop [] = ([], [])"
| "unlog stop [c] = (if stop c then ([], [c]) else (c, []))"
| "unlog stop (c # d # cs) =
     (if stop c then ([], c # d # cs)
      else if c \<noteq> [CHR 0x5C] then (case unlog stop (d # cs) of (s, rest) \<Rightarrow> (c @ s, rest))
      else if d = ''x''
      then (case cs of
          h # l # cs' \<Rightarrow> (case unlog stop cs' of (s, rest) \<Rightarrow>
             ([char_of (hex_digit_value h * 16 + hex_digit_value l)] @ s, rest))
        | _ \<Rightarrow> ([], cs))
      else (case unlog stop cs of (s, rest) \<Rightarrow>
         ((if d = ''n'' then [CHR 0x0A] else if d = ''r'' then [CHR 0x0D] else if d = ''t'' then [CHR 0x09] else d) @ s, rest)))"

lemma unlog_char:
  "c \<noteq> [CHR 0x5C] \<Longrightarrow> unlog stop (c # cs) =
     (if stop c then ([], c # cs) else (case unlog stop cs of (s, rest) \<Rightarrow> (c @ s, rest)))"
  by (cases cs) auto

lemma hex2_value:
  assumes "n < 32"
  shows "[char_of (hex_digit_value [''0123456789abcdef'' ! (n div 16)] * 16 + hex_digit_value [''0123456789abcdef'' ! (n mod 16)])] =
    ([char_of n] :: str)" and "code (''0123456789abcdef'' ! (n div 16)) < 128" and "code (''0123456789abcdef'' ! (n mod 16)) < 128"
proof -
  have "\<forall>n\<in>set [0..<32]. hex_digit_value [''0123456789abcdef'' ! (n div 16)] * 16 + hex_digit_value [''0123456789abcdef'' ! (n mod 16)] = n \<and>
      code (''0123456789abcdef'' ! (n div 16)) < 128 \<and> code (''0123456789abcdef'' ! (n mod 16)) < 128"
    by code_simp
  with assms show "[char_of (hex_digit_value [''0123456789abcdef'' ! (n div 16)] * 16 + hex_digit_value [''0123456789abcdef'' ! (n mod 16)])] =
    ([char_of n] :: str)" "code (''0123456789abcdef'' ! (n div 16)) < 128" "code (''0123456789abcdef'' ! (n mod 16)) < 128" by simp_all
qed

definition escaped :: "str \<Rightarrow> bool" where
  "escaped ch \<longleftrightarrow> hd (log_escape ch) = CHR 0x5C"

lemma unlog_escape:
  assumes "utf8_char ch" and "utf8_valid s" and "\<not> stop [CHR 0x5C]" and "stop ch \<Longrightarrow> escaped ch"
  shows "utf8_valid (log_escape ch)" and "unlog stop (chars (log_escape ch @ s)) = (case unlog stop (chars s) of (t, rest) \<Rightarrow> (ch @ t, rest))"
proof -
  have st: "starts_char s" using assms(2) by (rule utf8_valid_starts_char)
  note plain = chars_plain starts_char_plain
  consider (special) "ch \<in> {[CHR 0x0A], [CHR 0x0D], [CHR 0x09], [CHR 0x22], [CHR 0x5C]}"
    | (control) a where "ch = [a]" "code a < 32" "ch \<notin> {[CHR 0x0A], [CHR 0x0D], [CHR 0x09], [CHR 0x22], [CHR 0x5C]}"
    | (same) "log_escape ch = ch" "ch \<noteq> [CHR 0x5C]"
  proof (cases "ch \<in> {[CHR 0x0A], [CHR 0x0D], [CHR 0x09], [CHR 0x22], [CHR 0x5C]} \<or> (\<exists>a. ch = [a] \<and> code a < 32)")
    case True
    then show thesis using that(1,2) by blast
  next
    case False
    then have "ch \<noteq> [CHR 0x0A]" "ch \<noteq> [CHR 0x0D]" "ch \<noteq> [CHR 0x09]" "ch \<noteq> [CHR 0x22]" "ch \<noteq> [CHR 0x5C]"
      "\<And>a. ch = [a] \<Longrightarrow> \<not> code a < 32" by blast+
    then have "log_escape ch = ch" by (auto simp: log_escape_def split: list.split)
    with \<open>ch \<noteq> [CHR 0x5C]\<close> show thesis by (rule that(3) [rotated])
  qed
  then have "utf8_valid (log_escape ch) \<and> unlog stop (chars (log_escape ch @ s)) = (case unlog stop (chars s) of (t, rest) \<Rightarrow> (ch @ t, rest))"
  proof cases
    case special
    have "utf8_valid (log_escape ch)" using special by (intro utf8_valid_ascii) (auto simp: log_escape_def)
    moreover have "unlog stop (chars ([CHR 0x5C, d] @ s)) = (case unlog stop (chars s) of (t, rest) \<Rightarrow>
        ((if d = CHR ''n'' then [CHR 0x0A] else if d = CHR ''r'' then [CHR 0x0D] else if d = CHR ''t'' then [CHR 0x09] else [d]) @ t, rest))"
      if "code d < 128" "d \<noteq> CHR ''x''" for d
      using that assms(3) st by (simp add: plain del: chars.simps)
    ultimately show ?thesis using special by (auto simp: log_escape_def simp del: chars.simps)
  next
    case control
    let ?h = "''0123456789abcdef'' ! (code a div 16)" and ?l = "''0123456789abcdef'' ! (code a mod 16)"
    have e: "log_escape ch = [CHR 0x5C, CHR ''x'', ?h, ?l]" using control by (simp add: log_escape_def hex2_def)
    note v = hex2_value [OF control(2)]
    have "utf8_valid (log_escape ch)" unfolding e using v(2,3) by (intro utf8_valid_ascii) auto
    moreover have "chars (log_escape ch @ s) = [[CHR 0x5C], ''x'', [?h], [?l]] @ chars s"
      unfolding e using v(2,3) st by (simp add: plain del: chars.simps)
    ultimately show ?thesis using v(1) control(1) assms(3) by (simp split: prod.split del: chars.simps)
  next
    case same
    then have "\<not> stop ch" using assms(1,4) same utf8_char_ascii [of "CHR 0x5C"] by (cases ch) (auto simp: escaped_def)
    with same chars_cons [OF assms(1) st] utf8_valid_char [OF assms(1)] show ?thesis
      by (simp add: unlog_char)
  qed
  then show "utf8_valid (log_escape ch)"
    "unlog stop (chars (log_escape ch @ s)) = (case unlog stop (chars s) of (t, rest) \<Rightarrow> (ch @ t, rest))" by simp_all
qed

lemma unlog_escaped_text:
  assumes "utf8_valid s" and "utf8_valid rest" and "\<not> stop [CHR 0x5C]" and "\<And>ch. ch \<in> set (chars s) \<Longrightarrow> stop ch \<Longrightarrow> escaped ch"
  shows "utf8_valid (concat (map log_escape (chars s))) \<and>
    unlog stop (chars (concat (map log_escape (chars s)) @ rest)) = (case unlog stop (chars rest) of (t, after) \<Rightarrow> (s @ t, after))"
  using assms(1,4)
proof (induction s rule: utf8_induct)
  case Nil
  show ?case by simp
next
  case (Char ch s)
  have split: "chars (ch @ s) = ch # chars s"
    using Char(1,2) chars_cons utf8_valid_starts_char by blast
  with Char have IH: "utf8_valid (concat (map log_escape (chars s)))" "unlog stop (chars (concat (map log_escape (chars s)) @ rest)) =
      (case unlog stop (chars rest) of (t, after) \<Rightarrow> (s @ t, after))" by simp_all
  have v: "utf8_valid (concat (map log_escape (chars s)) @ rest)" using IH(1) assms(2) by simp
  from unlog_escape [OF Char(1) v, of stop] assms(3) Char(4) [of ch] IH split
  show ?case by (simp split: prod.splits)
qed

text \<open>Escaping adds no separator: no newline at all, and a blank or an equals sign only where it stood.\<close>

lemma escape_text_set:
  assumes "utf8_valid s" and "c \<in> {CHR '' '', CHR ''='', CHR 0x0A}"
  shows "c \<in> set (concat (map log_escape (chars s))) \<longleftrightarrow> c \<noteq> CHR 0x0A \<and> c \<in> set s"
  using assms(1)
proof (induction s rule: utf8_induct)
  case Nil
  show ?case by simp
next
  case (Char ch s)
  have "chars (ch @ s) = ch # chars s"
    using Char(1,2) chars_cons utf8_valid_starts_char by blast
  moreover have "c \<in> set (log_escape ch) \<longleftrightarrow> c \<noteq> CHR 0x0A \<and> c \<in> set ch"
  proof (cases "\<exists>a. ch = [a] \<and> code a < 32")
    case True
    then obtain a where a: "ch = [a]" "code a < 32" by blast
    have "\<forall>n\<in>set [0..<32]. \<forall>c\<in>set [CHR '' '', CHR ''='', CHR 0x0A]. c \<notin> set (log_escape [char_of n])" by code_simp
    from bspec [OF this, of "code a"] a(2) assms(2) have "c \<notin> set (log_escape [a])" by auto
    moreover have "c = a \<longrightarrow> c = CHR 0x0A" using a(2) assms(2) by auto
    ultimately show ?thesis using a(1) by auto
  next
    case False
    have "CHR 0x0A \<notin> set ch"
    proof
      assume "CHR 0x0A \<in> set ch"
      from ascii_in_char [OF Char(1) this] have "ch = [CHR 0x0A]" by simp
      with False show False by simp
    qed
    moreover have "log_escape ch = (if ch = [CHR 0x22] then [CHR 0x5C, CHR 0x22] else if ch = [CHR 0x5C] then [CHR 0x5C, CHR 0x5C] else ch)"
    proof -
      have low: "\<And>a. ch = [a] \<Longrightarrow> \<not> code a < 32" using False by blast
      then have "ch \<noteq> [CHR 0x0A]" "ch \<noteq> [CHR 0x0D]" "ch \<noteq> [CHR 0x09]" by force+
      moreover have "(case ch of [a] \<Rightarrow> if code a < 0x20 then [CHR 0x5C, CHR ''x''] @ hex2 (code a) else ch | _ \<Rightarrow> ch) = ch"
        using low by (cases ch; cases "tl ch"; simp)
      ultimately show ?thesis unfolding log_escape_def by simp
    qed
    moreover have "c \<noteq> CHR 0x5C" "c \<noteq> CHR 0x22" using assms(2) by auto
    ultimately show ?thesis by (cases "ch = [CHR 0x22] \<or> ch = [CHR 0x5C]") auto
  qed
  ultimately show ?case using Char by auto
qed

lemma log_needs_quotes_ascii:
  assumes "utf8_valid s" and "\<not> log_needs_quotes s"
  shows "s \<noteq> [] \<and> CHR '' '' \<notin> set s \<and> CHR 0x22 \<notin> set s"
proof -
  from assms(2) have "\<forall>ch\<in>set (chars s). \<not> (is_whitespace ch \<or> ch = [CHR 0x22] \<or> ch = ''='')" "s \<noteq> []"
    unfolding log_needs_quotes_def list_ex_iff by blast+
  moreover have "is_whitespace '' ''" by (simp add: is_whitespace_def)
  moreover have "CHR '' '' \<in> set s \<longleftrightarrow> '' '' \<in> set (chars s)" "CHR 0x22 \<in> set s \<longleftrightarrow> [CHR 0x22] \<in> set (chars s)"
    using ascii_in_chars [OF assms(1)] by simp_all
  ultimately show ?thesis by blast
qed

lemma escape_text_inj:
  assumes "utf8_valid s" and "utf8_valid t" and "concat (map log_escape (chars s)) = concat (map log_escape (chars t))"
  shows "s = t"
  using unlog_escaped_text [OF assms(1) utf8_valid_Nil, of "\<lambda>_. False"] unlog_escaped_text [OF assms(2) utf8_valid_Nil, of "\<lambda>_. False"]
    assms(3) by simp

text \<open>A value is read back together with what follows it: nothing, or a blank.\<close>

definition field_end :: "str \<Rightarrow> bool" where
  "field_end rest \<longleftrightarrow> utf8_valid rest \<and> (rest = [] \<or> hd rest = CHR '' '')"

definition read_value :: "str \<Rightarrow> str \<times> str" where
  "read_value s =
     (if s \<noteq> [] \<and> hd s = CHR 0x22
      then (case unlog (\<lambda>c. c = [CHR 0x22]) (chars (tl s)) of (v, rest) \<Rightarrow> (v, concat (tl rest)))
      else (case unlog (\<lambda>c. c = '' '') (chars s) of (v, rest) \<Rightarrow> (v, concat rest)))"

lemma read_value_written:
  assumes "utf8_valid v" and "field_end rest"
  shows "read_value (push_escaped v True @ rest) = (v, rest)"
proof -
  let ?e = "concat (map log_escape (chars v))"
  from assms(2) have rest: "utf8_valid rest" "starts_char rest" "rest = [] \<or> hd rest = CHR '' ''"
    using utf8_valid_starts_char by (auto simp: field_end_def)
  show ?thesis
  proof (cases "log_needs_quotes v")
    case True
    have q: "utf8_valid (CHR 0x22 # rest)" using utf8_valid_append [OF utf8_valid_ascii [of "[CHR 0x22]"] rest(1)] by simp
    have "chars (CHR 0x22 # rest) = [CHR 0x22] # chars rest" using rest(2) by (simp add: chars_plain del: chars.simps)
    moreover have "escaped [CHR 0x22]" by (simp add: escaped_def log_escape_def)
    ultimately have "unlog (\<lambda>c. c = [CHR 0x22]) (chars (?e @ CHR 0x22 # rest)) = (v, [CHR 0x22] # chars rest)"
      using unlog_escaped_text [OF assms(1) q, of "\<lambda>c. c = [CHR 0x22]"] by (simp add: unlog_char)
    with True show ?thesis by (simp add: push_escaped_def read_value_def Let_def)
  next
    case False
    with log_needs_quotes_ascii [OF assms(1)] have v: "v \<noteq> []" "CHR '' '' \<notin> set v" "CHR 0x22 \<notin> set v" by simp_all
    have none: "'' '' \<notin> set (chars v)" "[CHR 0x22] \<notin> set (chars v)"
      using ascii_in_chars [OF assms(1), of "CHR '' ''"] ascii_in_chars [OF assms(1), of "CHR 0x22"] v by simp_all
    have "unlog (\<lambda>c. c = '' '') (chars rest) = ([], chars rest)"
    proof (cases rest)
      case (Cons c cs)
      with rest have c: "c = CHR '' ''" "utf8_char (c # takeWhile is_continuation cs)" by (auto simp: utf8_valid_def)
      from utf8_char_ascii [OF c(2)] c(1) have "takeWhile is_continuation cs = []" by simp
      then have "chars rest = '' '' # chars cs"
        using c(1) by (simp add: Cons) (metis append_Nil takeWhile_dropWhile_id)
      then show ?thesis by (simp add: unlog_char)
    qed simp
    moreover have "unlog (\<lambda>c. c = '' '') (chars (?e @ rest)) =
        (case unlog (\<lambda>c. c = '' '') (chars rest) of (t, after) \<Rightarrow> (v @ t, after))"
      using unlog_escaped_text [OF assms(1) rest(1), of "\<lambda>c. c = '' ''"] none by fastforce
    moreover have "?e \<noteq> [] \<and> hd ?e \<noteq> CHR 0x22"
    proof -
      obtain ch s where ch: "chars v = ch # s" using v(1) by (cases "chars v") auto
      with none(2) assms(1) have "utf8_char ch" "ch \<noteq> [CHR 0x22]" by (auto simp: utf8_valid_def)
      then have "log_escape ch \<noteq> [] \<and> hd (log_escape ch) \<noteq> CHR 0x22"
        using utf8_char_lead [of ch] utf8_char_ascii [of "CHR 0x22"]
        by (cases ch) (auto simp: log_escape_def split: list.split)
      with ch show ?thesis by (simp add: hd_append)
    qed
    ultimately show ?thesis using False by (simp add: push_escaped_def read_value_def Let_def)
  qed
qed

text \<open>The fields of a line are determined by its text.\<close>

definition field_ok :: "str \<times> str \<Rightarrow> bool" where
  "field_ok kv \<longleftrightarrow> utf8_valid (fst kv) \<and> CHR '' '' \<notin> set (fst kv) \<and> CHR ''='' \<notin> set (fst kv) \<and> utf8_valid (snd kv)"

lemma push_escaped_valid: "utf8_valid s \<Longrightarrow> utf8_valid (push_escaped s q)"
  using unlog_escaped_text [of s "[]" "\<lambda>_. False"] utf8_valid_ascii [of "[CHR 0x22]"]
  by (auto simp: push_escaped_def Let_def)

lemma push_escaped_no_newline: "utf8_valid s \<Longrightarrow> CHR 0x0A \<notin> set (push_escaped s q)"
  using escape_text_set [of s "CHR 0x0A"] by (simp add: push_escaped_def Let_def)

lemma fields_end: "list_all field_ok fs \<Longrightarrow> field_end (concat (map field_part fs)) \<and> CHR 0x0A \<notin> set (concat (map field_part fs))"
proof (induction fs)
  case Nil
  show ?case by (simp add: field_end_def)
next
  case (Cons kv fs)
  then have "utf8_valid (field_part kv)" "CHR 0x0A \<notin> set (field_part kv)" "\<exists>s. field_part kv = CHR '' '' # s"
    using push_escaped_valid push_escaped_no_newline utf8_valid_ascii [of "'' ''"] utf8_valid_ascii [of "''=''"]
      utf8_valid_append [of "'' ''"] utf8_valid_append [of "''=''"]
    by (auto simp: field_part_def field_ok_def)
  with Cons show ?case by (auto simp: field_end_def)
qed

lemma push_escaped_False: "push_escaped s False = concat (map log_escape (chars s))"
  by (simp add: push_escaped_def)

lemma fields_Cons:
  "concat (map field_part (kv # fs)) =
     CHR '' '' # push_escaped (fst kv) False @ CHR ''='' # push_escaped (snd kv) True @ concat (map field_part fs)"
  unfolding list.map concat.simps field_part_def [of kv] by simp

lemma fields_inj:
  "list_all field_ok fs \<Longrightarrow> list_all field_ok gs \<Longrightarrow> concat (map field_part fs) = concat (map field_part gs) \<Longrightarrow> fs = gs"
proof (induction fs arbitrary: gs)
  case Nil
  then show ?case by (cases gs) (simp_all add: field_part_def)
next
  case (Cons kv fs)
  then obtain kv' gs' where gs: "gs = kv' # gs'" by (cases gs) (simp_all add: field_part_def)
  let ?R = "concat (map field_part fs)" and ?R' = "concat (map field_part gs')"
  let ?k = "\<lambda>kv. push_escaped (fst kv) False" and ?v = "\<lambda>kv. push_escaped (snd kv) True"
  from Cons.prems gs have ok: "field_ok kv" "field_ok kv'" "list_all field_ok fs" "list_all field_ok gs'"
    and eq: "?k kv @ CHR ''='' # ?v kv @ ?R = ?k kv' @ CHR ''='' # ?v kv' @ ?R'"
    unfolding gs fields_Cons by simp_all
  have no: "CHR ''='' \<notin> set (?k x)" if "field_ok x" for x
    using that escape_text_set [of "fst x" "CHR ''=''"] by (simp add: field_ok_def push_escaped_def)
  have a: "split_once (CHR ''='') (?k kv @ CHR ''='' # ?v kv @ ?R) = Some (?k kv, ?v kv @ ?R)"
    and b: "split_once (CHR ''='') (?k kv' @ CHR ''='' # ?v kv' @ ?R') = Some (?k kv', ?v kv' @ ?R')"
    using no ok(1,2) by (simp_all add: split_once_Some)
  from trans [OF sym [OF a] trans [OF arg_cong [OF eq, of "split_once (CHR ''='')"] b]]
  have "(?k kv, ?v kv @ ?R) = (?k kv', ?v kv' @ ?R')" by (rule option.inject [THEN iffD1])
  then have k: "?k kv = ?k kv'" and v: "?v kv @ ?R = ?v kv' @ ?R'" by (blast dest: prod.inject [THEN iffD1])+
  have "fst kv = fst kv'"
    using escape_text_inj k [unfolded push_escaped_False] ok(1,2) by (simp add: field_ok_def)
  moreover have "read_value (?v kv @ ?R) = (snd kv, ?R)" "read_value (?v kv' @ ?R') = (snd kv', ?R')"
    using fields_end ok by (simp_all add: field_ok_def read_value_written)
  then have "(snd kv, ?R) = (snd kv', ?R')" unfolding v by (rule trans [OF sym])
  ultimately show ?case using Cons.IH [of gs'] ok by (auto simp: gs prod_eq_iff)
qed

text \<open>An event as the call sites log them: a message without an equals sign and keys without blanks.\<close>

definition event_logged :: "timestamp \<times> level \<times> str \<times> (str \<times> str) list \<Rightarrow> bool" where
  "event_logged e = (case e of (at, l, message, fs) \<Rightarrow>
     in_range at \<and> utf8_valid message \<and> CHR ''='' \<notin> set message \<and> list_all field_ok fs)"

definition line_of :: "timestamp \<times> level \<times> str \<times> (str \<times> str) list \<Rightarrow> str" where
  "line_of e = (case e of (at, l, message, fs) \<Rightarrow> format_line at l message fs)"

lemma level_name_text: "length (level_name l) = 5" "CHR 0x0A \<notin> set (level_name l)" "level_name l = level_name l' \<longleftrightarrow> l = l'"
  by (cases l; cases l'; simp)+

lemma takeWhile_upto: "c \<notin> set xs \<Longrightarrow> takeWhile (\<lambda>x. x \<noteq> c) (xs @ c # ys) = xs"
  by (induction xs) auto

lemma message_fields_inj:
  assumes "utf8_valid m" and "utf8_valid m'" and "CHR ''='' \<notin> set m" and "CHR ''='' \<notin> set m'"
    and "list_all field_ok fs" and "list_all field_ok gs"
    and "push_escaped m False @ concat (map field_part fs) = push_escaped m' False @ concat (map field_part gs)"
  shows "m = m' \<and> fs = gs"
proof -
  have no: "CHR ''='' \<notin> set (push_escaped x False)" if "utf8_valid x" "CHR ''='' \<notin> set x" for x
    using that escape_text_set [of x "CHR ''=''"] by (simp add: push_escaped_def)
  have blank: "CHR '' '' \<notin> set (push_escaped k False)" if "utf8_valid k" "CHR '' '' \<notin> set k" for k
    using that escape_text_set [of k "CHR '' ''"] by (simp add: push_escaped_def)
  text \<open>The part before the first equals sign is the message, or the message, a blank and the first key.\<close>
  have "push_escaped m False = push_escaped m' False \<and> concat (map field_part fs) = concat (map field_part gs)"
  proof (cases fs; cases gs)
    fix kv fs' kv' gs' assume f: "fs = kv # fs'" "gs = kv' # gs'"
    let ?p = "push_escaped m False @ '' '' @ push_escaped (fst kv) False"
    let ?p' = "push_escaped m' False @ '' '' @ push_escaped (fst kv') False"
    let ?r = "push_escaped (snd kv) True @ concat (map field_part fs')"
    let ?r' = "push_escaped (snd kv') True @ concat (map field_part gs')"
    from f assms(5,6) have ok: "field_ok kv" "field_ok kv'" by simp_all
    then have "CHR ''='' \<notin> set ?p" "CHR ''='' \<notin> set ?p'" using assms(1-4) no by (simp_all add: field_ok_def)
    then have "split_once (CHR ''='') (?p @ CHR ''='' # ?r) = Some (?p, ?r)"
      "split_once (CHR ''='') (?p' @ CHR ''='' # ?r') = Some (?p', ?r')" by (simp_all only: split_once_Some simp_thms)
    moreover from assms(7) have "?p @ CHR ''='' # ?r = ?p' @ CHR ''='' # ?r'" unfolding f fields_Cons by simp
    ultimately have eq: "?p = ?p'" "?r = ?r'" by simp_all
    let ?b = "\<lambda>c. c \<noteq> CHR '' ''"
    have "takeWhile ?b (rev ?p) = rev (push_escaped (fst kv) False)" "takeWhile ?b (rev ?p') = rev (push_escaped (fst kv') False)"
      using blank ok by (simp_all add: field_ok_def takeWhile_upto)
    with eq(1) have "push_escaped (fst kv) False = push_escaped (fst kv') False" by (metis rev_rev_ident)
    with eq show ?thesis unfolding f fields_Cons by simp
  next
    fix kv fs' assume f: "fs = kv # fs'" "gs = []"
    have "CHR ''='' \<in> set (push_escaped m' False)" using arg_cong [OF assms(7), of set] unfolding f fields_Cons by auto
    with no assms(2,4) show ?thesis by blast
  next
    fix kv gs' assume f: "fs = []" "gs = kv # gs'"
    have "CHR ''='' \<in> set (push_escaped m False)" using arg_cong [OF assms(7), of set] unfolding f fields_Cons by auto
    with no assms(1,3) show ?thesis by blast
  qed (use assms(7) in simp)
  with escape_text_inj [OF assms(1,2)] fields_inj [OF assms(5,6)] show ?thesis by (simp add: push_escaped_def)
qed

lemma line_of_inj:
  assumes "event_logged e" and "event_logged f" and "line_of e = line_of f"
  shows "e = f"
proof -
  obtain at l m fs at' l' m' gs where e: "e = (at, l, m, fs)" "f = (at', l', m', gs)" by (metis prod_cases4)
  with assms have r: "in_range at" "in_range at'" and eq: "to_rfc3339 at @ '' '' @ level_name l @ '' '' @ push_escaped m False @ concat (map field_part fs) =
      to_rfc3339 at' @ '' '' @ level_name l' @ '' '' @ push_escaped m' False @ concat (map field_part gs)"
    by (simp_all add: event_logged_def line_of_def format_line_def)
  have "length (to_rfc3339 at) = length (to_rfc3339 at')" using rfc3339_plain r by simp
  from iffD1 [OF append_eq_append_conv [OF disjI1 [OF this]] eq] have "to_rfc3339 at = to_rfc3339 at' \<and> '' '' @ level_name l @ '' '' @ push_escaped m False @ concat (map field_part fs) =
      '' '' @ level_name l' @ '' '' @ push_escaped m' False @ concat (map field_part gs)" .
  moreover have "length (level_name l) = length (level_name l')" by (simp add: level_name_text)
  ultimately have "at = at'" "l = l'"
    and rest: "push_escaped m False @ concat (map field_part fs) = push_escaped m' False @ concat (map field_part gs)"
    using rfc3339_iff [of "to_rfc3339 at" at] rfc3339_iff [of "to_rfc3339 at" at'] r by (auto simp: level_name_text)
  with message_fields_inj [OF _ _ _ _ _ _ rest] assms e show ?thesis by (simp add: event_logged_def)
qed

lemma line_of_no_newline:
  assumes "event_logged e"
  shows "CHR 0x0A \<notin> set (line_of e)"
proof -
  obtain at l m fs where e: "e = (at, l, m, fs)" by (metis prod_cases4)
  with assms have "list_all plain_char (to_rfc3339 at)" using rfc3339_plain [of at] by (simp add: event_logged_def)
  moreover have "\<not> plain_char (CHR 0x0A)" by (simp add: plain_char_def)
  ultimately have "CHR 0x0A \<notin> set (to_rfc3339 at)" unfolding list_all_iff by blast
  moreover have "CHR 0x0A \<notin> set (push_escaped m False)" "CHR 0x0A \<notin> set (concat (map field_part fs))"
    using assms e push_escaped_no_newline [of m False] fields_end [of fs] by (simp_all add: event_logged_def)
  ultimately show ?thesis unfolding e line_of_def prod.case format_line_def using level_name_text(2) [of l] by simp
qed

text \<open>A run of the program logs one event after another.\<close>

definition log_all :: "(timestamp \<times> level \<times> str \<times> (str \<times> str) list) list \<Rightarrow> logger \<Rightarrow> logger" where
  "log_all es g = fold (\<lambda>(at, l, message, fs). emit at l message fs) es g"

definition event_enabled :: "logger \<Rightarrow> timestamp \<times> level \<times> str \<times> (str \<times> str) list \<Rightarrow> bool" where
  "event_enabled g e \<longleftrightarrow> log_enabled (fst (snd e)) g"

lemma log_all_written:
  "lo_written (log_all es g) = lo_written g @ concat (map (\<lambda>e. line_of e @ [CHR 0x0A]) (filter (event_enabled g) es)) \<and>
   lo_level (log_all es g) = lo_level g"
proof (induction es arbitrary: g)
  case Nil
  show ?case by (simp add: log_all_def)
next
  case (Cons e es)
  obtain at l m fs where e: "e = (at, l, m, fs)" by (metis prod_cases4)
  let ?g = "emit at l m fs g"
  have "event_enabled ?g = event_enabled g" by (auto simp: event_enabled_def emit_def log_enabled_def)
  moreover have "log_all (e # es) g = log_all es ?g" by (simp add: log_all_def e)
  moreover have "lo_level ?g = lo_level g" by (simp add: emit_def)
  ultimately show ?case using Cons [of ?g]
    by (auto simp: e event_enabled_def emit_def line_of_def)
qed

lemma lines_inj:
  assumes "list_all event_logged es" and "list_all event_logged fs"
    and "concat (map (\<lambda>e. line_of e @ [CHR 0x0A]) es) = concat (map (\<lambda>e. line_of e @ [CHR 0x0A]) fs)"
  shows "es = fs"
  using assms
proof (induction es arbitrary: fs)
  case Nil
  then show ?case by (cases fs) simp_all
next
  case (Cons e es)
  then obtain f fs' where f: "fs = f # fs'" by (cases fs) simp_all
  let ?r = "\<lambda>es. concat (map (\<lambda>e. line_of e @ [CHR 0x0A]) es)"
  from Cons.prems f have ok: "event_logged e" "event_logged f" "list_all event_logged es" "list_all event_logged fs'"
    and eq: "line_of e @ CHR 0x0A # ?r es = line_of f @ CHR 0x0A # ?r fs'" by simp_all
  have a: "split_once (CHR 0x0A) (line_of x @ CHR 0x0A # s) = Some (line_of x, s)" if "event_logged x" for x s
    using line_of_no_newline [OF that] by (simp add: split_once_Some)
  from trans [OF sym [OF a [OF ok(1)]] trans [OF arg_cong [OF eq, of "split_once (CHR 0x0A)"] a [OF ok(2)]]]
  have "(line_of e, ?r es) = (line_of f, ?r fs')" by (rule option.inject [THEN iffD1])
  then have "line_of e = line_of f" "?r es = ?r fs'" by (blast dest: prod.inject [THEN iffD1])+
  with line_of_inj [OF ok(1,2)] Cons.IH [OF ok(3,4)] f show ?case by blast
qed

section \<open>Properties\<close>

text \<open>
  C35: The log cannot be forged through what it records: from the text written to standard error
  alone, the whole sequence of logged events is determined, with every instant, level, message,
  key and value. No value of a field, whatever characters a caller puts into it, can look like a
  second record, a second field or another value.
\<close>

theorem the_log_is_evidence:
  assumes "list_all event_logged es" and "list_all event_logged fs"
    and "lo_written (log_all es g) = lo_written (log_all fs g)"
  shows "filter (event_enabled g) es = filter (event_enabled g) fs"
proof (rule lines_inj)
  show "list_all event_logged (filter (event_enabled g) es)" "list_all event_logged (filter (event_enabled g) fs)"
    using assms(1,2) by (auto simp: list_all_iff)
  show "concat (map (\<lambda>e. line_of e @ [CHR 0x0A]) (filter (event_enabled g) es)) =
      concat (map (\<lambda>e. line_of e @ [CHR 0x0A]) (filter (event_enabled g) fs))"
    using assms(3) by (simp add: log_all_written)
qed

text \<open>Two refused log-ins whose addresses try to pass for more: the text tells them apart.\<close>

definition sample_login :: "str \<Rightarrow> timestamp \<times> level \<times> str \<times> (str \<times> str) list" where
  "sample_login email = (Timestamp 0, Warn, ''login'', [(''email'', email), (''outcome'', ''refused'')])"

theorem the_log_is_evidence_witness:
  "lo_written (log_all [sample_login ''a outcome=ok''] initial_logger) \<noteq>
   lo_written (log_all [sample_login ''a''] initial_logger)"
proof
  assume "lo_written (log_all [sample_login ''a outcome=ok''] initial_logger) =
    lo_written (log_all [sample_login ''a''] initial_logger)"
  from the_log_is_evidence [OF _ _ this]
  have "filter (event_enabled initial_logger) [sample_login ''a outcome=ok''] =
      filter (event_enabled initial_logger) [sample_login ''a'']"
    by (simp add: event_logged_def sample_login_def in_range_def min_unix_def max_unix_def field_ok_def utf8_valid_ascii)
  then show False
    by (simp add: event_enabled_def sample_login_def log_enabled_def initial_logger_def)
qed

end
