(* ===== verification/Cli_Shell.thy ===== *)
theory Cli_Shell
  imports Dotenv Http_Response Json
begin

text \<open>
  What \<open>lsec\<close> runs in and how it reaches the server: \<open>ls-cli/src/config.rs\<close>,
  \<open>ls-cli/src/input.rs\<close> and \<open>ls-cli/src/api.rs\<close>. The process is a state, \<open>shell\<close>: environment
  variables, files with their modes, standard input and the echo of the terminal, the two outputs,
  and \<open>sh_net\<close>, whatever is on the other side of the network. \<open>sh_refused\<close> gives the error with which
  a path is refused, \<open>sh_fixed\<close> the paths whose mode cannot be set, \<open>sh_stty\<close> whether \<open>stty\<close> can
  change the echo. What the operating system does is
  \<open>outside\<close>: resolving a name, carrying bytes to an address and giving the connection the answer
  comes from, and running a program; \<open>ou_debug\<close> is how a string is printed by \<open>{:?}\<close>. Every text is UTF-8, also the variables read as raw text.
\<close>

section \<open>The process\<close>

record 's shell =
  sh_var :: "str \<Rightarrow> str option"
  sh_files :: "str \<Rightarrow> bytes option"
  sh_modes :: "str \<Rightarrow> nat"
  sh_refused :: "str \<Rightarrow> str option"
  sh_fixed :: "str \<Rightarrow> bool"
  sh_tty :: bool
  sh_echo :: bool
  sh_stty :: bool
  sh_input :: bytes
  sh_out :: str
  sh_err :: str
  sh_net :: 's

record 's outside =
  ou_resolve :: "str \<Rightarrow> str + str list"
  ou_transmit :: "str \<Rightarrow> bytes \<Rightarrow> 's \<Rightarrow> conn option \<times> 's"
  ou_spawn :: "str \<Rightarrow> str list \<Rightarrow> (str \<times> str) list \<Rightarrow> 's \<Rightarrow> (str + int option) \<times> 's"
  ou_debug :: "str \<Rightarrow> str"

text \<open>A command: a result or the message of its failure, and the process it leaves.\<close>

type_synonym ('s, 'a) cmd = "'s shell \<Rightarrow> (str + 'a) \<times> 's shell"

definition creturn :: "'a \<Rightarrow> ('s, 'a) cmd" where
  "creturn x sh = (Inr x, sh)"

definition cfail :: "str \<Rightarrow> ('s, 'a) cmd" where
  "cfail e sh = (Inl e, sh)"

definition cbind :: "('s, 'a) cmd \<Rightarrow> ('a \<Rightarrow> ('s, 'b) cmd) \<Rightarrow> ('s, 'b) cmd" where
  "cbind m f sh = (case m sh of (Inl e, sh1) \<Rightarrow> (Inl e, sh1) | (Inr x, sh1) \<Rightarrow> f x sh1)"

definition clook :: "('s shell \<Rightarrow> str + 'a) \<Rightarrow> ('s, 'a) cmd" where
  "clook f sh = (f sh, sh)"

definition cthen :: "('s, unit) cmd \<Rightarrow> ('s, 'b) cmd \<Rightarrow> ('s, 'b) cmd" where
  "cthen m k = cbind m (\<lambda>_. k)"

definition say :: "str \<Rightarrow> ('s, unit) cmd" where
  "say s sh = (Inr (), sh\<lparr>sh_out := sh_out sh @ s @ newline\<rparr>)"

definition eprint :: "str \<Rightarrow> ('s, unit) cmd" where
  "eprint s sh = (Inr (), sh\<lparr>sh_err := sh_err sh @ s\<rparr>)"

primrec say_all :: "str list \<Rightarrow> ('s, unit) cmd" where
  "say_all [] = creturn ()"
| "say_all (s # ss) = cthen (say s) (say_all ss)"

section \<open>Files\<close>

definition absent_text :: str where "absent_text = ''No such file or directory (os error 2)''"
definition not_utf8_text :: str where "not_utf8_text = ''stream did not contain valid UTF-8''"

text \<open>\<open>PathBuf::join\<close> with a relative path.\<close>

definition join_path :: "str \<Rightarrow> str \<Rightarrow> str" where
  "join_path a b = (if a = [] \<or> last a = CHR ''/'' then a @ b else a @ ''/'' @ b)"

definition read_to_string :: "str \<Rightarrow> 's shell \<Rightarrow> str + str" where
  "read_to_string p sh =
     (case sh_refused sh p of
        Some e \<Rightarrow> Inl e
      | None \<Rightarrow> and_then (ok_or absent_text (sh_files sh p)) (\<lambda>bs. ok_or not_utf8_text (from_utf8 bs)))"

definition restrict :: "str \<Rightarrow> nat \<Rightarrow> 's shell \<Rightarrow> 's shell" where
  "restrict p mode sh = (if sh_fixed sh p then sh else sh\<lparr>sh_modes := (sh_modes sh)(p := mode)\<rparr>)"

text \<open>The octal modes 0600 and 0700.\<close>

definition file_mode :: nat where "file_mode = 6 * 8 ^ 2"
definition directory_mode :: nat where "directory_mode = 7 * 8 ^ 2"

text \<open>A new file gets its mode when it is created, an old one when it has been written.\<close>

definition write_private :: "str \<Rightarrow> str \<Rightarrow> ('s, unit) cmd" where
  "write_private p body sh =
     (case sh_refused sh p of
        Some e \<Rightarrow> (Inl e, sh)
      | None \<Rightarrow>
          let sh1 = (if sh_files sh p = None then sh\<lparr>sh_modes := (sh_modes sh)(p := file_mode)\<rparr> else sh)
          in (Inr (), restrict p file_mode (sh1\<lparr>sh_files := (sh_files sh)(p \<mapsto> as_bytes body)\<rparr>)))"

section \<open>Configuration\<close>

definition pin_file :: str where "pin_file = ''.localsecrets''"
definition default_server :: str where "default_server = ''127.0.0.1:8787''"

record pin =
  pin_project :: "str option"
  pin_environment :: "str option"

definition config_dir :: "'s shell \<Rightarrow> str" where
  "config_dir sh =
     (case sh_var sh ''HOME'' of
        Some home \<Rightarrow> join_path home ''.config/localsecrets''
      | None \<Rightarrow> ''.localsecrets-config'')"

definition token_path :: "'s shell \<Rightarrow> str" where
  "token_path sh = join_path (config_dir sh) ''token''"

definition cached_token :: "'s shell \<Rightarrow> str option" where
  "cached_token sh =
     (case read_to_string (token_path sh) sh of
        Inl _ \<Rightarrow> None
      | Inr s \<Rightarrow> let trimmed = trim s in if trimmed = [] then None else Some trimmed)"

definition store_token :: "str \<Rightarrow> ('s, unit) cmd" where
  "store_token token sh =
     (let directory = config_dir sh in
      case sh_refused sh directory of
        Some e \<Rightarrow> (Inl e, sh)
      | None \<Rightarrow> write_private (token_path sh) token (restrict directory directory_mode sh))"

definition forget_token :: "('s, unit) cmd" where
  "forget_token sh =
     (case sh_refused sh (token_path sh) of
        Some e \<Rightarrow> (Inl e, sh)
      | None \<Rightarrow> (Inr (), sh\<lparr>sh_files := (sh_files sh)(token_path sh := None)\<rparr>))"

definition pin_line :: "pin \<Rightarrow> str \<Rightarrow> pin" where
  "pin_line p raw =
     (let line = trim raw in
      if line = [] \<or> hd line = CHR ''#'' then p
      else (case split_once (CHR ''='') line of
          None \<Rightarrow> p
        | Some (name, val) \<Rightarrow>
            if trim name = ''project'' then p\<lparr>pin_project := Some (trim val)\<rparr>
            else if trim name = ''environment'' then p\<lparr>pin_environment := Some (trim val)\<rparr>
            else p))"

definition read_pin :: "'s shell \<Rightarrow> pin" where
  "read_pin sh =
     (let empty = \<lparr>pin_project = None, pin_environment = None\<rparr> in
      case read_to_string pin_file sh of
        Inl _ \<Rightarrow> empty
      | Inr s \<Rightarrow> foldl pin_line empty (text_lines s))"

definition pin_text :: "str \<Rightarrow> str \<Rightarrow> str" where
  "pin_text project environment = ''project='' @ project @ newline @ ''environment='' @ environment @ newline"

definition write_pin :: "str \<Rightarrow> str \<Rightarrow> ('s, unit) cmd" where
  "write_pin project environment sh =
     (case sh_refused sh pin_file of
        Some e \<Rightarrow> (Inl e, sh)
      | None \<Rightarrow> (Inr (), sh\<lparr>sh_files := (sh_files sh)(pin_file \<mapsto> as_bytes (pin_text project environment))\<rparr>))"

definition server_address :: "'s shell \<Rightarrow> str" where
  "server_address sh = (case sh_var sh ''LS_SERVER'' of Some s \<Rightarrow> s | None \<Rightarrow> default_server)"

section \<open>Input\<close>

definition input_line :: "str \<Rightarrow> ('s, str) cmd" where
  "input_line prompt sh =
     (let sh1 = (if sh_tty sh then sh\<lparr>sh_err := sh_err sh @ prompt\<rparr> else sh);
          (taken, rest) = (case split_once 10 (sh_input sh1) of
              Some (a, b) \<Rightarrow> (a @ [10], b)
            | None \<Rightarrow> (sh_input sh1, []))
      in (map_sum (\<lambda>e. ''could not read input: '' @ e) trim_line_end (ok_or not_utf8_text (from_utf8 taken)),
          sh1\<lparr>sh_input := rest\<rparr>))"

definition secret_line :: "str \<Rightarrow> ('s, str) cmd" where
  "secret_line prompt sh =
     (if \<not> sh_tty sh then input_line [] sh
      else
        let sh1 = sh\<lparr>sh_err := sh_err sh @ prompt\<rparr>; echo_off = sh_stty sh;
            sh2 = (if echo_off then sh1\<lparr>sh_echo := False\<rparr>
                   else sh1\<lparr>sh_err := sh_err sh1 @ newline @
                     ''lsec: could not turn off the terminal echo; what you type will be visible'' @ newline\<rparr>)
        in (case input_line [] sh2 of (val, sh3) \<Rightarrow>
          (val, if echo_off then sh3\<lparr>sh_echo := True, sh_err := sh_err sh3 @ newline\<rparr> else sh3)))"

definition all_of_stdin :: "('s, bytes) cmd" where
  "all_of_stdin sh = (Inr (sh_input sh), sh\<lparr>sh_input := []\<rparr>)"

section \<open>Talking to the server\<close>

record server_link =
  sl_address :: str
  sl_token :: "str option"

definition connect :: "'s outside \<Rightarrow> str \<Rightarrow> str option \<Rightarrow> str + server_link" where
  "connect ou address token =
     and_then (map_err (\<lambda>e. ''could not resolve '' @ address @ '': '' @ e) (ou_resolve ou address)) (\<lambda>found.
       case found of
         [] \<Rightarrow> Inl (address @ '' resolved to nothing'')
       | resolved # _ \<Rightarrow> Inr \<lparr>sl_address = resolved, sl_token = token\<rparr>)"

definition show_json_error :: "(str \<Rightarrow> str) \<Rightarrow> json_error \<Rightarrow> str" where
  "show_json_error dbg e = (case e of
     UnexpectedEnd \<Rightarrow> ''input ended unexpectedly''
   | Unexpected at \<Rightarrow> ''unexpected character at byte '' @ show_nat at
   | TrailingContent \<Rightarrow> ''unexpected text after the value''
   | DuplicateKey key \<Rightarrow> ''duplicate object key '' @ dbg key
   | TooDeep \<Rightarrow> ''nesting deeper than '' @ show_nat max_depth)"

definition call_headers :: "str \<Rightarrow> str option \<Rightarrow> (str \<times> str) list" where
  "call_headers method token =
     (if method \<noteq> ''GET'' then [(''content-type'', ''application/json'')] else []) @
     (case token of Some t \<Rightarrow> [(''authorization'', ''Bearer '' @ t)] | None \<Rightarrow> [])"

text \<open>What \<open>call\<close> makes of an answer: its value, or the server's message for an error status.\<close>

definition answer_value :: "'s outside \<Rightarrow> client_response \<Rightarrow> str + json" where
  "answer_value ou r =
     (let s = trim (case from_utf8 (cr_body r) of Some s \<Rightarrow> s | None \<Rightarrow> []) in
      and_then (if s = [] then Inr JNull
          else map_err (\<lambda>e. ''the server sent something unreadable: '' @ show_json_error (ou_debug ou) e) (json_parse s)) (\<lambda>v.
        if 200 \<le> cr_status r \<and> cr_status r < 300 then Inr v
        else
          let message = (case Option.bind (json_get ''error'' v) as_str of
              Some m \<Rightarrow> m | None \<Rightarrow> ''the server refused the request'')
          in Inl (message @ '' (status '' @ show_nat (cr_status r) @ '')'')))"

text \<open>
  \<open>Client::send\<close> connects before it looks at the headers, so one with a line break costs a connection
  on which nothing is sent.
\<close>

definition send_over :: "'s outside \<Rightarrow> str \<Rightarrow> str \<Rightarrow> str \<Rightarrow> (str \<times> str) list \<Rightarrow> bytes \<Rightarrow> 's \<Rightarrow> (http_error + client_response) \<times> 's" where
  "send_over ou address method path headers body net =
     (case client_send address method path headers body of
        Inl e \<Rightarrow> (case ou_transmit ou address [] net of
            (None, net1) \<Rightarrow> (Inl HttpIo, net1)
          | (Some _, net1) \<Rightarrow> (Inl e, net1))
      | Inr bs \<Rightarrow> (case ou_transmit ou address bs net of
            (None, net1) \<Rightarrow> (Inl HttpIo, net1)
          | (Some c, net1) \<Rightarrow> (fst (read_response default_limits c), net1)))"

definition call :: "'s outside \<Rightarrow> server_link \<Rightarrow> str \<Rightarrow> str \<Rightarrow> json option \<Rightarrow> ('s, json) cmd" where
  "call ou link method path body sh =
     (let rendered = (case body of Some v \<Rightarrow> render v | None \<Rightarrow> []) in
      case send_over ou (sl_address link) method path (call_headers method (sl_token link)) (as_bytes rendered) (sh_net sh) of
        (Inl e, net1) \<Rightarrow>
          (Inl (''could not reach the server at '' @ sl_address link @ '': '' @ show_http_error e), sh\<lparr>sh_net := net1\<rparr>)
      | (Inr r, net1) \<Rightarrow> (answer_value ou r, sh\<lparr>sh_net := net1\<rparr>))"

definition answer_field :: "json \<Rightarrow> str \<Rightarrow> str + str" where
  "answer_field v name = ok_or (''the server did not send a '' @ name) (Option.bind (json_get name v) as_str)"

end
