(* ===== verification/Cli.thy ===== *)
theory Cli
  imports Cli_Shell
begin

text \<open>
  The command line of \<open>lsec\<close>: \<open>ls-cli/src/main.rs\<close> and \<open>ls-cli/src/commands.rs\<close>. The options every
  command shares are pulled out of the arguments, then one definition per command runs in the process
  of \<open>Cli_Shell\<close>: it reads arguments, environment and input, makes its call and prints.
\<close>

section \<open>Arguments\<close>

record common =
  co_project :: "str option"
  co_environment :: "str option"
  co_token :: "str option"

definition next_argument :: "str list \<Rightarrow> str option" where
  "next_argument args = (case args of [] \<Rightarrow> None | a # _ \<Rightarrow> Some a)"

fun extract_loop :: "str list \<Rightarrow> common \<Rightarrow> str list \<Rightarrow> common \<times> str list" where
  "extract_loop [] c rest = (c, rest)"
| "extract_loop (a # as) c rest =
     (if a = ''--project'' \<or> a = ''-p'' then extract_loop (drop 1 as) (c\<lparr>co_project := next_argument as\<rparr>) rest
      else if a = ''--env'' \<or> a = ''-e'' then extract_loop (drop 1 as) (c\<lparr>co_environment := next_argument as\<rparr>) rest
      else if a = ''--token'' then extract_loop (drop 1 as) (c\<lparr>co_token := next_argument as\<rparr>) rest
      else extract_loop as c (rest @ [a]))"

definition extract_options :: "str list \<Rightarrow> common \<times> str list" where
  "extract_options args = extract_loop args \<lparr>co_project = None, co_environment = None, co_token = None\<rparr> []"

fun option_value :: "str list \<Rightarrow> str \<Rightarrow> str option" where
  "option_value [] name = None"
| "option_value (a # as) name = (if a = name then next_argument as else option_value as name)"

definition number_option :: "str list \<Rightarrow> str \<Rightarrow> int option" where
  "number_option args name = Option.bind (option_value args name) parse_i64"

definition or_else :: "'a option \<Rightarrow> 'a option \<Rightarrow> 'a option" where
  "or_else a b = (case a of Some x \<Rightarrow> Some x | None \<Rightarrow> b)"

definition or_default :: "'a \<Rightarrow> 'a option \<Rightarrow> 'a" where
  "or_default d a = (case a of Some x \<Rightarrow> x | None \<Rightarrow> d)"

definition token_for :: "common \<Rightarrow> 's shell \<Rightarrow> str option" where
  "token_for c sh =
     or_else (co_token c)
       (or_else (case sh_var sh ''LS_TOKEN'' of Some t \<Rightarrow> if t = [] then None else Some t | None \<Rightarrow> None) (cached_token sh))"

definition project_for :: "common \<Rightarrow> 's shell \<Rightarrow> str + str" where
  "project_for c sh =
     ok_or ''no project; pass --project or run `lsec use PROJECT ENV` here'' (or_else (co_project c) (pin_project (read_pin sh)))"

definition environment_for :: "common \<Rightarrow> 's shell \<Rightarrow> str + str" where
  "environment_for c sh =
     ok_or ''no environment; pass --env or run `lsec use PROJECT ENV` here''
       (or_else (co_environment c) (pin_environment (read_pin sh)))"

definition connect_for :: "'s outside \<Rightarrow> common \<Rightarrow> 's shell \<Rightarrow> str + server_link" where
  "connect_for ou c sh = connect ou (server_address sh) (token_for c sh)"

definition connect_authenticated :: "'s outside \<Rightarrow> common \<Rightarrow> 's shell \<Rightarrow> str + server_link" where
  "connect_authenticated ou c sh =
     and_then (connect_for ou c sh) (\<lambda>link.
       if sl_token link = None then Inl ''not logged in; run `lsec login EMAIL`'' else Inr link)"

text \<open>An authenticated call, and the paths under a project.\<close>

definition authed_call :: "'s outside \<Rightarrow> common \<Rightarrow> str \<Rightarrow> str \<Rightarrow> json option \<Rightarrow> ('s, json) cmd" where
  "authed_call ou c method path body =
     cbind (clook (connect_authenticated ou c)) (\<lambda>link. call ou link method path body)"

definition plain_call :: "'s outside \<Rightarrow> common \<Rightarrow> str \<Rightarrow> str \<Rightarrow> json option \<Rightarrow> ('s, json) cmd" where
  "plain_call ou c method path body = cbind (clook (connect_for ou c)) (\<lambda>link. call ou link method path body)"

definition envs_path :: "str \<Rightarrow> str" where
  "envs_path project = ''/v1/projects/'' @ project @ ''/envs''"

definition secrets_path :: "str \<Rightarrow> str \<Rightarrow> str" where
  "secrets_path project environment = envs_path project @ ''/'' @ environment @ ''/secrets''"

definition secret_path :: "str \<Rightarrow> str \<Rightarrow> str \<Rightarrow> str" where
  "secret_path project environment key = secrets_path project environment @ ''/'' @ key"

definition exit_success :: nat where "exit_success = 0"
definition exit_failure :: nat where "exit_failure = 1"

definition finish :: "str list \<Rightarrow> ('s, nat) cmd" where
  "finish lines = cthen (say_all lines) (creturn exit_success)"

section \<open>System\<close>

definition share_body :: "str list \<Rightarrow> int \<times> int \<times> json" where
  "share_body args =
     (let threshold = or_default 1 (number_option args ''--threshold''); shares = or_default 1 (number_option args ''--shares'')
      in (threshold, shares, json_object [(''threshold'', JInt threshold), (''shares'', JInt shares)]))"

definition listed_shares :: "json \<Rightarrow> str + str list" where
  "listed_shares answer =
     map_sum id (\<lambda>items. map (\<lambda>share. ''  '' @ share) (List.map_filter as_str items))
       (ok_or ''the server did not send any shares'' (Option.bind (json_get ''shares'' answer) as_array))"

definition cmd_init :: "'s outside \<Rightarrow> common \<Rightarrow> str list \<Rightarrow> ('s, nat) cmd" where
  "cmd_init ou c args =
     (case share_body args of (threshold, shares, body) \<Rightarrow>
      cbind (plain_call ou c ''POST'' ''/v1/sys/init'' (Some body)) (\<lambda>answer.
      cbind (clook (\<lambda>_. listed_shares answer)) (\<lambda>listed.
      cthen (say_all
        ([''Vault initialised. '' @ show_int threshold @ '' of '' @ show_int shares @ '' shares are needed to unseal it.'', [],
          ''These are shown once and are not stored anywhere. Write them down now,'',
          ''and keep them apart from each other and from the server.'', []] @ listed @ [[]]))
      (cbind (clook (\<lambda>_. answer_field answer ''root_token'')) (\<lambda>token.
        finish
          [''root token: '' @ token, [],
           ''Use the root token once, to create the first account. It is asked'',
           ''for at a prompt, so it does not land in your shell history:'',
           ''  lsec user create you@example.com''])))))"

definition cmd_rekey :: "'s outside \<Rightarrow> common \<Rightarrow> str list \<Rightarrow> ('s, nat) cmd" where
  "cmd_rekey ou c args =
     (case share_body args of (threshold, shares, body) \<Rightarrow>
      cbind (authed_call ou c ''POST'' ''/v1/sys/rekey'' (Some body)) (\<lambda>answer.
      cbind (clook (\<lambda>_. listed_shares answer)) (\<lambda>listed.
      finish
        ([''Shares re-split. '' @ show_int threshold @ '' of '' @ show_int shares @ '' are needed to unseal.'', [],
          ''The previous shares no longer open this vault. These are shown once:'', []] @ listed @
         [[], ''The secrets themselves are untouched; only the shares changed.'']))))"

definition exposed_share :: str where
  "exposed_share = ''lsec: a share on the command line goes into your shell history and is '' @
     ''visible to anyone who can list processes; prefer `lsec unseal` and '' @ ''paste it at the prompt'' @ newline"

definition answer_number :: "json \<Rightarrow> str \<Rightarrow> int" where
  "answer_number answer name = or_default 0 (Option.bind (json_get name answer) as_i64)"

definition cmd_unseal :: "'s outside \<Rightarrow> common \<Rightarrow> str list \<Rightarrow> ('s, nat) cmd" where
  "cmd_unseal ou c args =
     (if ''--reset'' \<in> set args
      then
        cbind (plain_call ou c ''POST'' ''/v1/sys/unseal'' (Some (json_object [(''reset'', JBool True)]))) (\<lambda>answer.
          finish [''attempt abandoned: 0 of '' @ show_int (answer_number answer ''threshold'') @ '' shares''])
      else
        cbind (case args of
            share # _ \<Rightarrow> cthen (eprint exposed_share) (creturn share)
          | [] \<Rightarrow> secret_line ''unseal share: '') (\<lambda>share.
        cbind (plain_call ou c ''POST'' ''/v1/sys/unseal'' (Some (json_object [(''share'', JString (trim share))]))) (\<lambda>answer.
          finish [if or_default True (Option.bind (json_get ''sealed'' answer) as_bool)
            then ''still sealed: '' @ show_int (answer_number answer ''progress'') @ '' of '' @
              show_int (answer_number answer ''threshold'') @ '' shares''
            else ''unsealed''])))"

definition cmd_seal :: "'s outside \<Rightarrow> common \<Rightarrow> ('s, nat) cmd" where
  "cmd_seal ou c = cbind (authed_call ou c ''POST'' ''/v1/sys/seal'' None) (\<lambda>_. finish [''sealed''])"

definition cmd_status :: "'s outside \<Rightarrow> common \<Rightarrow> ('s, nat) cmd" where
  "cmd_status ou c =
     cbind (plain_call ou c ''GET'' ''/v1/sys/health'' None) (\<lambda>answer sh.
       finish
         ([''server:  '' @ server_address sh,
           ''state:   '' @ (if or_default True (Option.bind (json_get ''sealed'' answer) as_bool) then ''sealed'' else ''unsealed''),
           ''vault:   '' @ (if or_default False (Option.bind (json_get ''initialized'' answer) as_bool)
              then ''initialised'' else ''not initialised'')] @
          (case Option.bind (json_get ''version'' answer) as_str of Some v \<Rightarrow> [''version: '' @ v] | None \<Rightarrow> []) @
          (case (pin_project (read_pin sh), pin_environment (read_pin sh)) of
             (Some project, Some environment) \<Rightarrow> [''here:    '' @ project @ ''/'' @ environment]
           | _ \<Rightarrow> [])) sh)"

section \<open>Accounts\<close>

definition credentials_body :: "str \<Rightarrow> str \<Rightarrow> json" where
  "credentials_body email password = json_object [(''email'', JString email), (''password'', JString password)]"

definition cmd_create_user :: "'s outside \<Rightarrow> common \<Rightarrow> str list \<Rightarrow> ('s, nat) cmd" where
  "cmd_create_user ou c args =
     cbind (clook (\<lambda>_. ok_or ''usage: lsec user create EMAIL'' (next_argument args))) (\<lambda>email.
     cbind (\<lambda>sh. case token_for c sh of
          Some token \<Rightarrow> clook (\<lambda>sh. connect ou (server_address sh) (Some token)) sh
        | None \<Rightarrow>
            cbind (secret_line ''root token: '') (\<lambda>root.
              if trim root = [] then cfail ''a token is needed to create an account''
              else clook (\<lambda>sh. connect ou (server_address sh) (Some (trim root)))) sh) (\<lambda>link.
     cbind (secret_line ''password: '') (\<lambda>password.
     cbind (call ou link ''POST'' ''/v1/users'' (Some (credentials_body email password))) (\<lambda>_.
       finish [''created '' @ email]))))"

definition cmd_login :: "'s outside \<Rightarrow> common \<Rightarrow> str list \<Rightarrow> ('s, nat) cmd" where
  "cmd_login ou c args =
     cbind (case args of email # _ \<Rightarrow> creturn email | [] \<Rightarrow> input_line ''email: '') (\<lambda>email.
     cbind (secret_line ''password: '') (\<lambda>password.
     cbind (plain_call ou c ''POST'' ''/v1/auth/login'' (Some (credentials_body email password))) (\<lambda>answer.
     cbind (clook (\<lambda>_. answer_field answer ''token'')) (\<lambda>token.
     cbind (\<lambda>sh. case store_token token sh of (r, sh1) \<Rightarrow> (map_err (\<lambda>e. ''could not store the token: '' @ e) r, sh1)) (\<lambda>_.
       finish [''logged in as '' @ email])))))"

text \<open>The server is told first; whatever it says, the token is forgotten here.\<close>

definition cmd_logout :: "'s outside \<Rightarrow> common \<Rightarrow> ('s, nat) cmd" where
  "cmd_logout ou c sh =
     (let sh1 = (case connect_authenticated ou c sh of
          Inr link \<Rightarrow> snd (call ou link ''POST'' ''/v1/auth/logout'' None sh)
        | Inl _ \<Rightarrow> sh)
      in cbind (\<lambda>sh. case forget_token sh of (r, sh1) \<Rightarrow> (map_err (\<lambda>e. ''could not remove the cached token: '' @ e) r, sh1))
           (\<lambda>_. finish [''logged out'']) sh1)"

section \<open>Projects and environments\<close>

definition cmd_use :: "str list \<Rightarrow> ('s, nat) cmd" where
  "cmd_use args =
     (case args of
        project # environment # _ \<Rightarrow>
          cbind (\<lambda>sh. case write_pin project environment sh of
              (r, sh1) \<Rightarrow> (map_err (\<lambda>e. ''could not write '' @ pin_file @ '': '' @ e) r, sh1)) (\<lambda>_.
            finish [''using '' @ project @ ''/'' @ environment @ '' here''])
      | _ \<Rightarrow> cfail ''usage: lsec use PROJECT ENVIRONMENT'')"

definition named_body :: "str \<Rightarrow> str list \<Rightarrow> json" where
  "named_body slug args =
     json_object [(''slug'', JString slug), (''name'', JString (or_default slug (option_value args ''--name'')))]"

definition cmd_create_project :: "'s outside \<Rightarrow> common \<Rightarrow> str list \<Rightarrow> ('s, nat) cmd" where
  "cmd_create_project ou c args =
     cbind (clook (\<lambda>_. ok_or ''usage: lsec project create SLUG'' (next_argument args))) (\<lambda>slug.
     cbind (authed_call ou c ''POST'' ''/v1/projects'' (Some (named_body slug args))) (\<lambda>_.
       finish [''created project '' @ slug]))"

definition listed_names :: "json \<Rightarrow> str \<Rightarrow> str list" where
  "listed_names answer name = List.map_filter as_str (or_default [] (Option.bind (json_get name answer) as_array))"

definition cmd_list_projects :: "'s outside \<Rightarrow> common \<Rightarrow> ('s, nat) cmd" where
  "cmd_list_projects ou c =
     cbind (authed_call ou c ''GET'' ''/v1/projects'' None) (\<lambda>answer. finish (listed_names answer ''projects''))"

definition cmd_create_environment :: "'s outside \<Rightarrow> common \<Rightarrow> str list \<Rightarrow> ('s, nat) cmd" where
  "cmd_create_environment ou c args =
     cbind (clook (\<lambda>_. ok_or ''usage: lsec env create SLUG'' (next_argument args))) (\<lambda>slug.
     cbind (clook (project_for c)) (\<lambda>project.
     cbind (authed_call ou c ''POST'' (envs_path project) (Some (named_body slug args))) (\<lambda>_.
       finish [''created environment '' @ slug @ '' in '' @ project])))"

definition cmd_list_environments :: "'s outside \<Rightarrow> common \<Rightarrow> ('s, nat) cmd" where
  "cmd_list_environments ou c =
     cbind (clook (project_for c)) (\<lambda>project.
     cbind (authed_call ou c ''GET'' (envs_path project) None) (\<lambda>answer. finish (listed_names answer ''environments'')))"

section \<open>Secrets\<close>

definition exposed_value :: "str \<Rightarrow> str" where
  "exposed_value key = ''lsec: a value on the command line goes into your shell history and is '' @
     ''visible to anyone who can list processes; prefer `lsec set '' @ key @ ''`'' @ newline"

text \<open>\<open>(common.project()?, common.environment()?)\<close>\<close>

definition place :: "common \<Rightarrow> ('s, str \<times> str) cmd" where
  "place c = cbind (clook (project_for c)) (\<lambda>project.
     cbind (clook (environment_for c)) (\<lambda>environment. creturn (project, environment)))"

definition cmd_set :: "'s outside \<Rightarrow> common \<Rightarrow> str list \<Rightarrow> ('s, nat) cmd" where
  "cmd_set ou c args =
     cbind (clook (\<lambda>_. ok_or ''usage: lsec set KEY [VALUE]'' (next_argument args))) (\<lambda>key.
     cbind (case args of
         _ # val # _ \<Rightarrow> cthen (eprint (exposed_value key)) (creturn val)
       | _ \<Rightarrow> secret_line (''value for '' @ key @ '': '')) (\<lambda>val.
     cbind (place c) (\<lambda>(project, environment).
     cbind (authed_call ou c ''PUT'' (secret_path project environment key) (Some (json_object [(''value'', JString val)]))) (\<lambda>_.
       finish [''set '' @ key]))))"

definition cmd_get :: "'s outside \<Rightarrow> common \<Rightarrow> str list \<Rightarrow> ('s, nat) cmd" where
  "cmd_get ou c args =
     cbind (clook (\<lambda>_. ok_or ''usage: lsec get KEY'' (next_argument args))) (\<lambda>key.
     cbind (place c) (\<lambda>(project, environment).
     cbind (clook (connect_authenticated ou c)) (\<lambda>link.
     cbind (\<lambda>sh. case call ou link ''GET'' (secret_path project environment key) None sh of
         (r, sh1) \<Rightarrow> (map_err (\<lambda>e. key @ '': '' @ e) r, sh1)) (\<lambda>answer.
     cbind (clook (\<lambda>_. answer_field answer ''value'')) (\<lambda>val. finish [val])))))"

definition fetch_secrets :: "'s outside \<Rightarrow> common \<Rightarrow> ('s, (str \<times> str) list) cmd" where
  "fetch_secrets ou c =
     cbind (place c) (\<lambda>(project, environment).
     cbind (authed_call ou c ''GET'' (secrets_path project environment) None) (\<lambda>answer.
       creturn (case json_get ''secrets'' answer of
           Some (JObject pairs) \<Rightarrow> List.map_filter (\<lambda>(key, val). map_option (\<lambda>s. (key, s)) (as_str val)) pairs
         | _ \<Rightarrow> [])))"

definition cmd_list :: "'s outside \<Rightarrow> common \<Rightarrow> ('s, nat) cmd" where
  "cmd_list ou c = cbind (fetch_secrets ou c) (\<lambda>secrets. finish (map fst secrets))"

definition cmd_delete :: "'s outside \<Rightarrow> common \<Rightarrow> str list \<Rightarrow> ('s, nat) cmd" where
  "cmd_delete ou c args =
     cbind (clook (\<lambda>_. ok_or ''usage: lsec delete KEY'' (next_argument args))) (\<lambda>key.
     cbind (place c) (\<lambda>(project, environment).
     cbind (authed_call ou c ''DELETE'' (secret_path project environment key) None) (\<lambda>_. finish [''deleted '' @ key])))"

definition cmd_export :: "'s outside \<Rightarrow> common \<Rightarrow> str list \<Rightarrow> ('s, nat) cmd" where
  "cmd_export ou c args =
     (let form = or_default ''dotenv'' (option_value args ''--format'') in
      cbind (fetch_secrets ou c) (\<lambda>secrets.
        if form = ''dotenv'' then finish (map (\<lambda>(key, val). key @ ''='' @ dotenv_quote val) secrets)
        else if form = ''json'' then finish [render (JObject (map (\<lambda>(key, val). (key, JString val)) secrets))]
        else cfail (''unknown format '' @ form @ ''; use dotenv or json'')))"

definition cmd_import :: "'s outside \<Rightarrow> common \<Rightarrow> str list \<Rightarrow> ('s, nat) cmd" where
  "cmd_import ou c args =
     cbind (clook (\<lambda>_. ok_or ''usage: lsec import FILE'' (next_argument args))) (\<lambda>path.
     cbind (if path = ''-''
       then cbind all_of_stdin (\<lambda>bs. clook (\<lambda>_. ok_or ''input is not valid UTF-8'' (from_utf8 bs)))
       else clook (\<lambda>sh. map_err (\<lambda>e. ''could not read '' @ path @ '': '' @ e) (read_to_string path sh))) (\<lambda>s.
       let parsed = parse_dotenv s in
       if parsed = [] then cfail (path @ '' held nothing to import'')
       else
         cbind (place c) (\<lambda>(project, environment).
         cbind (authed_call ou c ''POST'' (secrets_path project environment)
           (Some (json_object [(''secrets'', JObject (map (\<lambda>(key, val). (key, JString val)) parsed))]))) (\<lambda>_.
           finish [''imported '' @ show_nat (length parsed) @ '' '' @ (if length parsed = 1 then ''secret'' else ''secrets'') @
             '' into '' @ project @ ''/'' @ environment]))))"

definition cmd_run :: "'s outside \<Rightarrow> common \<Rightarrow> str list \<Rightarrow> ('s, nat) cmd" where
  "cmd_run ou c args =
     (case drop 1 (dropWhile (\<lambda>a. a \<noteq> ''--'') args) of
        [] \<Rightarrow> cfail ''usage: lsec run -- COMMAND [ARGS...]''
      | program # rest \<Rightarrow>
          cbind (fetch_secrets ou c) (\<lambda>secrets sh.
            (case ou_spawn ou program rest secrets (sh_net sh) of
               (Inl e, net1) \<Rightarrow> (Inl (''could not run '' @ program @ '': '' @ e), sh\<lparr>sh_net := net1\<rparr>)
             | (Inr None, net1) \<Rightarrow> (Inr exit_failure, sh\<lparr>sh_net := net1\<rparr>)
             | (Inr (Some status), net1) \<Rightarrow>
                 (Inr (if 0 \<le> status \<and> status \<le> 255 then nat status else 1), sh\<lparr>sh_net := net1\<rparr>))))"

section \<open>Machines and audit\<close>

definition cmd_create_token :: "'s outside \<Rightarrow> common \<Rightarrow> str list \<Rightarrow> ('s, nat) cmd" where
  "cmd_create_token ou c args =
     cbind (place c) (\<lambda>(project, environment).
     cbind (authed_call ou c ''POST'' ''/v1/tokens'' (Some (json_object
       ([(''project'', JString project), (''environment'', JString environment),
         (''label'', JString (or_default ''machine'' (option_value args ''--label'')))] @
        (case number_option args ''--ttl'' of Some ttl \<Rightarrow> [(''ttl_seconds'', JInt ttl)] | None \<Rightarrow> []))))) (\<lambda>answer.
     cbind (clook (\<lambda>_. answer_field answer ''token'')) (\<lambda>token.
     cthen (say (''token: '' @ token))
     (cbind (clook (\<lambda>_. answer_field answer ''id'')) (\<lambda>i.
       finish [''id:    '' @ i, [],
         ''Shown once. It can read '' @ project @ ''/'' @ environment @ '' and nothing else.''])))))"

definition cmd_revoke_token :: "'s outside \<Rightarrow> common \<Rightarrow> str list \<Rightarrow> ('s, nat) cmd" where
  "cmd_revoke_token ou c args =
     cbind (clook (\<lambda>_. ok_or ''usage: lsec token revoke ID'' (next_argument args))) (\<lambda>i.
     cbind (authed_call ou c ''DELETE'' (''/v1/tokens/'' @ i) None) (\<lambda>_. finish [''revoked '' @ i]))"

text \<open>\<open>{:<n}\<close> counts characters.\<close>

definition pad_right :: "nat \<Rightarrow> str \<Rightarrow> str" where
  "pad_right n s = s @ replicate (n - length (chars s)) (CHR '' '')"

definition audit_line :: "json \<Rightarrow> str" where
  "audit_line entry =
     (let read = (\<lambda>name. or_default [] (Option.bind (json_get name entry) as_str)) in
      read ''at'' @ ''  '' @ pad_right 14 (read ''action'') @ '' '' @ pad_right 28 (read ''target'') @ '' '' @
      pad_right 8 (read ''outcome'') @ '' '' @ read ''actor'')"

definition cmd_audit :: "'s outside \<Rightarrow> common \<Rightarrow> ('s, nat) cmd" where
  "cmd_audit ou c =
     cbind (authed_call ou c ''GET'' ''/v1/audit'' None) (\<lambda>answer.
       finish (map audit_line (or_default [] (Option.bind (json_get ''entries'' answer) as_array))))"

section \<open>Dispatch\<close>

definition unknown_command :: "str \<Rightarrow> str option \<Rightarrow> str" where
  "unknown_command family given =
     (case given of
        Some name \<Rightarrow> ''unknown '' @ family @ '' command '' @ name
      | None \<Rightarrow> ''`lsec '' @ family @ ''` needs a subcommand'')"

definition run_command :: "'s outside \<Rightarrow> str list \<Rightarrow> ('s, nat) cmd" where
  "run_command ou arguments =
     (let (c, rest) = extract_options arguments; command = or_default [] (next_argument rest); args = drop 1 rest;
          sub = next_argument args
      in if command = ''init'' then cmd_init ou c args
         else if command = ''rekey'' then cmd_rekey ou c args
         else if command = ''unseal'' then cmd_unseal ou c args
         else if command = ''seal'' then cmd_seal ou c
         else if command = ''status'' then cmd_status ou c
         else if command = ''user'' then
           (if sub = Some ''create'' then cmd_create_user ou c (drop 1 args) else cfail (unknown_command ''user'' sub))
         else if command = ''login'' then cmd_login ou c args
         else if command = ''logout'' then cmd_logout ou c
         else if command = ''use'' then cmd_use args
         else if command = ''project'' then
           (if sub = Some ''create'' then cmd_create_project ou c (drop 1 args)
            else if sub = Some ''list'' then cmd_list_projects ou c
            else cfail (unknown_command ''project'' sub))
         else if command = ''env'' then
           (if sub = Some ''create'' then cmd_create_environment ou c (drop 1 args)
            else if sub = Some ''list'' then cmd_list_environments ou c
            else cfail (unknown_command ''env'' sub))
         else if command = ''set'' then cmd_set ou c args
         else if command = ''get'' then cmd_get ou c args
         else if command = ''list'' then cmd_list ou c
         else if command = ''delete'' then cmd_delete ou c args
         else if command = ''export'' then cmd_export ou c args
         else if command = ''import'' then cmd_import ou c args
         else if command = ''run'' then cmd_run ou c args
         else if command = ''token'' then
           (if sub = Some ''create'' then cmd_create_token ou c (drop 1 args)
            else if sub = Some ''revoke'' then cmd_revoke_token ou c (drop 1 args)
            else cfail (unknown_command ''token'' sub))
         else if command = ''audit'' then cmd_audit ou c
         else cfail (''unknown command '' @ command @ ''; try `lsec --help`''))"

definition usage :: str where
  "usage = concat (map (\<lambda>line. line @ newline)
    [''lsec, the localsecrets client'',
     [],
     ''Usage: lsec <command> [options]'',
     [],
     ''Getting started'',
     ''  init [--threshold N] [--shares N]   Create the vault; prints the unseal shares once'',
     ''  unseal [SHARE]                      Offer one unseal share'',
     ''  unseal --reset                      Throw away a part-finished attempt'',
     ''  rekey [--threshold N] [--shares N]  Split the master key again; the old'',
     ''                                      shares stop working, secrets are untouched'',
     ''  seal                                Drop the root key until the next unseal'',
     ''  status                              Show whether the server is sealed'',
     [],
     ''Accounts'',
     ''  user create EMAIL                   Create a user (needs the root token)'',
     ''  login EMAIL                         Log in and cache a session token'',
     ''  logout                              Forget the cached token'',
     [],
     ''Projects'',
     ''  use PROJECT ENV                     Pin a project and environment here'',
     ''  project create SLUG [--name NAME]'',
     ''  project list'',
     ''  env create SLUG [--name NAME]'',
     ''  env list'',
     [],
     ''Secrets'',
     ''  set KEY [VALUE]                     Write a secret; without VALUE it is read from stdin'',
     ''  get KEY                             Print one value'',
     ''  list                                List keys, without values'',
     ''  delete KEY                          Remove a secret'',
     ''  export [--format dotenv|json]       Print the whole environment'',
     ''  import FILE                         Load a .env file'',
     ''  run -- COMMAND...                   Run a command with the secrets in its environment'',
     [],
     ''Machines'',
     ''  token create [--label NAME] [--ttl SECONDS]'',
     ''  token revoke ID'',
     ''  audit                               Show the audit trail'',
     [],
     ''Options'',
     ''  --project SLUG    --env SLUG        Override the pinned project or environment'',
     ''  --token TOKEN                       Use this token instead of the cached one'',
     ''  -h, --help                          Show this message'',
     [],
     ''Environment'',
     ''  LS_SERVER    Server address, default 127.0.0.1:8787'',
     ''  LS_TOKEN     Token to use, overriding the cached one'',
     [],
     ''Passing a value on the command line puts it in your shell history and makes it'',
     ''visible to anyone who can list processes. Prefer `lsec set KEY` and type or'',
     ''pipe the value instead.''])"

text \<open>\<open>main\<close>: the exit code of the process, and what it leaves behind.\<close>

definition lsec :: "'s outside \<Rightarrow> str list \<Rightarrow> 's shell \<Rightarrow> nat \<times> 's shell" where
  "lsec ou arguments sh =
     (if arguments = [] \<or> hd arguments \<in> {''-h'', ''--help'', ''help''}
      then (exit_success, sh\<lparr>sh_out := sh_out sh @ usage @ newline\<rparr>)
      else (case run_command ou arguments sh of
          (Inr status, sh1) \<Rightarrow> (status, sh1)
        | (Inl message, sh1) \<Rightarrow> (exit_failure, sh1\<lparr>sh_err := sh_err sh1 @ ''lsec: '' @ message @ newline\<rparr>)))"

section \<open>Properties\<close>

definition option_words :: "str set" where
  "option_words = {''--project'', ''-p'', ''--env'', ''-e'', ''--token''}"

lemma extract_loop_rest: "set (snd (extract_loop args c rest)) \<subseteq> set rest \<union> (set args - option_words)"
proof (induction args c rest rule: extract_loop.induct)
  case (2 a as c rest)
  have drop: "set (drop 1 as) \<subseteq> set (a # as)" by (auto dest: in_set_dropD)
  show ?case
  proof (cases "a \<in> option_words")
    case True
    then consider "a = ''--project'' \<or> a = ''-p''" | "\<not> (a = ''--project'' \<or> a = ''-p'')" "a = ''--env'' \<or> a = ''-e''"
      | "\<not> (a = ''--project'' \<or> a = ''-p'')" "\<not> (a = ''--env'' \<or> a = ''-e'')" "a = ''--token''"
      by (auto simp: option_words_def)
    then show ?thesis using 2(1-3) drop by cases (simp; blast)+
  next
    case False
    then show ?thesis using 2(4) by (auto simp: option_words_def)
  qed
qed simp

text \<open>
  C40: The shared options are taken wherever they stand, behind \<open>--\<close> too: of the words a command gets to
  see none is an option word, so \<open>lsec run -- mkdir -p dir\<close> runs \<open>mkdir\<close> without arguments, in the
  environment of a project called \<open>dir\<close>.
\<close>

theorem options_are_taken_everywhere:
  "set (snd (extract_options args)) \<inter> option_words = {} \<and>
   extract_options [''run'', ''--'', ''mkdir'', ''-p'', folder] =
     (\<lparr>co_project = Some folder, co_environment = None, co_token = None\<rparr>, [''run'', ''--'', ''mkdir''])"
proof
  show "set (snd (extract_options args)) \<inter> option_words = {}"
    using extract_loop_rest [of args _ "[]"] by (auto simp: extract_options_def)
  show "extract_options [''run'', ''--'', ''mkdir'', ''-p'', folder] =
     (\<lparr>co_project = Some folder, co_environment = None, co_token = None\<rparr>, [''run'', ''--'', ''mkdir''])"
    by (simp add: extract_options_def next_argument_def)
qed

end
