(* ===== verification/Cli_Exchange.thy ===== *)
theory Cli_Exchange
  imports Cli Api_Safety Http_Exchange
begin

text \<open>
  The whole path of a secret: \<open>lsec get\<close> on one end, the vault on the other, and between them the
  client, the bytes of both directions, the server's reader, the router and JSON.
\<close>

section \<open>A server at the other end\<close>

text \<open>
  \<open>line\<close> is how bytes come in over the network: whatever pieces they arrive in, in time and complete.
  The far side is the server's state with its world, and serves the connection by \<open>serve_connection\<close>
  with the router as its handler; where that writes nothing, the connection ends with nothing on it.
\<close>

definition delivers :: "(bytes \<Rightarrow> conn) \<Rightarrow> bool" where
  "delivers line \<longleftrightarrow> (\<forall>bs. smooth default_limits (line bs) \<and> stream (line bs) = bs)"

definition over_http ::
  "'phc crypto \<Rightarrow> (io_error \<Rightarrow> str) \<Rightarrow> (bytes \<Rightarrow> conn) \<Rightarrow> str \<Rightarrow> bytes \<Rightarrow> api \<times> world \<Rightarrow> conn option \<times> (api \<times> world)" where
  "over_http cr io_text line address bs far =
     (case serve_connection default_limits
         (\<lambda>rq (a, w). case route cr io_text rq a w of (r, a', w') \<Rightarrow> (Some r, (a', w'))) (line bs) far of
        (reply, _, far') \<Rightarrow> (Some (line (case reply of None \<Rightarrow> [] | Some bytes_out \<Rightarrow> bytes_out)), far'))"

lemma over_http_served:
  assumes "fst (request_read default_limits (line bs)) = Inr rq" and "route cr io_text rq a w = (r, a', w')"
  shows "over_http cr io_text line address bs (a, w) = (Some (line (write_to r)), (a', w'))"
proof -
  obtain c where "request_read default_limits (line bs) = (Inr rq, c)" using assms(1) by (metis prod.collapse)
  with assms(2) show ?thesis by (simp add: over_http_def serve_connection_def run_handler_def)
qed

lemma plain_loop: "37 \<notin> set bs \<Longrightarrow> percent_decode_loop False bs = Inr bs"
  by (induction bs) auto

lemma percent_decode_plain:
  assumes "\<And>c. c \<in> set s \<Longrightarrow> code c < 128 \<and> c \<noteq> CHR ''%'' \<and> c \<noteq> CHR 0x00"
  shows "percent_decode s False = Inr s"
proof -
  have "(of_char c :: byte) \<noteq> 37 \<and> (of_char c :: byte) \<noteq> 0" if "c \<in> set s" for c
  proof -
    have "unat (of_char c :: byte) \<noteq> unat (37 :: byte) \<and> unat (of_char c :: byte) \<noteq> unat (0 :: byte)"
      using assms [OF that] code_eq_iff [of c "CHR ''%''"] code_eq_iff [of c "CHR 0x00"] by auto
    then show ?thesis by metis
  qed
  then have "37 \<notin> set (as_bytes s)" "0 \<notin> set (as_bytes s)" by (auto simp: as_bytes_def)
  moreover have "utf8_valid s" using assms by (intro utf8_valid_ascii) blast
  ultimately show ?thesis by (simp add: percent_decode_def plain_loop)
qed

text \<open>Slugs and keys stand in a path as they are, and come out of it as they were.\<close>

definition plain_name :: "str \<Rightarrow> bool" where
  "plain_name s \<longleftrightarrow> s \<noteq> [] \<and> list_all key_char s"

lemma plain_name_chars:
  assumes "plain_name s" and "c \<in> set s"
  shows "code c < 128 \<and> 32 < code c \<and> c \<notin> {CHR ''/'', CHR ''%'', CHR ''?'', CHR '' '', CHR 0x00, CHR 0x0D, CHR 0x0A}"
  using assms by (auto simp: plain_name_def list_all_iff key_char_def is_ascii_alphanumeric_def is_ascii_digit_def
      is_ascii_lowercase_def is_ascii_uppercase_def)

lemma secret_path_parts:
  "secret_path p e key = ''/v1/projects/'' @ p @ ''/envs/'' @ e @ ''/secrets/'' @ key"
  by (simp add: secret_path_def secrets_path_def envs_path_def)

lemma secret_path_chars:
  assumes "plain_name p" and "plain_name e" and "plain_name key" and "c \<in> set (secret_path p e key)"
  shows "code c < 128 \<and> 32 < code c \<and> c \<notin> {CHR ''%'', CHR ''?'', CHR '' '', CHR 0x00, CHR 0x0D, CHR 0x0A}"
proof -
  have "\<forall>c\<in>set (''/v1/projects/'' @ ''/envs/'' @ ''/secrets/''). code c < 128 \<and> 32 < code c \<and>
      c \<notin> {CHR ''%'', CHR ''?'', CHR '' '', CHR 0x00, CHR 0x0D, CHR 0x0A}" by code_simp
  with assms(4) plain_name_chars [OF assms(1)] plain_name_chars [OF assms(2)] plain_name_chars [OF assms(3)]
  show ?thesis unfolding secret_path_parts set_append by blast
qed

lemma secret_path_target:
  assumes "plain_name p" and "plain_name e" and "plain_name key"
  shows "split_target (secret_path p e key) = Inr (secret_path p e key, [])"
    and "endpoint_of (path_segments (secret_path p e key)) = SecretNamed p e key"
    and "utf8_valid (secret_path p e key)" and "sent_line (secret_path p e key)"
    and "CHR '' '' \<notin> set (secret_path p e key)"
proof -
  note ch = secret_path_chars [OF assms]
  have "split_once (CHR ''?'') (secret_path p e key) = None" using ch by (auto simp: split_once_None)
  moreover have "percent_decode (secret_path p e key) False = Inr (secret_path p e key)"
    using ch by (intro percent_decode_plain) blast
  ultimately show "split_target (secret_path p e key) = Inr (secret_path p e key, [])" by (simp add: split_target_def)
  have no: "CHR ''/'' \<notin> set p" "CHR ''/'' \<notin> set e" "CHR ''/'' \<notin> set key" using plain_name_chars assms by blast+
  have ne: "p \<noteq> []" "e \<noteq> []" "key \<noteq> []" using assms by (simp_all add: plain_name_def)
  have "split_on (CHR ''/'') (''/v1/projects/'' @ p @ ''/envs/'' @ e @ ''/secrets/'' @ key) =
      [[], ''v1'', ''projects'', p, ''envs'', e, ''secrets'', key]"
    using no by (simp add: split_on_append split_on_plain)
  then have "path_segments (secret_path p e key) = [''v1'', ''projects'', p, ''envs'', e, ''secrets'', key]"
    using ne by (simp add: path_segments_def secret_path_parts)
  then show "endpoint_of (path_segments (secret_path p e key)) = SecretNamed p e key" by (simp add: endpoint_of_def)
  show "utf8_valid (secret_path p e key)" using ch by (intro utf8_valid_ascii) blast
  show "sent_line (secret_path p e key)" 
  proof -
    have "secret_path p e key \<noteq> []" by (simp add: secret_path_parts)
    then show ?thesis using ch unfolding sent_line_def by blast
  qed
  show "CHR '' '' \<notin> set (secret_path p e key)" using ch by blast
qed

text \<open>A token as the client may send it: printing characters, no blanks.\<close>

definition plain_token :: "str \<Rightarrow> bool" where
  "plain_token t \<longleftrightarrow> t \<noteq> [] \<and> (\<forall>c\<in>set t. 32 < code c \<and> code c < 127)"

lemma plain_token_sent:
  assumes "plain_token t"
  shows "sent_header (''authorization'', ''Bearer '' @ t)" and "trim t = t" and "utf8_valid t"
proof -
  have ch: "32 < code c" "code c < 127" if "c \<in> set t" for c using assms that by (auto simp: plain_token_def)
  have ne: "t \<noteq> []" using assms by (simp add: plain_token_def)
  show u: "utf8_valid t" using ch(2) by (intro utf8_valid_ascii) fastforce
  have wide: "\<not> is_whitespace [c] \<and> \<not> is_blank [c]" if "c \<in> set t" for c
  proof -
    have "code c \<noteq> 32" "code c \<noteq> 9" using ch(1) [OF that] by auto
    then have "c \<noteq> CHR '' ''" "c \<noteq> CHR 0x09" by auto
    then show ?thesis using ch [OF that] by (auto simp: is_whitespace_def is_blank_def)
  qed
  have "trim_matches is_whitespace t = t"
    using ch(2) ne wide by (intro trim_matches_id) (fastforce, simp_all)
  then show "trim t = t" by (simp add: trim_def)
  have "trim_matches is_blank (''Bearer '' @ t) = ''Bearer '' @ t"
  proof (rule trim_matches_id)
    show "code c < 128" if "c \<in> set (''Bearer '' @ t)" for c
      using that ch(2) by (auto dest!: ch(2) simp: less_imp_le)
    show "\<not> is_blank [last (''Bearer '' @ t)]" using ne wide by simp
  qed (simp_all add: is_blank_def)
  moreover have "\<forall>c\<in>set (''Bearer '' @ t). 32 \<le> code c \<or> c = CHR 0x09" using ch(1) by fastforce
  moreover have "utf8_valid (''Bearer '' @ t)" using u utf8_valid_append [of "''Bearer ''" t] utf8_valid_ascii [of "''Bearer ''"] by simp
  moreover have "list_all is_token_byte ''authorization''" by code_simp
  ultimately show "sent_header (''authorization'', ''Bearer '' @ t)" by (simp add: sent_header_def)
qed

section \<open>The request that arrives\<close>

definition get_request :: "str \<Rightarrow> str \<Rightarrow> str \<Rightarrow> str \<Rightarrow> str \<Rightarrow> request" where
  "get_request address token p e key =
     \<lparr>rq_method = ''GET'', rq_path = secret_path p e key, rq_query = [],
      rq_headers = [(''host'', address), (''connection'', ''close''), (''authorization'', ''Bearer '' @ token),
        (''content-length'', ''0'')], rq_body = []\<rparr>"

lemma get_request_arrives:
  assumes "plain_name p" and "plain_name e" and "plain_name key" and "plain_token token" and "sent_header (''host'', address)"
    and "length (secret_path p e key) + length token + length address \<le> 8000" and "delivers line"
  obtains bs where "client_send address ''GET'' (secret_path p e key) (call_headers ''GET'' (Some token)) [] = Inr bs"
    and "fst (request_read default_limits (line bs)) = Inr (get_request address token p e key)"
proof -
  let ?path = "secret_path p e key" and ?hs = "[(''authorization'', ''Bearer '' @ token)]"
  note t = plain_token_sent [OF assms(4)] and target = secret_path_target [OF assms(1-3)]
  have hs: "call_headers ''GET'' (Some token) = ?hs" by (simp add: call_headers_def)
  have "\<forall>c\<in>set token. 32 < code c" using assms(4) by (simp add: plain_token_def)
  then have "CHR 0x0D \<notin> set token" "CHR 0x0A \<notin> set token" by force+
  then have quiet: "\<not> has_line_break ''authorization''" "\<not> has_line_break (''Bearer '' @ token)"
    by (auto simp: has_line_break_def list_ex_iff)
  have low: "to_ascii_lowercase ''authorization'' = ''authorization''" "to_ascii_lowercase ''host'' = ''host''"
    "to_ascii_lowercase ''connection'' = ''connection''" "to_ascii_lowercase ''content-length'' = ''content-length''" by code_simp+
  have zero: "show_nat 0 = ''0''" by code_simp
  have "\<exists>bs. client_send address ''GET'' ?path ?hs [] = Inr bs \<and> length bs \<le> 8192"
    using quiet assms(6) by (auto simp: client_send_def Let_def header_text_def crlf_def zero low)
  then obtain bs where bs: "client_send address ''GET'' ?path ?hs [] = Inr bs" "length bs \<le> 8192" by blast
  have checks: "list_all is_token_byte ''GET''" "list_all sent_header ?hs" "count_named ''transfer-encoding'' (lowered ?hs) = 0"
    "count_named ''content-length'' (lowered ?hs) = 0" "count_named ''host'' (lowered ?hs) \<le> 1"
    using t(1) by (simp_all add: low count_named_def) code_simp
  have "Http_Request.starts_with ''/'' ?path" by (simp add: secret_path_parts Http_Request.starts_with_def)
  from request_of_sent [OF _ checks(1) target(3,4,5) this target(1) checks(2) assms(5) checks(3-5) _ _ bs(1), of default_limits "[]"] bs(2)
  have "request_of default_limits bs = Inr (\<lparr>rq_method = ''GET'', rq_path = ?path, rq_query = [],
      rq_headers = lowered (sent_headers address ?hs []), rq_body = []\<rparr>, [])"
    by (simp add: default_limits_def usize_max_def)
  moreover have "lowered (sent_headers address ?hs []) = rq_headers (get_request address token p e key)"
    by (simp add: sent_headers_def get_request_def low zero count_named_def)
  ultimately have "request_of default_limits bs = Inr (get_request address token p e key, [])" by (simp add: get_request_def)
  moreover have "smooth default_limits (line bs)" "stream (line bs) = bs" using assms(7) by (simp_all add: delivers_def)
  ultimately have "fst (request_read default_limits (line bs)) = Inr (get_request address token p e key)"
    using request_read_smooth [of default_limits "line bs"] by simp
  with bs(1) hs that show thesis by simp
qed

section \<open>The answer that comes back\<close>

definition plain_response :: "response \<Rightarrow> bool" where
  "plain_response r \<longleftrightarrow> rs_headers r = [(''content-type'', ''application/json'')] \<and> rs_status r \<le> u16_max"

lemma plain_json_responses:
  "status \<le> 600 \<Longrightarrow> plain_response (response_json status s)" "status \<le> 600 \<Longrightarrow> plain_response (error_response status s)"
  "status \<le> 600 \<Longrightarrow> plain_response (json_response status fs)" "plain_response (vault_error_response io_text e)"
proof -
  have ok: "is_safe_field ''content-type''" "is_safe_field ''application/json''"
    "to_ascii_lowercase ''content-type'' = ''content-type''" by code_simp+
  show j: "plain_response (response_json status s)" if "status \<le> 600" for status s
    using that ok by (simp add: plain_response_def response_json_def with_header_def response_new_def u16_max_def)
  show "plain_response (error_response status s)" if "status \<le> 600" for status s
    using j [OF that] by (simp add: error_response_def)
  show "plain_response (json_response status fs)" if "status \<le> 600" for status fs
    using j [OF that] by (simp add: json_response_def)
  have "vault_status e \<le> 600" by (simp add: vault_status_def split: vault_error.split)
  with j show "plain_response (vault_error_response io_text e)" by (simp add: vault_error_response_def error_response_def)
qed

lemma get_answer_plain:
  assumes "route cr io_text rq a w = (r, a', w')" and "rq_method rq = ''GET''"
    and "endpoint_of (path_segments (rq_path rq)) = SecretNamed p e key"
  shows "plain_response r" and "rs_status r = 200 \<or> 400 \<le> rs_status r"
proof -
  have gates: "plain_response err \<and> 400 \<le> rs_status err" if "refuse_elsewhere rq = Some err \<or> refuse_cross_origin rq = Some err" for err
    using that by (auto simp: refuse_elsewhere_def refuse_cross_origin_def Let_def plain_json_responses split: if_splits)
  have work: "res = Inr r \<Longrightarrow> plain_response r \<and> rs_status r = 200"
    if "vbind (get_secret cr c p e key) (\<lambda>val. vbind (vlook (\<lambda>_. stored_text val)) (\<lambda>s.
         vret (json_response 200 [(''key'', JString key), (''value'', JString s)]))) v w = (res, v', w')" for c v w res v' w' r
    using that by (auto simp: vbind_eq_Inr vlook_def vret_def plain_json_responses)
  have e: "400 \<le> rs_status (vault_error_response io_text err)" for err
    using vault_status_error [of io_text err] by simp
  have "plain_response r \<and> (rs_status r = 200 \<or> 400 \<le> rs_status r)"
    if "api_get_secret cr io_text rq p e key a w = (r, a', w')"
    using that unfolding api_get_secret_def authed_def Let_def
    by (auto simp: plain_json_responses responding_def e split: if_splits option.splits prod.splits sum.splits dest!: work)
  with assms gates show "plain_response r" "rs_status r = 200 \<or> 400 \<le> rs_status r"
    by (auto simp: route_def dispatch_def answer_def split: option.splits)
qed

lemma plain_answer_read:
  assumes "plain_response r" and "delivers line" and "length (rs_body r) \<le> max_body default_limits"
  shows "\<exists>hs. fst (read_response default_limits (line (write_to r))) =
    Inr \<lparr>cr_status = rs_status r, cr_headers = hs, cr_body = rs_body r\<rparr>"
proof -
  have low: "to_ascii_lowercase ''content-type'' = ''content-type''" by code_simp
  have big: "64 \<le> max_head default_limits" by (simp add: default_limits_def)
  have line: "smooth default_limits (line (write_to r))" "stream (line (write_to r)) = write_to r"
    using assms(2) by (simp_all add: delivers_def)
  from assms(1) have r: "rs_headers r = [(''content-type'', ''application/json'')]" "rs_status r \<le> u16_max"
    by (simp_all add: plain_response_def)
  from answer_read_back [OF line r(2) _ _ _ assms(3) _ big] show ?thesis
    using plain_literal_header(2) [OF big] low by (auto simp: r(1) default_limits_def usize_max_def)
qed

lemma trim_object:
  assumes "utf8_valid (render (JObject fs))"
  shows "trim (render (JObject fs)) = render (JObject fs)"
proof -
  let ?in = "separated (map (\<lambda>(n, v). write_string n @ '':'' @ render v) fs)"
  have r: "render (JObject fs) = CHR ''{'' # ?in @ [CHR ''}'']" by simp
  have u: "utf8_char (CHR ''{'' # takeWhile is_continuation (?in @ [CHR ''}'']))"
    using assms unfolding r utf8_valid_def by simp
  from utf8_char_ascii [OF u] have h: "hd (chars (render (JObject fs))) = ''{''" unfolding r by simp
  have "chars ((CHR ''{'' # ?in) @ ''}'') = chars (CHR ''{'' # ?in) @ chars ''}''"
    by (rule chars_append) (simp add: starts_char_plain)
  then have l: "last (chars (render (JObject fs))) = ''}''" unfolding r by (simp del: chars.simps(2)) simp
  show ?thesis by (rule trim_kept) (simp_all only: h l, simp_all add: is_whitespace_def)
qed

definition no_options :: common where
  "no_options = \<lparr>co_project = None, co_environment = None, co_token = None\<rparr>"

definition prints_secret :: "'phc crypto \<Rightarrow> vault \<Rightarrow> world \<Rightarrow> str \<Rightarrow> str \<Rightarrow> str \<Rightarrow> str \<Rightarrow> str \<Rightarrow> bool" where
  "prints_secret cr v w token p e key printed \<longleftrightarrow>
     (\<exists>caller ids s. fst (authenticate cr token v w) = Some caller \<and> resolve p e v = Inr ids \<and>
        authorise caller ReadSecrets (fst ids) (snd ids) = Inr () \<and>
        secret_view cr v (fst ids, snd ids, key) = Some (as_bytes s) \<and> printed = s @ newline)"

text \<open>The command, up to the answer of its one call.\<close>

lemma get_request_simps:
  assumes "plain_token token"
  shows "rq_method (get_request host token p e key) = ''GET''"
    and "rq_path (get_request host token p e key) = secret_path p e key"
    and "bearer (get_request host token p e key) = Some token"
proof -
  have "trim token = token" "token \<noteq> []" using plain_token_sent(2) [OF assms] assms by (simp_all add: plain_token_def)
  moreover have "to_ascii_lowercase ''authorization'' = ''authorization''" by code_simp
  moreover have "strip_prefix ''Bearer '' (''Bearer '' @ token) = Some token" by (rule strip_prefix_append)
  ultimately show "bearer (get_request host token p e key) = Some token"
    by (simp add: bearer_def get_request_def request_header_def field_named_def)
qed (simp_all add: get_request_def)

lemma lsec_get:
  assumes "key \<notin> {''--project'', ''-p'', ''--env'', ''-e'', ''--token''}"
    and "project_for no_options sh = Inr p" and "environment_for no_options sh = Inr e"
    and "connect_authenticated ou no_options sh = Inr link"
    and "call ou link ''GET'' (secret_path p e key) None sh = (reply, sh1)"
  shows "lsec ou [''get'', key] sh =
    (case (case reply of
         Inl msg \<Rightarrow> (Inl (key @ '': '' @ msg), sh1)
       | Inr found \<Rightarrow> cbind (clook (\<lambda>_. answer_field found ''value'')) (\<lambda>val. finish [val]) sh1) of
      (Inr status, sh2) \<Rightarrow> (status, sh2)
    | (Inl message, sh2) \<Rightarrow> (exit_failure, sh2\<lparr>sh_err := sh_err sh2 @ ''lsec: '' @ message @ newline\<rparr>))"
proof -
  have "extract_options [''get'', key] = (no_options, [''get'', key])"
    using assms(1) by (simp add: extract_options_def no_options_def)
  then have run: "run_command ou [''get'', key] sh = cmd_get ou no_options [key] sh"
    by (simp add: run_command_def next_argument_def or_default_def)
  have "cmd_get ou no_options [key] sh = (case reply of
         Inl msg \<Rightarrow> (Inl (key @ '': '' @ msg), sh1)
       | Inr found \<Rightarrow> cbind (clook (\<lambda>_. answer_field found ''value'')) (\<lambda>val. finish [val]) sh1)"
    using assms(2-5) by (simp add: cmd_get_def cbind_def clook_def place_def creturn_def next_argument_def split: sum.split)
  with run show ?thesis by (simp add: lsec_def)
qed

lemma call_over_http:
  assumes "delivers line" and "ou_transmit ou = over_http cr io_text line"
    and "client_send (sl_address link) ''GET'' path (call_headers ''GET'' (sl_token link)) [] = Inr bs"
    and "fst (request_read default_limits (line bs)) = Inr rq" and "sh_net sh = (a, w)"
    and "route cr io_text rq a w = (r, a', w')" and "plain_response r" and "length (rs_body r) \<le> max_body default_limits"
  shows "\<exists>hs. call ou link ''GET'' path None sh =
    (answer_value ou \<lparr>cr_status = rs_status r, cr_headers = hs, cr_body = rs_body r\<rparr>, sh\<lparr>sh_net := (a', w')\<rparr>)"
proof -
  obtain hs where hs: "fst (read_response default_limits (line (write_to r))) =
      Inr \<lparr>cr_status = rs_status r, cr_headers = hs, cr_body = rs_body r\<rparr>"
    using plain_answer_read [OF assms(7,1,8)] by blast
  have none: "as_bytes [] = []" by (simp add: as_bytes_def)
  show ?thesis
    by (intro exI [of _ hs])
      (simp add: call_def none send_over_def assms(3) assms(2) over_http_served [where line = line and bs = bs, OF assms(4,6)] assms(5) hs)
qed

lemma answer_value_secret:
  assumes "r = json_response 200 [(''key'', JString key), (''value'', JString s)]" and "utf8_valid key" and "utf8_valid s"
  shows "answer_value ou \<lparr>cr_status = rs_status r, cr_headers = hs, cr_body = rs_body r\<rparr> =
    Inr (JObject [(''key'', JString key), (''value'', JString s)])"
proof -
  let ?v = "JObject [(''key'', JString key), (''value'', JString s)]"
  have v: "json_wf ?v" using assms(2,3) by simp
  have f: "no_float ?v" by (simp only: no_float.simps) simp
  have n: "nest ?v \<le> max_depth" by (simp add: max_depth_def)
  have u: "utf8_valid (render ?v)" by (rule render_utf8 [OF v f])
  have body: "rs_body r = as_bytes (render ?v)" by (simp add: assms(1) json_object_def)
  have parsed: "json_parse (render ?v) = Inr ?v" by (rule json_parse_render [OF v f n])
  have read: "from_utf8 (rs_body r) = Some (render ?v)" using u unfolding body by (rule from_utf8_as_bytes)
  have some: "render ?v \<noteq> []" by simp
  have status: "rs_status r = 200" by (simp add: assms(1))
  show ?thesis
    unfolding answer_value_def client_response.simps read option.case trim_object [OF u] Let_def if_not_P [OF some] parsed
      map_err_simps and_then_simps status by simp
qed

lemma answer_value_refused:
  "400 \<le> cr_status r \<Longrightarrow> \<exists>message. answer_value ou r = Inl message"
  by (cases "if trim (case from_utf8 (cr_body r) of Some s \<Rightarrow> s | None \<Rightarrow> []) = [] then Inr JNull
      else json_parse (trim (case from_utf8 (cr_body r) of Some s \<Rightarrow> s | None \<Rightarrow> []))")
    (auto simp: answer_value_def Let_def split: if_splits option.splits)

section \<open>Properties\<close>

text \<open>
  C7: What \<open>lsec get\<close> prints is what the vault holds: with a server at the other end of a network
  that delivers the bytes of both directions in time, whatever their pieces, the command ends with 0
  exactly when the server answers 200; then the cached or given token belongs to a caller allowed to
  read there, and exactly the value of that slot and a newline are printed. Otherwise nothing is
  printed but an error. The server is left as its own handler leaves it.
\<close>

theorem lsec_get_prints_the_secret:
  assumes "delivers line" and "ou_transmit ou = over_http cr io_text line" and "sh_net sh = (a, w)"
    and "project_for no_options sh = Inr p" and "environment_for no_options sh = Inr e"
    and "connect_authenticated ou no_options sh = Inr link" and "sl_token link = Some token"
    and "plain_name p" and "plain_name e" and "plain_name key" and "plain_token token" and "sent_header (''host'', sl_address link)"
    and "length (secret_path p e key) + length token + length (sl_address link) \<le> 8000"
    and "key \<notin> {''--project'', ''-p'', ''--env'', ''-e'', ''--token''}"
    and "route cr io_text (get_request (sl_address link) token p e key) a w = (r, a', w')"
    and "length (rs_body r) \<le> max_body default_limits"
    and "lsec ou [''get'', key] sh = (status, sh')"
  shows "sh_net sh' = (a', w') \<and> (status = 0 \<longleftrightarrow> rs_status r = 200) \<and>
    (if status = 0 then \<exists>printed. sh_out sh' = sh_out sh @ printed \<and>
        prints_secret cr (ap_vault (lock_vault a)) w token p e key printed
     else sh_out sh' = sh_out sh)"
proof -
  let ?rq = "get_request (sl_address link) token p e key"
  note target = secret_path_target [OF assms(8-10)]
  note rq = get_request_simps [OF assms(11), of "sl_address link" p e key]
  have ends: "endpoint_of (path_segments (rq_path ?rq)) = SecretNamed p e key" "utf8_valid (rq_path ?rq)"
    using target(2,3) by (simp_all add: rq(2))
  note plain = get_answer_plain [OF assms(15) rq(1) ends(1)]
  obtain bs where bs: "client_send (sl_address link) ''GET'' (secret_path p e key) (call_headers ''GET'' (sl_token link)) [] = Inr bs"
    "fst (request_read default_limits (line bs)) = Inr ?rq"
    unfolding assms(7) by (rule get_request_arrives [OF assms(8-13,1)])
  obtain hs where c: "call ou link ''GET'' (secret_path p e key) None sh =
      (answer_value ou \<lparr>cr_status = rs_status r, cr_headers = hs, cr_body = rs_body r\<rparr>, sh\<lparr>sh_net := (a', w')\<rparr>)"
    using call_over_http [OF assms(1,2) bs assms(3,15) plain(1) assms(16)] by blast
  note run = lsec_get [OF assms(14,4-6) c]
  show ?thesis
  proof (cases "rs_status r = 200")
    case True
    from http_read_value [OF assms(15) True rq(1) ends] obtain caller ids s where
      auth: "fst (authenticate cr token (ap_vault (lock_vault a)) w) = Some caller" "resolve p e (ap_vault (lock_vault a)) = Inr ids"
        "authorise caller ReadSecrets (fst ids) (snd ids) = Inr ()"
        "secret_view cr (ap_vault (lock_vault a)) (fst ids, snd ids, key) = Some (as_bytes s)"
      and s: "utf8_valid s" "r = json_response 200 [(''key'', JString key), (''value'', JString s)]"
      using rq(3) by auto
    have key: "utf8_valid key" using assms(10) plain_name_chars by (intro utf8_valid_ascii) blast
    have "lsec ou [''get'', key] sh = (0, sh\<lparr>sh_net := (a', w'), sh_out := sh_out sh @ s @ newline\<rparr>)"
      unfolding run answer_value_secret [OF s(2) key s(1)]
      by (simp add: cbind_def clook_def answer_field_def finish_def cthen_def say_def creturn_def exit_success_def as_str_def)
    with assms(17) auth True show ?thesis by (auto simp: prints_secret_def)
  next
    case False
    then obtain message where "answer_value ou \<lparr>cr_status = rs_status r, cr_headers = hs, cr_body = rs_body r\<rparr> = Inl message"
      using plain(2) answer_value_refused [of "\<lparr>cr_status = rs_status r, cr_headers = hs, cr_body = rs_body r\<rparr>" ou] by auto
    with assms(17) False show ?thesis unfolding run by (auto simp: exit_failure_def)
  qed
qed

text \<open>A shell in a pinned directory with a token in its environment, and a network of single bytes.\<close>

definition sample_outside :: "(api \<times> world) outside" where
  "sample_outside = \<lparr>ou_resolve = (\<lambda>a. Inr [a]), ou_transmit = over_http sample_crypto (\<lambda>_. []) dripping,
     ou_spawn = (\<lambda>_ _ _ net. (Inl ''no programs here'', net)), ou_debug = (\<lambda>s. s)\<rparr>"

definition sample_shell :: "api \<Rightarrow> world \<Rightarrow> (api \<times> world) shell" where
  "sample_shell a w =
     \<lparr>sh_var = (\<lambda>v. if v = ''LS_TOKEN'' then Some ''tok'' else None),
      sh_files = (\<lambda>p. if p = pin_file then Some (as_bytes (pin_text ''app'' ''dev'')) else None),
      sh_modes = (\<lambda>_. 0), sh_refused = (\<lambda>_. None), sh_fixed = (\<lambda>_. False), sh_tty = False, sh_echo = True,
      sh_stty = True, sh_input = [], sh_out = [], sh_err = [], sh_net = (a, w)\<rparr>"

lemma sample_shell_reads:
  "project_for no_options (sample_shell a w) = Inr ''app''" "environment_for no_options (sample_shell a w) = Inr ''dev''"
  "connect_authenticated sample_outside no_options (sample_shell a w) =
     Inr \<lparr>sl_address = ''127.0.0.1:8787'', sl_token = Some ''tok''\<rparr>"
proof -
  have "from_utf8 (as_bytes (pin_text ''app'' ''dev'')) = Some (pin_text ''app'' ''dev'')" by code_simp
  moreover have "foldl pin_line \<lparr>pin_project = None, pin_environment = None\<rparr> (text_lines (pin_text ''app'' ''dev'')) =
      \<lparr>pin_project = Some ''app'', pin_environment = Some ''dev''\<rparr>" by code_simp
  ultimately have "read_pin (sample_shell a w) = \<lparr>pin_project = Some ''app'', pin_environment = Some ''dev''\<rparr>"
    by (simp add: read_pin_def read_to_string_def sample_shell_def)
  then show "project_for no_options (sample_shell a w) = Inr ''app''" "environment_for no_options (sample_shell a w) = Inr ''dev''"
    by (simp_all add: project_for_def environment_for_def no_options_def or_else_def)
  show "connect_authenticated sample_outside no_options (sample_shell a w) =
     Inr \<lparr>sl_address = ''127.0.0.1:8787'', sl_token = Some ''tok''\<rparr>"
    by (simp add: connect_authenticated_def connect_for_def connect_def token_for_def no_options_def or_else_def
        sample_shell_def sample_outside_def server_address_def default_server_def)
qed

theorem lsec_get_prints_the_secret_witness:
  "\<exists>(a :: api) (w :: world) sh'. lsec sample_outside [''get'', ''KEY''] (sample_shell a w) = (0, sh') \<and>
     sh_out sh' = [CHR 0x01, CHR 0x02, CHR 0x03, CHR 0x0A]"
proof -
  let ?s = "[CHR 0x01, CHR 0x02, CHR 0x03]" and ?link = "\<lparr>sl_address = ''127.0.0.1:8787'', sl_token = Some ''tok''\<rparr>"
  let ?rq = "get_request ''127.0.0.1:8787'' ''tok'' ''app'' ''dev'' ''KEY''"
  let ?r = "json_response 200 [(''key'', JString ''KEY''), (''value'', JString ?s)]"
  have read: "from_utf8 [1, 2, 3] = Some ?s" by code_simp
  have path: "rq_method ?rq = ''GET''" by (simp add: get_request_def)
  have gates: "bearer ?rq = Some ''tok''" "refuse_elsewhere ?rq = None" "refuse_cross_origin ?rq = None"
    "endpoint_of (path_segments (rq_path ?rq)) = SecretNamed ''app'' ''dev'' ''KEY''" by code_simp+
  obtain v :: vault and w :: world and k a' w' where v: "vt_state v = sample_state" "vt_root_key v = Some k"
    and run: "route sample_crypto (\<lambda>_. []) ?rq (new_api v) w = (?r, a', w')"
    by (rule sample_get_answered [OF gates(1) path gates(2,3,4) read])
  have lock: "ap_vault (lock_vault (new_api v)) = v" by (simp add: lock_vault_def new_api_def)
  let ?sh = "sample_shell (new_api v) w"
  have names: "plain_name ''app''" "plain_name ''dev''" "plain_name ''KEY''" "plain_token ''tok''"
    "sent_header (''host'', ''127.0.0.1:8787'')"
    "length (secret_path ''app'' ''dev'' ''KEY'') + length ''tok'' + length ''127.0.0.1:8787'' \<le> 8000"
    "length (render (json_object [(''key'', JString ''KEY''), (''value'', JString ?s)])) \<le> max_body default_limits" by code_simp+
  have fits: "length (rs_body ?r) \<le> max_body default_limits" using names(7) by (simp only: response_json_simps length_as_bytes)
  have far: "delivers dripping" "ou_transmit sample_outside = over_http sample_crypto (\<lambda>_. []) dripping" "sh_net ?sh = (new_api v, w)"
    by (simp_all add: delivers_def dripping_simps sample_outside_def sample_shell_def)
  have link: "sl_token ?link = Some ''tok''" "sl_address ?link = ''127.0.0.1:8787''" by simp_all
  obtain status sh' where lsec: "lsec sample_outside [''get'', ''KEY''] ?sh = (status, sh')" by fastforce
  have words: "''KEY'' \<notin> {''--project'', ''-p'', ''--env'', ''-e'', ''--token''}" by simp
  note all = lsec_get_prints_the_secret [OF far sample_shell_reads link(1) names(1-4) _ _ words _ fits lsec, unfolded link(2), OF names(5,6) run]
  then have status: "status = 0" by simp
  have "sh_out ?sh = []" by (simp add: sample_shell_def)
  with all status have out: "\<exists>printed. sh_out sh' = printed \<and> prints_secret sample_crypto v w ''tok'' ''app'' ''dev'' ''KEY'' printed"
    unfolding lock by auto
  have "printed = ?s @ newline" if "prints_secret sample_crypto v w ''tok'' ''app'' ''dev'' ''KEY'' printed" for printed
  proof -
    from that obtain s where "as_bytes s = [1, 2, 3]" "printed = s @ newline"
      using sample_state_view [OF v] by (auto simp: prints_secret_def)
    moreover have "as_bytes ?s = [1, 2, 3]" by code_simp
    ultimately show ?thesis using as_bytes_inj [of s ?s] by simp
  qed
  with out lsec status show ?thesis by auto
qed

end
