(* ===== verification/Server_Options.thy ===== *)
theory Server_Options
  imports Api Cli_Shell
begin

text \<open>
  The start of \<open>localsecretsd\<close>, \<open>ls-server/src/main.rs\<close>: its options, its usage text, and opening
  the store in the data directory. Creating that directory, binding the address and the threads are
  calls of the operating system and are left out.
\<close>

record options =
  op_data_dir :: str
  op_listen :: str
  op_workers :: nat

definition default_data_dir :: "str option \<Rightarrow> str" where
  "default_data_dir home =
     (case home of Some h \<Rightarrow> join_path h ''.local/share/localsecrets'' | None \<Rightarrow> ''./localsecrets-data'')"

definition default_options :: "str option \<Rightarrow> options" where
  "default_options home =
     \<lparr>op_data_dir = default_data_dir home, op_listen = ''127.0.0.1:8787'', op_workers = 4\<rparr>"

text \<open>\<open>value\<close>: the next argument, which has to be there.\<close>

definition value_after :: "str list \<Rightarrow> str \<Rightarrow> str + str" where
  "value_after args name = (case args of [] \<Rightarrow> Inl (name @ '' needs a value'') | v # _ \<Rightarrow> Inr v)"

definition workers_of :: "str \<Rightarrow> str + nat" where
  "workers_of v =
     and_then (ok_or ''--workers needs a number'' (parse_unsigned usize_max v)) (\<lambda>n.
       if n = 0 then Inl ''--workers must be at least 1'' else Inr n)"

fun parse_arguments_loop :: "str list \<Rightarrow> options \<Rightarrow> str + options option" where
  "parse_arguments_loop [] opts = Inr (Some opts)"
| "parse_arguments_loop (a # as) opts =
     (if a = ''-h'' \<or> a = ''--help'' then Inr None
      else if a = ''--data-dir'' then
        and_then (value_after as a) (\<lambda>v. parse_arguments_loop (drop 1 as) (opts\<lparr>op_data_dir := v\<rparr>))
      else if a = ''--listen'' then
        and_then (value_after as a) (\<lambda>v. parse_arguments_loop (drop 1 as) (opts\<lparr>op_listen := v\<rparr>))
      else if a = ''--workers'' then
        and_then (value_after as a) (\<lambda>v. and_then (workers_of v) (\<lambda>n.
          parse_arguments_loop (drop 1 as) (opts\<lparr>op_workers := n\<rparr>)))
      else Inl (''unknown option '' @ a))"

definition parse_arguments :: "str option \<Rightarrow> str list \<Rightarrow> str + options option" where
  "parse_arguments home args = parse_arguments_loop args (default_options home)"

definition server_usage :: str where
  "server_usage = concat (map (\<lambda>line. line @ newline)
    [''localsecretsd, the localsecrets server'',
     [],
     ''Usage: localsecretsd [options]'',
     [],
     ''Options:'',
     ''  --data-dir <path>   Where to keep the store (default ~/.local/share/localsecrets)'',
     ''  --listen <addr>     Address to bind (default 127.0.0.1:8787)'',
     ''  --workers <n>       Worker threads (default 4)'',
     ''  -h, --help          Show this message'',
     [],
     ''The server binds to the loopback address. Serving it to a network means'',
     ''putting a reverse proxy in front of it to terminate TLS: without that, tokens'',
     ''and secret values travel in the clear.'',
     [],
     ''Logging goes to standard error. Set LS_LOG to error, warn, info or debug.''])"

text \<open>
  \<open>main\<close> up to serving: exit code, standard output and standard error when it ends here, or the
  options to run with.
\<close>

definition server_start :: "str option \<Rightarrow> str list \<Rightarrow> (nat \<times> str \<times> str) + options" where
  "server_start home args =
     (case parse_arguments home args of
        Inr (Some opts) \<Rightarrow> Inr opts
      | Inr None \<Rightarrow> Inl (0, server_usage @ newline, [])
      | Inl message \<Rightarrow> Inl (1, [], ''localsecretsd: '' @ message @ newline @ newline @ server_usage @ newline))"

definition open_store :: "(io_error \<Rightarrow> str) \<Rightarrow> options \<Rightarrow> world \<Rightarrow> (str + vault) \<times> world" where
  "open_store io_text opts w =
     (case vault_open (join_path (op_data_dir opts) ''store.log'') w of
        (r, w1) \<Rightarrow> (map_err (\<lambda>e. ''could not open the store: '' @ show_vault_error io_text e) r, w1))"

text \<open>The options a server runs with always leave it a worker, and a bound the platform can hold.\<close>

lemma workers_usable:
  "parse_arguments_loop args opts = Inr (Some result) \<Longrightarrow> 0 < op_workers opts \<Longrightarrow> op_workers opts \<le> usize_max \<Longrightarrow>
     0 < op_workers result \<and> op_workers result \<le> usize_max"
proof (induction args opts rule: parse_arguments_loop.induct)
  case (2 a as opts)
  then show ?case
    by (auto simp: workers_of_def parse_unsigned_def Let_def bind_eq_Some_conv split: if_splits)
qed simp

end
