(* ===== verification/Vault_Limits.thy ===== *)
theory Vault_Limits
  imports Vault_Secrets
begin

text \<open>
  How large a secret can be. A value is sealed, the seal is written in hexadecimal into an event, and
  the event is sealed again as a record of the log; both seals have the same limit, so the second one
  is the limit of the value.
\<close>

lemma seal_record_too_large:
  assumes "max_plaintext_len < length payload"
  obtains err where "fst (seal_record g key n payload w) = Inl err"
  using assms by (auto simp: seal_record_def bindio_def mapE_def aead_seal_def fail_apply)

lemma append_too_large:
  assumes "max_plaintext_len < length payload" and "log_append g key payload lg w = (r, lg', w')"
  obtains err where "r = Inl err"
proof -
  obtain err where "fst (seal_record g key (lg_count lg) payload w) = Inl err"
    by (rule seal_record_too_large [OF assms(1)])
  with assms(2) that show thesis
    by (cases "seal_record g key (lg_count lg) payload w") (auto simp: log_append_def split: if_splits)
qed

lemma commit_too_large:
  assumes "max_plaintext_len < length (event_to_bytes ev)" and "commit cr ev v w = (r, v', w')"
  obtains err where "r = Inl err"
proof (cases "vt_root_key v")
  case None
  with assms(2) have "r = Inl VaultSealed" by (simp add: commit_def)
  then show thesis by (rule that)
next
  case (Some root_key)
  obtain r1 lg w1 where l: "log_append (cr_gcm cr) root_key (event_to_bytes ev) (vt_log v) w = (r1, lg, w1)"
    by (cases "log_append (cr_gcm cr) root_key (event_to_bytes ev) (vt_log v) w") auto
  obtain err where "r1 = Inl err" by (rule append_too_large [OF assms(1) l])
  with l Some assms(2) have "r = Inl (VaultStore err)" by (simp add: commit_def)
  then show thesis by (rule that)
qed

lemma prepared_length:
  assumes "gcm_ok (cr_gcm cr)" and "prepare_set cr c p e raw val v w = (Inr (ids, key, s, at), v', w')"
  shows "length (sl_ciphertext s) = length val + tag_len"
proof -
  from assms(2) obtain dk w1 env w2 where "project_data_key cr (fst ids) v = Inr dk" and s: "s = sealed_of_envelope env"
    and a: "aead_seal (cr_gcm cr) dk val (secret_context (fst ids) (snd ids) key) w1 = (Inr env, w2)"
    unfolding prepare_set_def
    by (auto simp: vbind_eq_Inr resolve_and_record_Inr authorise_or_record_Inr mapE_eq_Inr)
  then have "key_ok dk" by (auto simp: project_data_key_def dest: unwrap_key_ok)
  from aead_seal_length [OF assms(1) this a] s show ?thesis by (simp add: sealed_of_envelope_def)
qed

lemma set_secret_too_large:
  assumes "gcm_ok (cr_gcm cr)" and "32752 < length val" and "set_secret cr c p e raw val v w = (r, v', w')"
  obtains err where "r = Inl err" and "same_data v v'"
  using assms(3) unfolding set_secret_split
proof (cases rule: vbind_cases)
  case (1 err)
  with leavesD [OF leaves_prepare_set 1(1)] that show thesis by simp
next
  case (2 x v1 w1)
  obtain ids key s at where x: "x = (ids, key, s, at)" by (cases x) auto
  let ?ev = "SecretSet (fst ids) (snd ids) key s at"
  have "max_plaintext_len < 2 * (length val + tag_len)"
    using assms(2) by (simp add: max_plaintext_len_def tag_len_def)
  also have "\<dots> \<le> length (event_to_bytes ?ev)"
    using event_carries_ciphertext [of s "fst ids" "snd ids" key at] prepared_length [OF assms(1) 2(1) [unfolded x]] by simp
  finally have large: "max_plaintext_len < length (event_to_bytes ?ev)" .
  from prepare_set_Inr [OF assms(1) 2(1) [unfolded x]] have v1: "v1 = v" by simp
  from 2(2) have run: "vbind (commit cr ?ev) (\<lambda>_. record_audit cr c ''secret.set'' (slot_target p e key) ''ok'') v w1 = (r, v', w')"
    by (simp add: x v1)
  then show thesis
  proof (cases rule: vbind_cases)
    case (1 err)
    with commit_effect [OF 1(1)] that show thesis by simp
  next
    case (2 y v2 w2)
    with commit_too_large [OF large 2(1)] show thesis by blast
  qed
qed

lemma check_secret_ignores_the_value:
  "length val \<le> max_plaintext_len \<Longrightarrow> check_secret c p e raw val v = check_secret c p e raw [] v"
  by (simp add: check_secret_def)

lemma valid_sample_key: "valid_secret_key ''KEY'' = Inr ''KEY''"
  by code_simp

section \<open>Properties\<close>

text \<open>
  C17: The limit that is announced is not the limit there is: a value of more than 32752 bytes is never
  stored, whoever sets it and whatever the state of the vault and of the disk, and nothing readable
  changes; while the check that a batch makes before it writes anything refuses no value of up to
  65536 bytes for its size.
\<close>

theorem large_values_are_never_stored:
  assumes "gcm_ok (cr_gcm cr)" and "32752 < length val"
    and "set_secret cr c p e raw val v w = (r, v', w')"
  shows "(\<exists>err. r = Inl err) \<and> secret_view cr v' = secret_view cr v \<and>
    (length val \<le> 65536 \<longrightarrow> check_secret c p e raw val v = check_secret c p e raw [] v)"
proof -
  obtain err where "r = Inl err" and "same_data v v'" by (rule set_secret_too_large [OF assms])
  moreover have "length val \<le> 65536 \<Longrightarrow> check_secret c p e raw val v = check_secret c p e raw [] v"
    by (rule check_secret_ignores_the_value) (simp add: max_plaintext_len_def)
  ultimately show ?thesis by (simp add: secret_view_same_data)
qed

theorem large_values_are_never_stored_witness:
  "(\<exists>err. fst (set_secret sample_crypto (sample_caller SessionToken) ''app'' ''dev'' ''KEY'' (replicate 40000 7)
       sample_vault sample_world) = Inl err) \<and>
   check_secret (sample_caller SessionToken) ''app'' ''dev'' ''KEY'' (replicate 40000 7) sample_vault = Inr ()"
proof -
  let ?val = "replicate 40000 (7::byte)"
  obtain r v' w' where run: "set_secret sample_crypto (sample_caller SessionToken) ''app'' ''dev'' ''KEY'' ?val
      sample_vault sample_world = (r, v', w')"
    by (metis prod_cases3)
  have "check_secret (sample_caller SessionToken) ''app'' ''dev'' ''KEY'' [] sample_vault = Inr ()"
    using sample_resolve valid_sample_key by (simp add: check_secret_def require_unsealed_def is_sealed_def
        resolve_for_def authorise_def require_def granted_to_def
        sample_caller_def) (simp add: sample_vault_def)
  with large_values_are_never_stored [OF sample_crypto_ok(2) _ run] run show ?thesis by simp
qed

end
