(* ===== verification/Worker_Pool.thy ===== *)
theory Worker_Pool
  imports LS_Prelude "HOL-Library.Multiset"
begin

text \<open>
  The threads around \<open>serve_connection\<close> in \<open>ls-http/src/server.rs\<close>: one thread that accepts, a
  bounded queue, and the workers that take connections from it, one at a time under the lock of the
  receiver. The state is what the threads share together with where each of them stands; a step is
  one thread moving on by itself, or something happening outside: a connection comes in, or
  \<open>shutdown\<close> is called. A connection is of any type \<open>'c\<close>; the time-outs set on it are left out.
\<close>

section \<open>The threads\<close>

text \<open>
  Where a worker stands in its loop: before \<open>receiver.lock()\<close>, in \<open>guard.recv()\<close> with the lock held, in
  \<open>serve_connection\<close>, or returned.
\<close>

datatype 'c worker = Locking | Receiving | Serving 'c | Returned

text \<open>
  \<open>pl_incoming\<close> is what \<open>listener.incoming()\<close> will yield, \<open>None\<close> for an error. The accepting thread owns
  the sender, so the channel is open while \<open>pl_accepting\<close>. The last five fields record what happened:
  the connections that came in, that were put into the queue, that a worker took out, whose serving
  ended, and that were closed without an answer.
\<close>

record 'c pool =
  pl_running :: bool
  pl_accepting :: bool
  pl_incoming :: "'c option list"
  pl_queue :: "'c list"
  pl_lock :: "nat option"
  pl_poisoned :: bool
  pl_workers :: "'c worker list"
  pl_arrived :: "'c list"
  pl_sent :: "'c list"
  pl_taken :: "'c list"
  pl_served :: "'c list"
  pl_dropped :: "'c list"

definition queue_depth :: nat where
  "queue_depth = 128"

text \<open>\<open>spawn\<close>: the state it leaves the threads in.\<close>

definition pool_spawn :: "nat \<Rightarrow> 'c pool" where
  "pool_spawn workers =
     \<lparr>pl_running = True, pl_accepting = True, pl_incoming = [], pl_queue = [], pl_lock = None, pl_poisoned = False,
      pl_workers = replicate (max workers 1) Locking,
      pl_arrived = [], pl_sent = [], pl_taken = [], pl_served = [], pl_dropped = []\<rparr>"

text \<open>
  \<open>try_send\<close> of the standard library: it fails when the queue is full, and when nobody holds the
  receiver any more.
\<close>

definition try_send :: "'c \<Rightarrow> 'c pool \<Rightarrow> 'c pool option" where
  "try_send c p =
     (if queue_depth \<le> length (pl_queue p) \<or> (\<forall>wk\<in>set (pl_workers p). wk = Returned) then None
      else Some (p\<lparr>pl_queue := pl_queue p @ [c], pl_sent := pl_sent p @ [c]\<rparr>))"

definition somes :: "'c option list \<Rightarrow> 'c list" where
  "somes xs = List.map_filter (\<lambda>x. x) xs"

text \<open>One round of the accepting thread, which waits while nothing comes in.\<close>

definition accept_next :: "'c pool \<Rightarrow> 'c pool option" where
  "accept_next p =
     (if \<not> pl_accepting p then None
      else case pl_incoming p of
        [] \<Rightarrow> None
      | incoming # later \<Rightarrow>
          let p = p\<lparr>pl_incoming := later\<rparr> in
          Some (if \<not> pl_running p
                then p\<lparr>pl_accepting := False, pl_dropped := pl_dropped p @ somes [incoming]\<rparr>
                else case incoming of
                  None \<Rightarrow> p
                | Some stream \<Rightarrow>
                    (case try_send stream p of
                       None \<Rightarrow> p\<lparr>pl_dropped := pl_dropped p @ [stream]\<rparr>
                     | Some p' \<Rightarrow> p')))"

text \<open>What worker \<open>i\<close> does next, unless it has to wait or has returned.\<close>

definition worker_next :: "nat \<Rightarrow> 'c pool \<Rightarrow> 'c pool option" where
  "worker_next i p =
     (case pl_workers p ! i of
        Locking \<Rightarrow>
          (if pl_lock p \<noteq> None then None
           else if pl_poisoned p then Some (p\<lparr>pl_workers := (pl_workers p)[i := Returned]\<rparr>)
           else Some (p\<lparr>pl_lock := Some i, pl_workers := (pl_workers p)[i := Receiving]\<rparr>))
      | Receiving \<Rightarrow>
          (case pl_queue p of
             stream # waiting \<Rightarrow>
               Some (p\<lparr>pl_queue := waiting, pl_lock := None, pl_workers := (pl_workers p)[i := Serving stream],
                       pl_taken := pl_taken p @ [stream]\<rparr>)
           | [] \<Rightarrow>
               if pl_accepting p then None
               else Some (p\<lparr>pl_lock := None, pl_workers := (pl_workers p)[i := Returned]\<rparr>))
      | Serving stream \<Rightarrow>
          Some (p\<lparr>pl_workers := (pl_workers p)[i := Locking], pl_served := pl_served p @ [stream]\<rparr>)
      | Returned \<Rightarrow> None)"

text \<open>
  \<open>shutdown\<close>, up to where it waits for the threads: \<open>wake\<close> is the connection it makes to its own
  listener, if it can make one. It returns when all threads have.
\<close>

definition shutdown :: "'c option \<Rightarrow> 'c pool \<Rightarrow> 'c pool" where
  "shutdown wake p =
     p\<lparr>pl_running := False, pl_incoming := pl_incoming p @ (case wake of None \<Rightarrow> [] | Some c \<Rightarrow> [Some c]),
       pl_arrived := pl_arrived p @ somes [wake]\<rparr>"

definition joined :: "'c pool \<Rightarrow> bool" where
  "joined p \<longleftrightarrow> \<not> pl_accepting p \<and> list_all (\<lambda>wk. wk = Returned) (pl_workers p)"

text \<open>Something comes in at the listener.\<close>

definition arrive :: "'c option \<Rightarrow> 'c pool \<Rightarrow> 'c pool" where
  "arrive incoming p = p\<lparr>pl_incoming := pl_incoming p @ [incoming], pl_arrived := pl_arrived p @ somes [incoming]\<rparr>"

inductive own_step :: "'c pool \<Rightarrow> 'c pool \<Rightarrow> bool" where
  accepts: "accept_next p = Some p' \<Longrightarrow> own_step p p'"
| works: "i < length (pl_workers p) \<Longrightarrow> worker_next i p = Some p' \<Longrightarrow> own_step p p'"

inductive pool_step :: "'c pool \<Rightarrow> 'c pool \<Rightarrow> bool" where
  own: "own_step p p' \<Longrightarrow> pool_step p p'"
| arrives: "pool_step p (arrive incoming p)"
| stops: "pool_step p (shutdown wake p)"

inductive_cases own_stepE: "own_step p p'"
inductive_cases pool_stepE: "pool_step p p'"

section \<open>The invariant\<close>

definition in_service :: "'c pool \<Rightarrow> 'c list" where
  "in_service p = List.map_filter (\<lambda>wk. case wk of Serving c \<Rightarrow> Some c | _ \<Rightarrow> None) (pl_workers p)"

text \<open>
  The lock is held by exactly the worker that is in \<open>recv\<close>; no worker returns while the sender is
  there; connections are taken in the order in which they were sent; none is lost and none appears
  twice.
\<close>

definition pool_ok :: "nat \<Rightarrow> 'c pool \<Rightarrow> bool" where
  "pool_ok n p \<longleftrightarrow>
     length (pl_workers p) = max n 1 \<and> \<not> pl_poisoned p \<and> length (pl_queue p) \<le> queue_depth \<and>
     (\<forall>i<length (pl_workers p). pl_workers p ! i = Receiving \<longleftrightarrow> pl_lock p = Some i) \<and>
     (\<forall>i. pl_lock p = Some i \<longrightarrow> i < length (pl_workers p)) \<and>
     (pl_accepting p \<longrightarrow> Returned \<notin> set (pl_workers p)) \<and>
     (pl_running p \<longrightarrow> pl_accepting p) \<and>
     (Returned \<in> set (pl_workers p) \<longrightarrow> pl_queue p = []) \<and>
     pl_taken p @ pl_queue p = pl_sent p \<and>
     mset (pl_taken p) = mset (pl_served p) + mset (in_service p) \<and>
     mset (pl_arrived p) = mset (pl_sent p) + mset (pl_dropped p) + mset (somes (pl_incoming p))"

lemma somes_simps [simp]:
  "somes [] = []" "somes (None # xs) = somes xs" "somes (Some c # xs) = c # somes xs"
  "somes (xs @ ys) = somes xs @ somes ys"
  by (simp_all add: somes_def List.map_filter_def)

abbreviation served_by :: "'c worker \<Rightarrow> 'c list" where
  "served_by wk \<equiv> (case wk of Serving c \<Rightarrow> [c] | _ \<Rightarrow> [])"

lemma in_service_concat: "in_service p = concat (map served_by (pl_workers p))"
proof -
  have "List.map_filter (\<lambda>wk. case wk of Serving c \<Rightarrow> Some c | _ \<Rightarrow> None) ws = concat (map served_by ws)" for ws :: "'c worker list"
    by (induction ws) (auto simp: List.map_filter_def split: worker.splits)
  then show ?thesis by (simp add: in_service_def)
qed

lemma mset_concat_update:
  "i < length ws \<Longrightarrow>
   mset (concat (map f (ws[i := wk]))) + mset (f (ws ! i)) = mset (concat (map f ws)) + mset (f wk)"
  by (induction ws arbitrary: i) (auto simp: nth_Cons split: nat.split)

lemma in_service_set:
  assumes "i < length (pl_workers p)" and "pl_workers q = (pl_workers p)[i := wk]"
  shows "mset (in_service q) + mset (served_by (pl_workers p ! i)) = mset (in_service p) + mset (served_by wk)"
  using mset_concat_update [OF assms(1), of served_by wk] assms(2) by (simp add: in_service_concat)

lemma in_service_simps [simp]:
  "in_service (p\<lparr>pl_running := r\<rparr>) = in_service p" "in_service (p\<lparr>pl_accepting := a\<rparr>) = in_service p"
  "in_service (p\<lparr>pl_incoming := xs\<rparr>) = in_service p" "in_service (p\<lparr>pl_queue := cs\<rparr>) = in_service p"
  "in_service (p\<lparr>pl_lock := l\<rparr>) = in_service p" "in_service (p\<lparr>pl_arrived := cs\<rparr>) = in_service p"
  "in_service (p\<lparr>pl_sent := cs\<rparr>) = in_service p" "in_service (p\<lparr>pl_taken := cs\<rparr>) = in_service p"
  "in_service (p\<lparr>pl_served := cs\<rparr>) = in_service p" "in_service (p\<lparr>pl_dropped := cs\<rparr>) = in_service p"
  by (simp_all add: in_service_def)

lemma pool_spawn_ok: "pool_ok n (pool_spawn n)"
  by (auto simp: pool_ok_def pool_spawn_def in_service_def List.map_filter_def queue_depth_def in_set_replicate)

lemma pool_ok_live:
  "pool_ok n p \<Longrightarrow> pl_accepting p \<Longrightarrow> \<not> (\<forall>wk\<in>set (pl_workers p). wk = Returned)"
  by (cases "pl_workers p") (auto simp: pool_ok_def)

lemma accept_next_cases:
  assumes "accept_next p = Some p'"
  obtains (closed) incoming later where "pl_accepting p" "pl_incoming p = incoming # later" "\<not> pl_running p"
      "p' = p\<lparr>pl_incoming := later, pl_accepting := False, pl_dropped := pl_dropped p @ somes [incoming]\<rparr>"
  | (failed) later where "pl_accepting p" "pl_incoming p = None # later" "pl_running p" "p' = p\<lparr>pl_incoming := later\<rparr>"
  | (full) c later where "pl_accepting p" "pl_incoming p = Some c # later" "pl_running p"
      "queue_depth \<le> length (pl_queue p) \<or> (\<forall>wk\<in>set (pl_workers p). wk = Returned)"
      "p' = p\<lparr>pl_incoming := later, pl_dropped := pl_dropped p @ [c]\<rparr>"
  | (sent) c later where "pl_accepting p" "pl_incoming p = Some c # later" "pl_running p"
      "length (pl_queue p) < queue_depth"
      "p' = p\<lparr>pl_incoming := later, pl_queue := pl_queue p @ [c], pl_sent := pl_sent p @ [c]\<rparr>"
proof (cases "pl_incoming p")
  case Nil
  with assms show thesis by (simp add: accept_next_def split: if_splits)
next
  case (Cons incoming later)
  with assms that show thesis
    by (cases "pl_running p"; cases incoming)
      (auto simp: accept_next_def try_send_def Let_def not_le split: if_splits)
qed

lemma worker_next_cases:
  assumes "worker_next i p = Some p'"
  obtains (poisoned) "pl_workers p ! i = Locking" "pl_lock p = None" "pl_poisoned p"
      "p' = p\<lparr>pl_workers := (pl_workers p)[i := Returned]\<rparr>"
  | (locks) "pl_workers p ! i = Locking" "pl_lock p = None" "\<not> pl_poisoned p"
      "p' = p\<lparr>pl_lock := Some i, pl_workers := (pl_workers p)[i := Receiving]\<rparr>"
  | (receives) c waiting where "pl_workers p ! i = Receiving" "pl_queue p = c # waiting"
      "p' = p\<lparr>pl_queue := waiting, pl_lock := None, pl_workers := (pl_workers p)[i := Serving c], pl_taken := pl_taken p @ [c]\<rparr>"
  | (returns) "pl_workers p ! i = Receiving" "pl_queue p = []" "\<not> pl_accepting p"
      "p' = p\<lparr>pl_lock := None, pl_workers := (pl_workers p)[i := Returned]\<rparr>"
  | (serves) c where "pl_workers p ! i = Serving c"
      "p' = p\<lparr>pl_workers := (pl_workers p)[i := Locking], pl_served := pl_served p @ [c]\<rparr>"
  using assms that
  by (auto simp: worker_next_def split: worker.splits if_splits list.splits)

lemma accept_next_ok:
  assumes "pool_ok n p" and "accept_next p = Some p'"
  shows "pool_ok n p'"
  using assms(2)
proof (cases rule: accept_next_cases)
  case (sent c later)
  then have "Returned \<notin> set (pl_workers p)" using assms(1) by (simp add: pool_ok_def)
  with sent assms(1) show ?thesis by (auto simp: pool_ok_def)
next
  case (closed incoming later)
  with assms(1) show ?thesis
    by (cases incoming) (auto simp: pool_ok_def)
qed (use assms(1) in \<open>auto simp: pool_ok_def\<close>)

lemma nth_update_all: "i < length xs \<Longrightarrow> (\<forall>j<length xs. P j (xs[i := y] ! j)) \<longleftrightarrow> P i y \<and> (\<forall>j<length xs. j \<noteq> i \<longrightarrow> P j (xs ! j))"
  by (auto simp: nth_list_update)

lemma worker_next_ok:
  assumes "pool_ok n p" and "i < length (pl_workers p)" and "worker_next i p = Some p'"
  shows "pool_ok n p'"
  using assms(3)
proof (cases rule: worker_next_cases)
  case poisoned
  with assms(1) show ?thesis by (simp add: pool_ok_def)
next
  case locks
  with assms(1,2) in_service_set [OF assms(2), of p' Receiving] show ?thesis
    by (auto simp: pool_ok_def nth_list_update dest: set_update_subset_insert [THEN subsetD])
next
  case (receives c waiting)
  with assms(1,2) in_service_set [OF assms(2), of p' "Serving c"] show ?thesis
    by (auto simp: pool_ok_def nth_list_update dest: set_update_subset_insert [THEN subsetD])
next
  case returns
  with assms(1,2) in_service_set [OF assms(2), of p' Returned] show ?thesis
    by (auto simp: pool_ok_def nth_list_update dest: set_update_subset_insert [THEN subsetD])
next
  case (serves c)
  with assms(1,2) in_service_set [OF assms(2), of p' Locking] show ?thesis
    by (auto simp: pool_ok_def nth_list_update dest: set_update_subset_insert [THEN subsetD])
qed

lemma own_step_ok: "own_step p p' \<Longrightarrow> pool_ok n p \<Longrightarrow> pool_ok n p'"
  by (erule own_stepE) (auto intro: accept_next_ok worker_next_ok)

lemma arrive_ok: "pool_ok n p \<Longrightarrow> pool_ok n (arrive incoming p)"
  by (cases incoming) (auto simp: pool_ok_def arrive_def)

lemma shutdown_ok: "pool_ok n p \<Longrightarrow> pool_ok n (shutdown wake p)"
  by (cases wake) (auto simp: pool_ok_def shutdown_def)

lemma pool_step_ok: "pool_step p p' \<Longrightarrow> pool_ok n p \<Longrightarrow> pool_ok n p'"
  by (erule pool_stepE) (auto intro: own_step_ok arrive_ok shutdown_ok)

lemma reachable_ok: "pool_step\<^sup>*\<^sup>* (pool_spawn n) p \<Longrightarrow> pool_ok n p"
  by (induction rule: rtranclp_induct) (auto intro: pool_spawn_ok pool_step_ok)

section \<open>Progress\<close>

text \<open>
  What is still to be done, counted in steps: four for what comes in, three for what is queued, and
  for a worker as many as it can take before it has to wait.
\<close>

fun steps_of :: "'c worker \<Rightarrow> nat" where
  "steps_of Locking = 2"
| "steps_of Receiving = 1"
| "steps_of (Serving c) = 3"
| "steps_of Returned = 0"

definition work_left :: "'c pool \<Rightarrow> nat" where
  "work_left p = 4 * length (pl_incoming p) + 3 * length (pl_queue p) + sum_list (map steps_of (pl_workers p))"

lemma sum_list_map_update:
  fixes f :: "'a \<Rightarrow> nat"
  shows "i < length xs \<Longrightarrow> sum_list (map f (xs[i := y])) + f (xs ! i) = sum_list (map f xs) + f y"
  by (induction xs arbitrary: i) (auto simp: nth_Cons split: nat.split)

lemma own_step_decreases: "own_step p p' \<Longrightarrow> work_left p' < work_left p"
proof (erule own_stepE)
  assume "accept_next p = Some p'"
  then show ?thesis by (cases rule: accept_next_cases) (simp_all add: work_left_def)
next
  fix i assume i: "i < length (pl_workers p)" and "worker_next i p = Some p'"
  note sums = sum_list_map_update [OF i, of steps_of]
  from \<open>worker_next i p = Some p'\<close> show ?thesis
  proof (cases rule: worker_next_cases)
    case poisoned with sums [of Returned] show ?thesis by (simp add: work_left_def)
  next
    case locks with sums [of Receiving] show ?thesis by (simp add: work_left_def)
  next
    case (receives c waiting) with sums [of "Serving c"] show ?thesis by (simp add: work_left_def)
  next
    case returns with sums [of Returned] show ?thesis by (simp add: work_left_def)
  next
    case (serves c) with sums [of Locking] show ?thesis by (simp add: work_left_def)
  qed
qed

lemma run_is_short: "(own_step ^^ k) p q \<Longrightarrow> k + work_left q \<le> work_left p"
  by (induction k arbitrary: q) (fastforce dest: own_step_decreases)+

lemma run_ends: obtains q where "own_step\<^sup>*\<^sup>* p q" and "\<nexists>q'. own_step q q'"
proof -
  have "\<exists>q. own_step\<^sup>*\<^sup>* p q \<and> (\<nexists>q'. own_step q q')"
  proof (induction "work_left p" arbitrary: p rule: less_induct)
    case less
    then show ?case by (meson converse_rtranclp_into_rtranclp own_step_decreases rtranclp.rtrancl_refl)
  qed
  with that show thesis by blast
qed

lemma stuck_worker:
  assumes "\<nexists>q'. own_step q q'" and "i < length (pl_workers q)"
  shows "worker_next i q = None"
  using assms works by (metis option.exhaust)

text \<open>
  When no thread can move by itself, one of two things holds: the pool is idle, waiting for the next
  connection, or it has ended.
\<close>

lemma stuck_is_idle:
  assumes "pool_ok n q" and "\<nexists>q'. own_step q q'"
  shows "pl_queue q = [] \<and> in_service q = [] \<and> (if pl_accepting q then pl_incoming q = [] else joined q)"
proof -
  let ?ws = "pl_workers q"
  note stuck = stuck_worker [OF assms(2)]
  have noserve: "?ws ! i \<noteq> Serving c" if "i < length ?ws" for i c
    using stuck [OF that] by (auto simp: worker_next_def)
  then have "in_service q = []"
    by (auto simp: in_service_concat in_set_conv_nth split: worker.split)
  have some: "length ?ws > 0" and poison: "\<not> pl_poisoned q"
    using assms(1) by (simp_all add: pool_ok_def)
  have receiving: "?ws ! i \<noteq> Receiving" if "i < length ?ws" "pl_queue q \<noteq> [] \<or> \<not> pl_accepting q" for i
    using stuck [OF that(1)] that(2) by (auto simp: worker_next_def split: list.splits)
  have free: "pl_lock q = None" if busy: "pl_queue q \<noteq> [] \<or> \<not> pl_accepting q"
  proof (cases "pl_lock q")
    case (Some i)
    with assms(1) have "i < length ?ws" and "?ws ! i = Receiving" unfolding pool_ok_def by blast+
    with receiving [OF _ busy] show ?thesis by blast
  qed
  have gone: "?ws ! i = Returned" if "i < length ?ws" "pl_queue q \<noteq> [] \<or> \<not> pl_accepting q" for i
    using stuck [OF that(1)] noserve [OF that(1)] receiving [OF that] free [OF that(2)] poison
    by (cases "?ws ! i") (auto simp: worker_next_def)
  have empty: "pl_queue q = []"
  proof (rule ccontr)
    assume "pl_queue q \<noteq> []"
    with gone [OF some] some have "Returned \<in> set ?ws" by (metis nth_mem)
    with assms(1) \<open>pl_queue q \<noteq> []\<close> show False by (simp add: pool_ok_def)
  qed
  moreover have "pl_incoming q = []" if "pl_accepting q"
  proof (rule ccontr)
    assume "pl_incoming q \<noteq> []"
    with that have "\<exists>q'. accept_next q = Some q'" by (cases "pl_incoming q") (simp_all add: accept_next_def Let_def)
    with assms(2) show False by (blast intro: accepts)
  qed
  moreover have "joined q" if "\<not> pl_accepting q"
    using that gone by (simp add: joined_def list_all_length)
  ultimately show ?thesis using \<open>in_service q = []\<close> by simp
qed

definition winding_down :: "'c pool \<Rightarrow> bool" where
  "winding_down p \<longleftrightarrow> \<not> pl_running p \<and> (pl_accepting p \<longrightarrow> pl_incoming p \<noteq> [])"

lemma own_step_winding_down: "own_step p p' \<Longrightarrow> winding_down p \<Longrightarrow> winding_down p'"
proof (erule own_stepE)
  assume "accept_next p = Some p'" and "winding_down p"
  then show ?thesis by (cases rule: accept_next_cases) (simp_all add: winding_down_def)
next
  fix i assume "worker_next i p = Some p'" and "winding_down p"
  then show ?thesis by (cases rule: worker_next_cases) (simp_all add: winding_down_def)
qed

lemma own_steps_winding_down: "own_step\<^sup>*\<^sup>* p q \<Longrightarrow> winding_down p \<Longrightarrow> winding_down q"
  by (induction rule: rtranclp_induct) (auto intro: own_step_winding_down)

lemma own_steps_ok: "own_step\<^sup>*\<^sup>* p q \<Longrightarrow> pool_ok n p \<Longrightarrow> pool_ok n q"
  by (induction rule: rtranclp_induct) (auto intro: own_step_ok)

section \<open>Properties\<close>

text \<open>
  C15: The threads lose no connection and serve none twice, however their steps and the outside
  interleave: what came in is still coming in, was queued or was closed; what was queued is taken in
  that order; what was taken was served or is being served, by at most as many workers as there are.
  The queue stays within its bound, only one worker waits on it at a time, and while the server runs
  a connection is closed unanswered only when the queue is full.
\<close>

theorem connections_are_conserved:
  assumes "pool_step\<^sup>*\<^sup>* (pool_spawn n) p"
  shows "mset (pl_arrived p) = mset (pl_sent p) + mset (pl_dropped p) + mset (somes (pl_incoming p)) \<and>
    pl_taken p @ pl_queue p = pl_sent p \<and>
    mset (pl_taken p) = mset (pl_served p) + mset (in_service p) \<and>
    length (in_service p) \<le> max n 1 \<and> length (pl_queue p) \<le> 128 \<and>
    (i < length (pl_workers p) \<longrightarrow> j < length (pl_workers p) \<longrightarrow>
       pl_workers p ! i = Receiving \<longrightarrow> pl_workers p ! j = Receiving \<longrightarrow> i = j) \<and>
    (pl_running p \<longrightarrow> pl_incoming p = Some c # later \<longrightarrow> length (pl_queue p) < 128 \<longrightarrow>
       accept_next p = Some (p\<lparr>pl_incoming := later, pl_queue := pl_queue p @ [c], pl_sent := pl_sent p @ [c]\<rparr>))"
proof -
  have ok: "pool_ok n p" by (rule reachable_ok [OF assms])
  have "length (concat (map served_by ws)) \<le> length ws" for ws :: "'a worker list"
    by (induction ws) (auto split: worker.split)
  then have "length (in_service p) \<le> max n 1"
    using ok by (metis in_service_concat pool_ok_def)
  moreover have "accept_next p = Some (p\<lparr>pl_incoming := later, pl_queue := pl_queue p @ [c], pl_sent := pl_sent p @ [c]\<rparr>)"
    if "pl_running p" "pl_incoming p = Some c # later" "length (pl_queue p) < 128"
    using that ok pool_ok_live [OF ok] by (auto simp: pool_ok_def accept_next_def try_send_def queue_depth_def Let_def)
  moreover have "i = j" if "i < length (pl_workers p)" "j < length (pl_workers p)"
      "pl_workers p ! i = Receiving" "pl_workers p ! j = Receiving"
    using that ok by (metis option.inject pool_ok_def)
  ultimately show ?thesis using ok by (simp add: pool_ok_def queue_depth_def)
qed

theorem connections_are_conserved_witness:
  "accept_next (arrive (Some (7::nat)) (pool_spawn 2)) =
     Some ((arrive (Some 7) (pool_spawn 2))\<lparr>pl_incoming := [], pl_queue := [7], pl_sent := [7]\<rparr>)"
proof -
  have "pool_step\<^sup>*\<^sup>* (pool_spawn 2) (arrive (Some (7::nat)) (pool_spawn 2))"
    by (intro r_into_rtranclp arrives)
  from connections_are_conserved [OF this, of 0 0 7 "[]"] show ?thesis
    by (simp add: arrive_def pool_spawn_def)
qed

text \<open>
  C16: The threads neither hang nor run on for nothing. Left to themselves they come to rest within a
  number of steps that is counted in advance, and then every queued connection has been served: either
  they are waiting for the next one, with none outstanding, or they have all returned. Once
  \<open>shutdown\<close> has been called and its own connection, or any other, has come in, they all return, after
  serving what was queued.
\<close>

theorem shutdown_waits_for_what_is_queued:
  assumes "pool_step\<^sup>*\<^sup>* (pool_spawn n) p" and "(own_step ^^ k) p q"
  shows "k \<le> 4 * length (pl_incoming p) + 3 * length (pl_queue p) + 3 * max n 1 \<and>
    ((\<nexists>q'. own_step q q') \<longrightarrow>
       pl_queue q = [] \<and> mset (pl_served q) = mset (pl_sent q) \<and> (pl_accepting q \<and> pl_incoming q = [] \<or> joined q)) \<and>
    (\<not> pl_running p \<longrightarrow> pl_incoming p \<noteq> [] \<longrightarrow> (\<nexists>q'. own_step q q') \<longrightarrow> joined q) \<and>
    (\<exists>rest. own_step\<^sup>*\<^sup>* q rest \<and> (\<nexists>q'. own_step rest q'))"
proof (intro conjI impI)
  have ok: "pool_ok n p" by (rule reachable_ok [OF assms(1)])
  have run: "own_step\<^sup>*\<^sup>* p q" using assms(2) by (rule relpowp_imp_rtranclp)
  have "steps_of wk \<le> 3" for wk :: "'a worker" by (cases wk) simp_all
  then have "sum_list (map steps_of ws) \<le> 3 * length ws" for ws :: "'a worker list"
    by (induction ws) (simp_all add: add_mono)
  from this [of "pl_workers p"] run_is_short [OF assms(2)] ok
  show "k \<le> 4 * length (pl_incoming p) + 3 * length (pl_queue p) + 3 * max n 1"
    by (simp add: work_left_def pool_ok_def)
  show "\<exists>rest. own_step\<^sup>*\<^sup>* q rest \<and> (\<nexists>q'. own_step rest q')"
    by (rule run_ends) blast
  assume stuck: "\<nexists>q'. own_step q q'"
  have ok': "pool_ok n q" by (rule own_steps_ok [OF run ok])
  from stuck_is_idle [OF ok' stuck]
  have idle: "pl_queue q = []" "in_service q = []" "if pl_accepting q then pl_incoming q = [] else joined q" by simp_all
  then show "pl_queue q = []" and "pl_accepting q \<and> pl_incoming q = [] \<or> joined q" by (auto split: if_splits)
  from ok' idle(1,2) show "mset (pl_served q) = mset (pl_sent q)" by (auto simp: pool_ok_def)
  assume "\<not> pl_running p" and "pl_incoming p \<noteq> []"
  then have "winding_down q" by (intro own_steps_winding_down [OF run]) (simp add: winding_down_def)
  with idle(3) show "joined q" by (auto simp: winding_down_def split: if_splits)
qed

text \<open>A worker takes the one connection while \<open>shutdown\<close> is already waiting for it.\<close>

definition sample_pool :: "nat pool" where
  "sample_pool = shutdown (Some 9) (the (accept_next (arrive (Some 7) (pool_spawn 1))))"

theorem shutdown_waits_for_what_is_queued_witness:
  "\<exists>q. own_step\<^sup>*\<^sup>* sample_pool q \<and> joined q \<and> mset (pl_served q) = mset (pl_sent q)"
proof -
  let ?p = "arrive (Some (7::nat)) (pool_spawn 1)"
  have "accept_next ?p = Some (the (accept_next ?p))"
    by (simp add: accept_next_def arrive_def pool_spawn_def try_send_def queue_depth_def)
  then have "pool_step ?p (the (accept_next ?p))" by (intro own accepts)
  then have "pool_step\<^sup>*\<^sup>* ?p sample_pool"
    unfolding sample_pool_def by (rule converse_rtranclp_into_rtranclp) (rule r_into_rtranclp, rule stops)
  with arrives have "pool_step\<^sup>*\<^sup>* (pool_spawn 1) sample_pool"
    by (rule converse_rtranclp_into_rtranclp)
  note claim = shutdown_waits_for_what_is_queued [OF this]
  obtain q k where q: "own_step\<^sup>*\<^sup>* sample_pool q" "\<nexists>q'. own_step q q'" "(own_step ^^ k) sample_pool q"
    by (metis run_ends rtranclp_imp_relpowp)
  have "\<not> pl_running sample_pool" and "pl_incoming sample_pool \<noteq> []"
    by (simp_all add: sample_pool_def shutdown_def)
  with claim [OF q(3)] q show ?thesis by blast
qed

end
