(* ===== verification/Spec2Isabelle.thy ===== *)
theory Spec2Isabelle
  imports Json_Roundtrip Rate_Limit Vault_Audit Http_Exchange Api_Safety Dotenv Log_Line
    Cli_Exchange Server_Options Vault_Limits Worker_Pool
begin

text \<open>
  A verification development for \<open>localsecrets\<close>, a self-hosted secret store written in Rust. All paths
  below are under \<open>src/crates/\<close>.

  \<^bold>\<open>The program.\<close> A server keeps secrets in one append-only file. Every change is an event; an event is
  written as JSON, sealed with AES-256-GCM under the root key, framed and appended. What the server
  holds in memory is the fold of the events. The root key itself is stored wrapped by a master key in
  one clear record, the barrier, and the master key is shared among custodians with Shamir's scheme;
  until enough shares have been given back the vault is sealed. The vault answers callers with bearer
  tokens, decides what each may do and records what it hands out or refuses. An HTTP layer with its own
  request parser and worker threads and a JSON API stand before it, and \<open>lsec\<close> is the command-line client.

  \<^bold>\<open>How the code is modelled.\<close> A struct is a record, an enum a datatype, a byte a word of 8 bits, text
  the list of its UTF-8 bytes (operations that go by characters split it with \<open>chars\<close>). An operation on
  \<open>&mut self\<close> takes the state and the world and returns its result with both as it leaves them, also when it
  fails, so that what was done before an error stays done. An error is the left side of a sum, with the
  source's constructors. The world (theory \<open>World\<close>) holds the answers the operating system will give:
  entropy that may be refused, a clock, and files as inodes with an oracle that decides which file
  operation fails and how much of a write went through before it did. Loops are structural or terminate
  by a measure; no fuel is used anywhere, and every function is total.

  \<^bold>\<open>Parameters.\<close> AES-256-GCM is the record \<open>gcm\<close>; what its documentation promises is \<open>gcm_ok\<close>, and that a
  ciphertext does not open under other associated data is \<open>gcm_binds\<close>, stated for one context at a time
  because no cipher with a tag of fixed length has it for all at once. SHA-256 is any function of bytes
  with digests of 32 bytes, Argon2 the record \<open>argon2\<close>; the three make up \<open>crypto\<close>. The text of an
  operating system error, the resolver, the network and spawned programs are parameters too. Wherever a
  theorem assumes something of a parameter, a witness instantiates it with concrete functions.

  \<^bold>\<open>Foundations\<close> (\<open>ls-core\<close>)

  \<^item> \<open>LS_Prelude\<close>: text, numbers, sums and lists as Rust's standard library has them. \<open>Codec\<close>: the locales
    \<open>codec\<close> and \<open>canonical_codec\<close>, the contract of an encoder and its decoder, interpreted below for base64,
    hexadecimal, big-endian numbers, timestamps, printed shares, JSON, events and the barrier record.
    \<open>Characters\<close>: text as characters.
  \<^item> \<open>World\<close>: the machine, and \<open>random.rs\<close>.
  \<^item> \<open>Encoding\<close> (\<open>encoding.rs\<close>): base64 has one spelling per value; hexadecimal reads either case.
  \<^item> \<open>Timestamp\<close> (\<open>time.rs\<close>): the calendar in both directions; the text of an instant is read back, and is
    the only text that is. Timestamps are a \<open>linorder\<close>.
  \<^item> \<open>GF256\<close> and \<open>Shamir\<close> (\<open>crypto/shamir.rs\<close>): the byte loops are the operations of a field, of which
    \<open>gf256\<close> is an instance; enough shares recombine to the secret, fewer are consistent with every secret.
  \<^item> \<open>Aead\<close> (\<open>crypto/aead.rs\<close>): the encoding of associated data is injective, so that a ciphertext opens in
    its own slot only. \<open>Credentials\<close> (\<open>crypto/token.rs\<close>, \<open>crypto/password.rs\<close>): tokens and password hashes.
  \<^item> \<open>Float64\<close>, \<open>Json\<close> and \<open>Json_Roundtrip\<close> (\<open>ls-json\<close>): the strict parser and the renderer. What is rendered is
    read back; what is accepted is well formed and within the nesting limit; parsing always ends, because
    a value consumes input.

  \<^bold>\<open>The store\<close> (\<open>ls-store\<close>)

  \<^item> \<open>Event\<close> (\<open>lib.rs\<close>, \<open>event.rs\<close>): every event and its stored form, which is read back unchanged.
  \<^item> \<open>State\<close> (\<open>state.rs\<close>): the fold. It refines a map from slots to sealed values: the locale \<open>keyed_store\<close> is
    the contract of that map, interpreted on the list the code keeps.
  \<^item> \<open>Log\<close>, \<open>Log_Safety\<close> and \<open>Log_Machine\<close> (\<open>log.rs\<close>): opening with recovery, appending, reading and compaction.
    A file is described by the records written to it and the torn tail an interrupted write leaves. The
    machine of \<open>Log_Machine\<close> opens, appends and crashes with operations failing, and no acknowledged
    record is lost, with one exception: a reopening that goes through after \<open>Path::exists\<close> failed to look
    at the file takes the log for empty, a gap of the code that is stated as a property. Both
    appending operations are interpretations of the locale \<open>appender\<close>.

  \<^bold>\<open>The server\<close> (\<open>ls-server\<close>)

  \<^item> \<open>Barrier\<close>, \<open>Validate\<close> and \<open>Rate_Limit\<close>: the barrier record, the checks of names, and the limiter of
    attempts: a budget per window of 60 seconds, over any stretch of time.
  \<^item> \<open>Vault\<close> (\<open>vault.rs\<close>): sealing, unsealing, rekeying, users, tokens, projects, environments, secrets and the
    audit trail, each with its checks, writes and records in the order of the code.
  \<^item> \<open>Vault_Safety\<close> and \<open>Vault_Machine\<close>: whatever fails and whenever, the state in memory is the replay of
    the file, with the same exception as for the log. \<open>Vault_Progress\<close>: when nothing fails, operations succeed. \<open>Vault_Secrets\<close>: the secrets as a
    map, and what each operation does to it; rekeying keeps every value. \<open>Vault_Access\<close>: who may do what.
    \<open>Vault_Audit\<close>: nothing is handed out unrecorded. \<open>Vault_Limits\<close>: how large a secret can be.
  \<^item> \<open>Api\<close> and \<open>Api_Safety\<close> (\<open>api.rs\<close>): the router and every handler over the locked vault. Requests of
    any kind, in any order, even with handlers that panic halfway, keep the vault in step with its file;
    a request without a usable token changes nothing; a batch is checked before it is written.
  \<^item> \<open>Server_Options\<close> (\<open>main.rs\<close>): the options of the server and opening its store.

  \<^bold>\<open>HTTP and logging\<close> (\<open>ls-http\<close>, \<open>ls-log\<close>)

  \<^item> \<open>Http_Request\<close> and \<open>Http_Framing\<close> (\<open>lib.rs\<close>, \<open>request.rs\<close>): a connection answers reads with some
    bytes, an interruption, a failure or the end. What is read depends on the bytes alone and not on the
    pieces they come in, and an accepted request can be read in one way only.
  \<^item> \<open>Http_Response\<close> and \<open>Http_Exchange\<close> (\<open>response.rs\<close>, \<open>server.rs\<close>, \<open>client.rs\<close>): serving one
    connection and the client; each side reads what the other one writes.
  \<^item> \<open>Worker_Pool\<close> (\<open>server.rs\<close>): the threads as a step relation over every interleaving: no connection is
    lost, the queue is bounded, and after a shutdown all threads return with the queue served. The
    number of steps is bounded by a weight that each of them lowers.
  \<^item> \<open>Log_Line\<close> (\<open>ls-log/src/lib.rs\<close>): a log line tells which level, message and fields it was made of.

  \<^bold>\<open>The client\<close> (\<open>ls-cli\<close>)

  \<^item> \<open>Dotenv\<close> (in \<open>commands.rs\<close>): what \<open>lsec export\<close> writes, \<open>lsec import\<close> reads back.
  \<^item> \<open>Cli_Shell\<close> (\<open>config.rs\<close>, \<open>input.rs\<close>, \<open>api.rs\<close>): the process \<open>lsec\<close> runs in, and its call to the server.
    \<open>Cli\<close> (\<open>main.rs\<close>, \<open>commands.rs\<close>): the options and every command.
  \<^item> \<open>Cli_Exchange\<close>: from the arguments of \<open>lsec get\<close> through the client, the bytes of both directions, the
    server's parser, the router and the vault to the line that is printed.

  \<^bold>\<open>Not modelled.\<close> Binding a socket, its time-outs, creating the data directory and waiting for ever: calls
  of the operating system without a decision of the program. Zeroizing, constant-time comparison and
  redacted \<open>Debug\<close> output: properties of memory, time and formatting that a functional model does not have.
  The log lines that handlers print besides their answer, and the \<open>Display\<close> texts of errors that reach no
  one through the API. Wrap-around of the 32-bit attempt counter, which would take four billion attempts
  within one window. A panic outside a handler. The primitives of the cryptographic crates, which are
  parameters. Module declarations, tests and build files.
\<close>

end
